(* ===== verification/Prelude.thy ===== *)
theory Prelude
  imports Main
begin

text \<open>
  Shared vocabulary of the development: the failures a C++ computation can end in, the result
  type every fallible operation of the model returns, sequencing and loops over that type, and
  the generic theory of reachable states of a step relation. The locales declared here
  (\<open>inv_system\<close>) are interpreted by the components that have a step relation.
\<close>

section \<open>Failures\<close>

text \<open>
  A C++ operation of the program ends normally, throws one of the standard exceptions the sources
  can raise, leaves the process through \<open>exit\<close>, or has undefined behaviour. The last is a value of
  the model too, so that a theorem that an operation returns normally is a proof that it is free
  of the undefined behaviour named here.
\<close>

datatype ub =
    Vector_index      \<comment> \<open>\<open>operator[]\<close> of a vector outside its range\<close>
  | Bad_iterator      \<comment> \<open>an iterator moved before \<open>begin()\<close> or past \<open>end()\<close>\<close>
  | Empty_container   \<comment> \<open>\<open>front()\<close> or \<open>pop()\<close> of an empty queue\<close>
  | Null_pointer      \<comment> \<open>a null pointer dereferenced\<close>
  | Dangling_pointer  \<comment> \<open>an object used after it was deleted\<close>
  | Signed_overflow   \<comment> \<open>an \<open>int\<close> result outside its 32 bits\<close>
  | Buffer_overflow   \<comment> \<open>\<open>sprintf\<close>, \<open>strncpy\<close> or \<open>memcpy\<close> past the end of a buffer\<close>
  | Division_by_zero
  | Uninitialized     \<comment> \<open>a variable or member read before it was assigned\<close>
  | Bad_conversion    \<comment> \<open>a \<open>double\<close> converted to an \<open>int\<close> that cannot hold it\<close>

datatype cpp_error =
    Invalid_argument      \<comment> \<open>\<open>std::invalid_argument\<close>, from \<open>stoi\<close>\<close>
  | Out_of_range          \<comment> \<open>\<open>std::out_of_range\<close>, from \<open>stoi\<close>, \<open>substr\<close>, \<open>erase\<close>\<close>
  | Runtime_error string  \<comment> \<open>\<open>std::runtime_error\<close>\<close>
  | Process_exit int      \<comment> \<open>\<open>exit(code)\<close>\<close>
  | Assertion_failed      \<comment> \<open>a failed \<open>RAPIDJSON_ASSERT\<close>, which aborts the process\<close>
  | Undefined ub

type_synonym 'a res = "cpp_error + 'a"

definition INT_MAX :: int where "INT_MAX = 2147483647"
definition INT_MIN :: int where "INT_MIN = - 2147483648"

text \<open>An \<open>int\<close> of the program: 32 bits, two's complement.\<close>

definition is_int32 :: "int \<Rightarrow> bool" where
  "is_int32 n \<longleftrightarrow> INT_MIN \<le> n \<and> n \<le> INT_MAX"

text \<open>A value of a wider integer type assigned to an \<open>int\<close>: the value modulo \<open>2 ^ 32\<close>.\<close>

definition narrow_int :: "int \<Rightarrow> int" where
  "narrow_int n = (n + 2147483648) mod 4294967296 - 2147483648"

text \<open>Signed arithmetic whose mathematical result does not fit is undefined.\<close>

definition chk_int :: "int \<Rightarrow> int res" where
  "chk_int n = (if is_int32 n then Inr n else Inl (Undefined Signed_overflow))"

text \<open>The remainder \<open>a % b\<close>, with the sign of the dividend.\<close>

definition c_rem :: "int \<Rightarrow> int \<Rightarrow> int res" where
  "c_rem a b =
     (if b = 0 then Inl (Undefined Division_by_zero)
      else if a = INT_MIN \<and> b = - 1 then Inl (Undefined Signed_overflow)
      else Inr (sgn a * (\<bar>a\<bar> mod \<bar>b\<bar>)))"

text \<open>Reading a vector with \<open>operator[]\<close>.\<close>

definition vec_at :: "'a list \<Rightarrow> nat \<Rightarrow> 'a res" where
  "vec_at xs i = (if i < length xs then Inr (xs ! i) else Inl (Undefined Vector_index))"

section \<open>Sequencing\<close>

named_theorems res_simps \<open>evaluation of results\<close>

definition bindR :: "'a res \<Rightarrow> ('a \<Rightarrow> 'b res) \<Rightarrow> 'b res" where
  "bindR m f = (case m of Inl e \<Rightarrow> Inl e | Inr x \<Rightarrow> f x)"

text \<open>A loop over a vector whose body may fail: the first failure ends the loop.\<close>

fun foldR :: "('a \<Rightarrow> 's \<Rightarrow> 's res) \<Rightarrow> 'a list \<Rightarrow> 's \<Rightarrow> 's res" where
  "foldR f [] s = Inr s"
| "foldR f (x # xs) s = bindR (f x s) (foldR f xs)"

text \<open>A loop whose body may fail or not return.\<close>

fun foldRO :: "('a \<Rightarrow> 's \<Rightarrow> 's res option) \<Rightarrow> 'a list \<Rightarrow> 's \<Rightarrow> 's res option" where
  "foldRO f [] s = Some (Inr s)"
| "foldRO f (x # xs) s =
     Option.bind (f x s) (\<lambda>r. case r of Inl e \<Rightarrow> Some (Inl e) | Inr t \<Rightarrow> foldRO f xs t)"

definition returns :: "'a res \<Rightarrow> bool" where
  "returns m \<longleftrightarrow> (case m of Inl _ \<Rightarrow> False | Inr _ \<Rightarrow> True)"

section \<open>Reachable states\<close>

inductive reach :: "('s \<Rightarrow> bool) \<Rightarrow> ('s \<Rightarrow> 's \<Rightarrow> bool) \<Rightarrow> 's \<Rightarrow> bool" for ini step where
  reach_ini: "ini s \<Longrightarrow> reach ini step s"
| reach_step: "reach ini step s \<Longrightarrow> step s t \<Longrightarrow> reach ini step t"

inductive steps :: "('s \<Rightarrow> 's \<Rightarrow> bool) \<Rightarrow> nat \<Rightarrow> 's \<Rightarrow> 's \<Rightarrow> bool" for step where
  steps_refl: "steps step 0 s s"
| steps_next: "steps step n s t \<Longrightarrow> step t u \<Longrightarrow> steps step (Suc n) s u"

text \<open>
  The contract between a step relation and an inductive invariant, and what follows from it once:
  the invariant holds in every reachable state.
\<close>

locale inv_system =
  fixes ini :: "'s \<Rightarrow> bool"
    and step :: "'s \<Rightarrow> 's \<Rightarrow> bool"
    and inv :: "'s \<Rightarrow> bool"
  assumes inv_ini: "ini s \<Longrightarrow> inv s"
    and inv_step: "inv s \<Longrightarrow> step s t \<Longrightarrow> inv t"
begin

lemma inv_reach: "reach ini step s \<Longrightarrow> inv s"
  by (induction rule: reach.induct) (auto intro: inv_ini inv_step)

lemma inv_steps: "steps step n s t \<Longrightarrow> inv s \<Longrightarrow> inv t"
  by (induction rule: steps.induct) (auto intro: inv_step)

end

text \<open>
  A step relation that decreases a measure: every run is at most as long as the measure of its
  first state. The broadcast of a published event is one.
\<close>

locale bounded_system =
  fixes step :: "'s \<Rightarrow> 's \<Rightarrow> bool"
    and size_of :: "'s \<Rightarrow> nat"
  assumes step_decreases: "step s t \<Longrightarrow> size_of t < size_of s"
begin

lemma run_bounded: "steps step n s t \<Longrightarrow> n + size_of t \<le> size_of s"
  by (induction rule: steps.induct) (auto dest: step_decreases)

lemma run_length: "steps step n s t \<Longrightarrow> n \<le> size_of s"
  using run_bounded by fastforce

end

section \<open>Lemmas\<close>

lemma bindR_Inl [simp, res_simps]: "bindR (Inl e) f = Inl e"
  by (simp add: bindR_def)

lemma bindR_Inr [simp, res_simps]: "bindR (Inr x) f = f x"
  by (simp add: bindR_def)

lemma bindR_eq_Inr: "bindR m f = Inr y \<longleftrightarrow> (\<exists>x. m = Inr x \<and> f x = Inr y)"
  by (cases m) auto

lemma bindR_eq_Inl: "bindR m f = Inl e \<longleftrightarrow> m = Inl e \<or> (\<exists>x. m = Inr x \<and> f x = Inl e)"
  by (cases m) auto

lemma bindR_assoc: "bindR (bindR m f) g = bindR m (\<lambda>x. bindR (f x) g)"
  by (cases m) auto

lemma bindR_cong [fundef_cong]:
  "m = m' \<Longrightarrow> (\<And>x. m' = Inr x \<Longrightarrow> f x = g x) \<Longrightarrow> bindR m f = bindR m' g"
  by (cases m') auto

lemma bindR_return [simp]: "bindR m Inr = m"
  by (cases m) auto

lemma returns_Inr [simp]: "returns (Inr x)"
  by (simp add: returns_def)

lemma returns_Inl [simp]: "\<not> returns (Inl e)"
  by (simp add: returns_def)

lemma returns_iff: "returns m \<longleftrightarrow> (\<exists>x. m = Inr x)"
  by (cases m) auto

lemma returns_bindR: "returns (bindR m f) \<longleftrightarrow> (\<exists>x. m = Inr x \<and> returns (f x))"
  by (cases m) auto

lemma vec_at_nth [simp]: "i < length xs \<Longrightarrow> vec_at xs i = Inr (xs ! i)"
  by (simp add: vec_at_def)

lemma vec_at_beyond [simp]: "length xs \<le> i \<Longrightarrow> vec_at xs i = Inl (Undefined Vector_index)"
  by (simp add: vec_at_def)

lemma chk_int_ok [simp]: "is_int32 n \<Longrightarrow> chk_int n = Inr n"
  by (simp add: chk_int_def)

lemma c_rem_nonneg: "0 \<le> a \<Longrightarrow> 0 < b \<Longrightarrow> c_rem a b = Inr (a mod b)"
  by (cases "a = 0") (auto simp: c_rem_def)

lemma foldR_append: "foldR f (xs @ ys) s = bindR (foldR f xs s) (foldR f ys)"
proof (induction xs arbitrary: s)
  case (Cons x xs)
  then show ?case by (cases "f x s") auto
qed simp

text \<open>The two rules every loop of the model is proved with: a property the body keeps holds at
  the end, and a loop whose body returns under a property it keeps returns.\<close>

lemma foldR_inv:
  assumes "foldR f xs s = Inr s'" and "P s"
    and "\<And>x s s'. x \<in> set xs \<Longrightarrow> P s \<Longrightarrow> f x s = Inr s' \<Longrightarrow> P s'"
  shows "P s'"
  using assms
proof (induction xs arbitrary: s)
  case Nil
  then show ?case by simp
next
  case (Cons x xs)
  from Cons.prems(1) obtain t where "f x s = Inr t" and t: "foldR f xs t = Inr s'"
    by (auto simp: bindR_eq_Inr)
  with Cons.prems have "P t" by (meson list.set_intros(1))
  with t Cons.prems(3) show ?case by (intro Cons.IH) auto
qed

lemma foldR_total:
  assumes "P s"
    and "\<And>x s. x \<in> set xs \<Longrightarrow> P s \<Longrightarrow> \<exists>s'. f x s = Inr s' \<and> P s'"
  shows "\<exists>s'. foldR f xs s = Inr s' \<and> P s'"
  using assms
proof (induction xs arbitrary: s)
  case Nil
  then show ?case by simp
next
  case (Cons x xs)
  then obtain t where "f x s = Inr t" and "P t" by (meson list.set_intros(1))
  moreover from Cons.prems(2) have "\<exists>s'. foldR f xs t = Inr s' \<and> P s'"
    by (intro Cons.IH[OF \<open>P t\<close>]) auto
  ultimately show ?case by auto
qed

text \<open>The same for a counting loop, with a property that depends on the counter.\<close>

lemma foldR_upt:
  assumes "P 0 s" and "\<And>i s. i < n \<Longrightarrow> P i s \<Longrightarrow> \<exists>s'. f i s = Inr s' \<and> P (Suc i) s'"
  shows "\<exists>s'. foldR f [0..<n] s = Inr s' \<and> P n s'"
  using assms(2)
proof (induction n)
  case 0
  then show ?case using assms(1) by simp
next
  case (Suc n)
  then obtain t where t: "foldR f [0..<n] s = Inr t" "P n t" by (meson less_Suc_eq)
  moreover obtain u where "f n t = Inr u" "P (Suc n) u" using Suc.prems[of n] t(2) by auto
  ultimately show ?case by (simp add: foldR_append)
qed

lemma foldRO_append:
  "foldRO f (xs @ ys) s = Option.bind (foldRO f xs s) (\<lambda>r. case r of Inl e \<Rightarrow> Some (Inl e) | Inr t \<Rightarrow> foldRO f ys t)"
proof (induction xs arbitrary: s)
  case (Cons x xs)
  then show ?case by (cases "f x s") (auto split: sum.split)
qed simp

lemma foldRO_upt:
  assumes "P 0 s" and "\<And>i s. i < n \<Longrightarrow> P i s \<Longrightarrow> \<exists>s'. f i s = Some (Inr s') \<and> P (Suc i) s'"
  shows "\<exists>s'. foldRO f [0..<n] s = Some (Inr s') \<and> P n s'"
  using assms(2)
proof (induction n)
  case 0
  then show ?case using assms(1) by simp
next
  case (Suc n)
  then obtain t where t: "foldRO f [0..<n] s = Some (Inr t)" "P n t" by (meson less_Suc_eq)
  moreover obtain u where "f n t = Some (Inr u)" "P (Suc n) u" using Suc.prems[of n] t(2) by auto
  ultimately show ?case by (simp add: foldRO_append)
qed

text \<open>A loop whose body never fails is a plain fold.\<close>

lemma foldR_pure: "foldR (\<lambda>x s. Inr (g x s)) xs s = Inr (fold g xs s)"
  by (induction xs arbitrary: s) auto

lemma steps_first: "step s t \<Longrightarrow> steps step n t u \<Longrightarrow> steps step (Suc n) s u"
  by (rotate_tac, induction rule: steps.induct) (auto intro: steps_next steps_refl)

lemma steps_reach: "steps step n s t \<Longrightarrow> reach ini step s \<Longrightarrow> reach ini step t"
  by (induction rule: steps.induct) (auto intro: reach_step)

end
