(* ===== verification/StdContainers.thy ===== *)
theory StdContainers
  imports Prelude "HOL-Library.Char_ord" "HOL-Library.List_Lexorder"
begin

text \<open>
  The standard containers as the program uses them. A \<open>std::map\<close> or \<open>std::set\<close> is iterated in key
  order and the sources depend on that order (the subscribers of an event are visited, notified
  and moved in it), so a map is an association list with strictly increasing keys and a set a
  strictly increasing list; keys of type \<open>string\<close> are compared lexicographically by byte, as
  \<open>std::less<std::string>\<close> does. A \<open>std::queue\<close> or \<open>std::deque\<close> is the list of its elements from
  the front.
\<close>

section \<open>Ordered maps and sets\<close>

type_synonym ('k, 'v) std_map = "('k \<times> 'v) list"
type_synonym 'a std_set = "'a list"

definition wf_map :: "('k::linorder, 'v) std_map \<Rightarrow> bool" where
  "wf_map m \<longleftrightarrow> sorted_wrt (<) (map fst m)"

definition keys :: "('k, 'v) std_map \<Rightarrow> 'k list" where
  "keys m = map fst m"

text \<open>\<open>m[k] = v\<close>: overwrite the value of an existing key, else insert at the key's place.\<close>

fun map_put :: "'k::linorder \<Rightarrow> 'v \<Rightarrow> ('k, 'v) std_map \<Rightarrow> ('k, 'v) std_map" where
  "map_put k v [] = [(k, v)]"
| "map_put k v (p # m) =
     (if k = fst p then (k, v) # m
      else if k < fst p then (k, v) # p # m
      else p # map_put k v m)"

text \<open>\<open>m.erase(k)\<close>.\<close>

definition map_erase :: "'k \<Rightarrow> ('k, 'v) std_map \<Rightarrow> ('k, 'v) std_map" where
  "map_erase k m = filter (\<lambda>p. fst p \<noteq> k) m"

text \<open>The value read by \<open>m[k]\<close>, with \<open>d\<close> the value-initialised default.\<close>

definition map_at :: "'v \<Rightarrow> 'k \<Rightarrow> ('k, 'v) std_map \<Rightarrow> 'v" where
  "map_at d k m = (case map_of m k of None \<Rightarrow> d | Some v \<Rightarrow> v)"

text \<open>\<open>m[k]\<close> as an expression also creates the missing entry.\<close>

definition map_touch :: "'v \<Rightarrow> 'k::linorder \<Rightarrow> ('k, 'v) std_map \<Rightarrow> ('k, 'v) std_map" where
  "map_touch d k m = (case map_of m k of None \<Rightarrow> map_put k d m | Some _ \<Rightarrow> m)"

definition wf_set :: "'a::linorder std_set \<Rightarrow> bool" where
  "wf_set s \<longleftrightarrow> sorted_wrt (<) s"

fun set_put :: "'a::linorder \<Rightarrow> 'a std_set \<Rightarrow> 'a std_set" where
  "set_put x [] = [x]"
| "set_put x (y # s) = (if x = y then y # s else if x < y then x # y # s else y # set_put x s)"

section \<open>The contract of a keyed store\<close>

text \<open>
  What the components rely on when they keep data under a key: the laws of lookup after a write
  and after a removal. The lemmas are proved once for any such store.
\<close>

locale key_store =
  fixes look :: "'m \<Rightarrow> 'k \<Rightarrow> 'v option"
    and put :: "'k \<Rightarrow> 'v \<Rightarrow> 'm \<Rightarrow> 'm"
    and del :: "'k \<Rightarrow> 'm \<Rightarrow> 'm"
    and ok :: "'m \<Rightarrow> bool"
  assumes look_put: "look (put k v m) = (look m)(k \<mapsto> v)"
    and look_del: "look (del k m) = (look m)(k := None)"
    and ok_put: "ok m \<Longrightarrow> ok (put k v m)"
    and ok_del: "ok m \<Longrightarrow> ok (del k m)"
begin

lemma look_put_same [simp]: "look (put k v m) k = Some v"
  by (simp add: look_put)

lemma look_put_other [simp]: "k \<noteq> k' \<Longrightarrow> look (put k v m) k' = look m k'"
  by (simp add: look_put)

lemma look_del_same [simp]: "look (del k m) k = None"
  by (simp add: look_del)

text \<open>The last write of a run of writes wins; keys outside the run keep their value.\<close>

lemma look_fold_put:
  "look (fold (\<lambda>(k, v). put k v) ws m) k =
     (case map_of (rev ws) k of None \<Rightarrow> look m k | Some v \<Rightarrow> Some v)"
  by (induction ws arbitrary: m)
     (auto simp: look_put map_add_def split: option.splits)

lemma ok_fold_put: "ok m \<Longrightarrow> ok (fold (\<lambda>(k, v). put k v) ws m)"
  by (induction ws arbitrary: m) (auto intro: ok_put)

end

section \<open>The contract of a first-in first-out queue\<close>

text \<open>
  A queue seen through the list of its elements, front first. The lemmas say that what goes in
  comes out in order, however insertions and removals interleave.
\<close>

locale fifo =
  fixes elems :: "'q \<Rightarrow> 'a list"
    and push :: "'a \<Rightarrow> 'q \<Rightarrow> 'q"
    and pop :: "'q \<Rightarrow> ('a \<times> 'q) option"
  assumes elems_push: "elems (push x q) = elems q @ [x]"
    and pop_empty: "elems q = [] \<Longrightarrow> pop q = None"
    and pop_front: "elems q = x # xs \<Longrightarrow> \<exists>q'. pop q = Some (x, q') \<and> elems q' = xs"
begin

lemma elems_pushes: "elems (fold push xs q) = elems q @ xs"
  by (induction xs arbitrary: q) (auto simp: elems_push)

lemma pop_SomeD: "pop q = Some (x, q') \<Longrightarrow> elems q = x # elems q'"
  by (cases "elems q") (auto dest: pop_empty pop_front)

lemma pop_None_iff: "pop q = None \<longleftrightarrow> elems q = []"
  by (cases "elems q") (auto dest: pop_empty pop_front)

text \<open>What was pushed onto a queue is popped after everything that was there before.\<close>

lemma pop_pushes:
  "elems q = [] \<Longrightarrow> \<exists>q'. pop (fold push (x # xs) q) = Some (x, q') \<and> elems q' = xs"
  using pop_front[of "fold push (x # xs) q" x xs] elems_pushes[of "x # xs" q] by simp

end

section \<open>Lemmas\<close>

named_theorems container_simps \<open>lookup after the container operations\<close>

lemma map_of_map_put [simp, container_simps]: "map_of (map_put k v m) = (map_of m)(k \<mapsto> v)"
  by (induction m) (auto simp: fun_eq_iff)

lemma map_of_map_erase [simp, container_simps]: "map_of (map_erase k m) = (map_of m)(k := None)"
  by (induction m) (auto simp: map_erase_def fun_eq_iff)

lemma set_keys: "set (keys m) = dom (map_of m)"
  by (simp add: keys_def dom_map_of_conv_image_fst)

lemma keys_Nil [simp]: "keys [] = []"
  by (simp add: keys_def)

lemma keys_Cons [simp]: "keys (p # m) = fst p # keys m"
  by (simp add: keys_def)

lemma map_of_None_keys: "map_of m k = None \<longleftrightarrow> k \<notin> set (keys m)"
  by (simp add: set_keys domIff)

lemma map_put_not_Nil [simp]: "map_put k v m \<noteq> []"
  by (cases m) auto

lemma wf_map_Nil [simp]: "wf_map []"
  by (simp add: wf_map_def)

lemma wf_map_Cons: "wf_map (p # m) \<longleftrightarrow> (\<forall>k \<in> set (keys m). fst p < k) \<and> wf_map m"
  by (auto simp: wf_map_def keys_def)

lemma set_keys_map_put [simp]: "set (keys (map_put k v m)) = insert k (set (keys m))"
  by (auto simp: set_keys)

lemma wf_map_put [simp, intro]: "wf_map m \<Longrightarrow> wf_map (map_put k v m)"
  by (induction m) (auto simp: wf_map_Cons)

lemma wf_map_erase [simp, intro]: "wf_map m \<Longrightarrow> wf_map (map_erase k m)"
  by (induction m) (auto simp: map_erase_def wf_map_Cons keys_def)

lemma wf_map_distinct: "wf_map m \<Longrightarrow> distinct (keys m)"
  by (induction m) (auto simp: wf_map_Cons)

lemma wf_map_entry: "wf_map m \<Longrightarrow> (k, v) \<in> set m \<longleftrightarrow> map_of m k = Some v"
  using wf_map_distinct[of m] by (simp add: keys_def map_of_eq_Some_iff)

lemma length_map_put:
  "length (map_put k v m) = (if k \<in> set (keys m) then length m else Suc (length m))"
  if "wf_map m"
  using that by (induction m) (auto simp: wf_map_Cons)

lemma length_map_erase: "wf_map m \<Longrightarrow> k \<in> set (keys m) \<Longrightarrow> Suc (length (map_erase k m)) = length m"
proof (induction m)
  case Nil
  then show ?case by simp
next
  case (Cons p m)
  show ?case
  proof (cases "fst p = k")
    case True
    with Cons.prems(1) have "map_erase k m = m"
      by (auto simp: map_erase_def wf_map_Cons keys_def intro!: filter_True)
    with True show ?thesis by (simp add: map_erase_def)
  next
    case False
    with Cons show ?thesis by (auto simp: map_erase_def wf_map_Cons)
  qed
qed

lemma map_put_same_length: "map_of m k = Some w \<Longrightarrow> wf_map m \<Longrightarrow> length (map_put k v m) = length m"
  by (simp add: length_map_put set_keys domIff)

lemma map_at_put_same [simp, container_simps]: "map_at d k (map_put k v m) = v"
  by (simp add: map_at_def)

lemma map_at_put_other [simp, container_simps]: "k' \<noteq> k \<Longrightarrow> map_at d k' (map_put k v m) = map_at d k' m"
  by (simp add: map_at_def)

lemma map_at_Some: "map_of m k = Some v \<Longrightarrow> map_at d k m = v"
  by (simp add: map_at_def)

lemma map_at_None: "map_of m k = None \<Longrightarrow> map_at d k m = d"
  by (simp add: map_at_def)

lemma map_of_map_touch [container_simps]:
  "map_of (map_touch d k m) = (map_of m)(k \<mapsto> map_at d k m)"
  by (auto simp: map_touch_def map_at_def fun_eq_iff split: option.splits)

lemma wf_map_touch [simp, intro]: "wf_map m \<Longrightarrow> wf_map (map_touch d k m)"
  by (auto simp: map_touch_def split: option.splits)

lemma map_touch_present [simp]: "map_of m k = Some v \<Longrightarrow> map_touch d k m = m"
  by (simp add: map_touch_def)

text \<open>Two well-formed maps with the same lookups are the same map.\<close>

lemma wf_map_rebuild: "wf_map m \<Longrightarrow> map (\<lambda>k. (k, the (map_of m k))) (keys m) = m"
proof (induction m)
  case (Cons p m)
  then have "map (\<lambda>k. (k, the (map_of (p # m) k))) (keys m) = map (\<lambda>k. (k, the (map_of m k))) (keys m)"
    by (intro map_cong) (auto simp: wf_map_Cons)
  with Cons show ?case by (simp add: wf_map_Cons)
qed simp

lemma wf_map_ext:
  assumes "wf_map m" and "wf_map n" and "map_of m = map_of n"
  shows "m = n"
proof -
  have "sorted (keys m)" and "sorted (keys n)"
    using assms(1,2) by (simp_all add: wf_map_def keys_def strict_sorted_iff)
  moreover have "set (keys m) = set (keys n)" by (simp add: set_keys assms(3))
  ultimately have "keys m = keys n"
    using wf_map_distinct[OF assms(1)] wf_map_distinct[OF assms(2)]
    by (simp add: sorted_distinct_set_unique)
  then show ?thesis by (metis wf_map_rebuild assms)
qed

lemma set_set_put [simp, container_simps]: "set (set_put x s) = insert x (set s)"
  by (induction s) auto

lemma wf_set_Nil [simp]: "wf_set []"
  by (simp add: wf_set_def)

lemma wf_set_single [simp]: "wf_set [x]"
  by (simp add: wf_set_def)

lemma wf_set_put [simp, intro]: "wf_set s \<Longrightarrow> wf_set (set_put x s)"
  by (induction s) (auto simp: wf_set_def)

lemma wf_set_distinct: "wf_set s \<Longrightarrow> distinct s"
  by (simp add: wf_set_def strict_sorted_iff)

lemma wf_map_keys_set: "wf_map m \<Longrightarrow> wf_set (keys m)"
  by (simp add: wf_map_def wf_set_def keys_def)

text \<open>The standard map fulfils the contract of a keyed store.\<close>

interpretation smap: key_store map_of map_put map_erase wf_map
  by unfold_locales auto

text \<open>A list with insertion at the back and removal at the front is a queue.\<close>

definition list_push :: "'a \<Rightarrow> 'a list \<Rightarrow> 'a list" where
  "list_push x q = q @ [x]"

definition list_pop :: "'a list \<Rightarrow> ('a \<times> 'a list) option" where
  "list_pop q = (case q of [] \<Rightarrow> None | x # xs \<Rightarrow> Some (x, xs))"

interpretation deque: fifo id list_push list_pop
  by unfold_locales (auto simp: list_push_def list_pop_def)

end
