(* ===== verification/StdString.thy ===== *)
theory StdString
  imports StdContainers "HOL-Library.Sublist"
begin

text \<open>
  The operations of \<open>std::string\<close> the sources use, with their failure cases: searching, cutting and
  erasing by position, and the conversions \<open>std::stoi\<close> and \<open>std::to_string\<close>. Positions of type
  \<open>size_t\<close> are 64 bits wide and wrap, which the sources rely on (\<open>s.length() - 6\<close> of a short string
  is a huge count, and a count is clipped to the string).
\<close>

section \<open>Positions and searching\<close>

definition size_sub :: "nat \<Rightarrow> nat \<Rightarrow> nat" where
  "size_sub a b = (if b \<le> a then a - b else 2 ^ 64 + a - b)"

fun str_find :: "string \<Rightarrow> string \<Rightarrow> nat option" where
  "str_find pat s =
     (if prefix pat s then Some 0
      else case s of [] \<Rightarrow> None | _ # t \<Rightarrow> map_option Suc (str_find pat t))"

declare str_find.simps [simp del]

text \<open>\<open>int p = s.find(pat)\<close>: \<open>npos\<close> narrowed to \<open>int\<close> is \<open>-1\<close>.\<close>

definition find_int :: "string \<Rightarrow> string \<Rightarrow> int" where
  "find_int s pat = (case str_find pat s of None \<Rightarrow> - 1 | Some i \<Rightarrow> int i)"

definition str_substr :: "string \<Rightarrow> nat \<Rightarrow> nat \<Rightarrow> string res" where
  "str_substr s pos n =
     (if length s < pos then Inl Out_of_range else Inr (take n (drop pos s)))"

text \<open>\<open>s.erase(pos, n)\<close> with \<open>pos\<close> an \<open>int\<close>: a negative one becomes a huge \<open>size_t\<close>.\<close>

definition str_erase :: "string \<Rightarrow> int \<Rightarrow> nat \<Rightarrow> string res" where
  "str_erase s pos n =
     (if pos < 0 \<or> int (length s) < pos then Inl Out_of_range
      else Inr (take (nat pos) s @ drop (nat pos + n) s))"

text \<open>\<open>s.erase(s.begin() + pos, s.end())\<close>: an iterator before \<open>begin()\<close> is undefined.\<close>

definition str_erase_from :: "string \<Rightarrow> int \<Rightarrow> string res" where
  "str_erase_from s pos =
     (if pos < 0 \<or> int (length s) < pos then Inl (Undefined Bad_iterator)
      else Inr (take (nat pos) s))"

text \<open>\<open>s.erase(s.begin(), s.begin() + n)\<close>.\<close>

definition str_erase_to :: "string \<Rightarrow> int \<Rightarrow> string res" where
  "str_erase_to s n =
     (if n < 0 \<or> int (length s) < n then Inl (Undefined Bad_iterator)
      else Inr (drop (nat n) s))"

section \<open>Numbers\<close>

definition is_digit :: "char \<Rightarrow> bool" where
  "is_digit c \<longleftrightarrow> 48 \<le> (of_char c :: nat) \<and> (of_char c :: nat) \<le> 57"

definition is_space :: "char \<Rightarrow> bool" where
  "is_space c \<longleftrightarrow> of_char c = (32::nat) \<or> 9 \<le> (of_char c :: nat) \<and> (of_char c :: nat) \<le> 13"

definition digit_char :: "nat \<Rightarrow> char" where
  "digit_char d = char_of (48 + d)"

definition digits_val :: "string \<Rightarrow> nat" where
  "digits_val ds = foldl (\<lambda>a c. 10 * a + (of_char c - 48)) 0 ds"

definition stoi :: "string \<Rightarrow> int res" where
  "stoi s =
     (let t = dropWhile is_space s;
          neg = (t \<noteq> [] \<and> hd t = CHR ''-'');
          u = (if t \<noteq> [] \<and> (hd t = CHR ''-'' \<or> hd t = CHR ''+'') then tl t else t);
          ds = takeWhile is_digit u;
          v = (if neg then - int (digits_val ds) else int (digits_val ds))
      in if ds = [] then Inl Invalid_argument
         else if is_int32 v then Inr v else Inl Out_of_range)"

fun nat_str :: "nat \<Rightarrow> string" where
  "nat_str n = (if n < 10 then [digit_char n] else nat_str (n div 10) @ [digit_char (n mod 10)])"

declare nat_str.simps [simp del]

definition to_string :: "int \<Rightarrow> string" where
  "to_string n = (if n < 0 then CHR ''-'' # nat_str (nat (- n)) else nat_str (nat n))"

section \<open>Lemmas\<close>

lemma str_find_Nil [simp]: "str_find (c # cs) [] = None"
  by (subst str_find.simps) simp

lemma str_find_char_Cons:
  "str_find [c] (x # s) = (if x = c then Some 0 else map_option Suc (str_find [c] s))"
  by (subst str_find.simps) auto

lemma str_find_char: "str_find [c] (s @ c # t) = Some (length s)" if "c \<notin> set s"
  using that by (induction s) (auto simp: str_find_char_Cons)

lemma str_find_char_None: "str_find [c] s = None \<longleftrightarrow> c \<notin> set s"
  by (induction s) (auto simp: str_find_char_Cons)

lemma str_find_prefix: "str_find p (p @ s) = Some 0"
  by (subst str_find.simps) simp

lemma find_int_char: "c \<notin> set s \<Longrightarrow> find_int (s @ c # t) [c] = int (length s)"
  by (simp add: find_int_def str_find_char)

lemma find_int_char_None: "c \<notin> set s \<Longrightarrow> find_int s [c] = - 1"
  by (simp add: find_int_def str_find_char_None[THEN iffD2])

lemma find_int_ge: "- 1 \<le> find_int s pat"
  by (simp add: find_int_def split: option.splits)

lemma digit_char_code: "d < 10 \<Longrightarrow> of_char (digit_char d) = 48 + d"
  by (simp add: digit_char_def)

lemma is_digit_digit_char: "d < 10 \<Longrightarrow> is_digit (digit_char d)"
  by (simp add: is_digit_def digit_char_code)

lemma nat_str_nonempty: "nat_str n \<noteq> []"
  by (subst nat_str.simps) simp

lemma nat_str_digits: "\<forall>c \<in> set (nat_str n). is_digit c"
proof (induction n rule: nat_str.induct)
  case (1 n)
  then show ?case
    by (subst nat_str.simps) (auto simp: is_digit_digit_char)
qed

lemma digits_val_snoc: "digits_val (ds @ [c]) = 10 * digits_val ds + (of_char c - 48)"
  by (simp add: digits_val_def)

lemma digits_val_nat_str: "digits_val (nat_str n) = n"
proof (induction n rule: nat_str.induct)
  case (1 n)
  show ?case
  proof (cases "n < 10")
    case True
    then show ?thesis
      by (subst nat_str.simps) (simp add: digits_val_def digit_char_code)
  next
    case False
    with 1 show ?thesis
      by (subst nat_str.simps) (simp add: digits_val_snoc digit_char_code)
  qed
qed

lemma is_digit_not_space: "is_digit c \<Longrightarrow> \<not> is_space c"
  by (auto simp: is_digit_def is_space_def)

lemma is_digit_not_sign: "is_digit c \<Longrightarrow> c \<noteq> CHR ''-'' \<and> c \<noteq> CHR ''+''"
  by (auto simp: is_digit_def)

lemma takeWhile_digits:
  assumes "\<forall>c \<in> set ds. is_digit c" and "rest = [] \<or> \<not> is_digit (hd rest)"
  shows "takeWhile is_digit (ds @ rest) = ds"
  using assms by (cases rest) (auto simp: takeWhile_tail)

text \<open>\<open>stoi\<close> reads back what \<open>to_string\<close> wrote, whatever non-digit follows it.\<close>

lemma stoi_to_string_rest:
  assumes "is_int32 n" and rest: "rest = [] \<or> \<not> is_digit (hd rest)"
  shows "stoi (to_string n @ rest) = Inr n"
proof -
  have *: "takeWhile is_digit (nat_str m @ rest) = nat_str m" for m
    using nat_str_digits rest by (rule takeWhile_digits)
  obtain c cs where c: "nat_str (nat n) = c # cs" and d: "is_digit c"
    using nat_str_nonempty nat_str_digits by (metis list.exhaust list.set_intros(1))
  show ?thesis
  proof (cases "n < 0")
    case True
    have "\<not> is_space (CHR ''-'')" by (simp add: is_space_def)
    with True assms(1) show ?thesis
      by (simp add: stoi_def to_string_def Let_def * digits_val_nat_str nat_str_nonempty)
  next
    case False
    have "dropWhile is_space (nat_str (nat n) @ rest) = nat_str (nat n) @ rest"
      using c is_digit_not_space[OF d] by simp
    moreover have "hd (nat_str (nat n) @ rest) = c" using c by simp
    ultimately show ?thesis
      using False assms(1) is_digit_not_sign[OF d]
      by (simp add: stoi_def to_string_def Let_def * digits_val_nat_str nat_str_nonempty)
  qed
qed

lemma stoi_to_string: "is_int32 n \<Longrightarrow> stoi (to_string n) = Inr n"
  using stoi_to_string_rest[of n "[]"] by simp

lemma to_string_chars: "c \<in> set (to_string n) \<Longrightarrow> is_digit c \<or> c = CHR ''-''"
  using nat_str_digits by (auto simp: to_string_def split: if_splits)

lemma to_string_nonempty: "to_string n \<noteq> []"
  by (simp add: to_string_def nat_str_nonempty)

lemma stoi_is_int32: "stoi s = Inr n \<Longrightarrow> is_int32 n"
  by (auto simp: stoi_def Let_def split: if_splits)

lemma stoi_empty [simp]: "stoi [] = Inl Invalid_argument"
  by (simp add: stoi_def)

lemma not_digit_separators:
  "\<not> is_digit (CHR '','')" "\<not> is_digit (CHR '':'')" "\<not> is_digit (CHR ''%'')"
  "\<not> is_digit (CHR ''<'')" "\<not> is_digit (CHR ''>'')" "\<not> is_digit (CHR '']'')"
  "\<not> is_digit (CHR ''_'')" "\<not> is_digit (CHR ''['')" "\<not> is_digit (CHR ''/'')"
  by (simp_all add: is_digit_def)

lemma to_string_free:
  "\<not> is_digit c \<Longrightarrow> c \<noteq> CHR ''-'' \<Longrightarrow> c \<notin> set (to_string n)"
  using to_string_chars by blast

lemma to_string_inj: "is_int32 m \<Longrightarrow> is_int32 n \<Longrightarrow> to_string m = to_string n \<longleftrightarrow> m = n"
  using stoi_to_string by (metis sum.inject(2))

text \<open>\<open>atoi\<close>: no digits are the number 0, a number outside \<open>int\<close> is undefined.\<close>

definition atoi :: "string \<Rightarrow> int res" where
  "atoi s =
     (case stoi s of
        Inr n \<Rightarrow> Inr n
      | Inl Invalid_argument \<Rightarrow> Inr 0
      | Inl _ \<Rightarrow> Inl (Undefined Signed_overflow))"

lemma atoi_to_string: "is_int32 n \<Longrightarrow> atoi (to_string n) = Inr n"
  by (simp add: atoi_def stoi_to_string)

text \<open>\<open>sprintf\<close> into a buffer of 100 bytes.\<close>

definition sprintf100 :: "string \<Rightarrow> string res" where
  "sprintf100 t = (if length t < 100 then Inr t else Inl (Undefined Buffer_overflow))"

end
