(* ===== verification/StrParse.thy ===== *)
theory StrParse
  imports StdString
begin

text \<open>
  The string utilities of the program: the tokenizer \<open>split\<close> (\<open>src/src/utils/split/split.cc\<close>), with
  which event strings are cut, and the parser of the grid metadata a simulation publishes
  (\<open>src/src/utils/strparse/strparse.cpp\<close>), of the form \<open>GRID[<0,0>:<1,1>]%TS[5]\<close>.
\<close>

section \<open>split.cc\<close>

text \<open>
  The outer loop of \<open>split\<close> runs from position \<open>i\<close>; the argument is the part of the string from \<open>i\<close>
  on. It skips separators, takes characters up to the next separator and stores them when there
  are any.
\<close>

function split :: "string \<Rightarrow> string \<Rightarrow> string list" where
  "split s seperator =
     (if s = [] then []
      else let r = dropWhile (\<lambda>c. c \<in> set seperator) s;
               w = takeWhile (\<lambda>c. c \<notin> set seperator) r;
               rest = dropWhile (\<lambda>c. c \<notin> set seperator) r
           in if w \<noteq> [] then w # split rest seperator else split rest seperator)"
  by pat_completeness auto

lemma split_rest_shorter:
  fixes s :: string
  assumes "s \<noteq> []"
  shows "length (dropWhile (\<lambda>c. c \<notin> S) (dropWhile (\<lambda>c. c \<in> S) s)) < length s"
proof (cases s)
  case (Cons c t)
  have "length (dropWhile P (dropWhile Q t)) \<le> length t" for P Q :: "char \<Rightarrow> bool"
    by (meson length_dropWhile_le order_trans)
  moreover have "length (dropWhile P t) \<le> length t" for P :: "char \<Rightarrow> bool"
    by (rule length_dropWhile_le)
  ultimately show ?thesis using Cons by (auto simp: less_Suc_eq_le)
qed (use assms in simp)

termination split
  by (relation "measure (\<lambda>(s, _). length s)") (auto simp: Let_def split_rest_shorter)

declare split.simps [simp del]

section \<open>strparse.cpp\<close>

text \<open>\<open>strSplit\<close>: the integers between the commas. The argument is the part of the string from
  \<open>leftIdx\<close> on; \<open>rightIdx\<close> is where the next comma is found.\<close>

function strSplit :: "string \<Rightarrow> int list res" where
  "strSplit s =
     (if s = [] then Inr []
      else bindR (stoi (takeWhile (\<lambda>c. c \<noteq> CHR '','') s))
             (\<lambda>n. bindR (strSplit (drop 1 (dropWhile (\<lambda>c. c \<noteq> CHR '','') s)))
                (\<lambda>ns. Inr (n # ns))))"
  by pat_completeness auto

lemma after_comma_shorter: "s \<noteq> [] \<Longrightarrow> length (drop 1 (dropWhile P s)) < length s"
  using length_dropWhile_le[of P "tl s"] by (cases s) auto

termination strSplit
  by (relation "measure length") (auto simp: after_comma_shorter[simplified])

declare strSplit.simps [simp del]

definition getGridFromRawMeta :: "string \<Rightarrow> string res" where
  "getGridFromRawMeta publishedMeta =
     (let position = find_int publishedMeta ''%''
      in bindR (str_erase_from publishedMeta position)
           (\<lambda>rawGrid. str_substr rawGrid 5 (size_sub (length rawGrid) 6)))"

text \<open>\<open>begin() + position\<close> is formed before the 1 is added, so without a percent sign it lies before the string.\<close>

definition getTsFromRawMeta :: "string \<Rightarrow> int res" where
  "getTsFromRawMeta publishedMeta =
     (let position = find_int publishedMeta ''%''
      in if position < 0 then Inl (Undefined Bad_iterator)
         else bindR (str_erase_to publishedMeta (position + 1))
                (\<lambda>rawTS. bindR (str_substr rawTS 3 (size_sub (length rawTS) 4)) stoi))"

text \<open>The two \<open>substr\<close> calls that cut the brackets off a corner \<open><x,y>\<close>.\<close>

definition cut_brackets :: "string \<Rightarrow> string res" where
  "cut_brackets m =
     bindR (str_substr m 0 (size_sub (length m) 1)) (\<lambda>t. str_substr t 1 (length t))"

definition getbbxfromGridMeta :: "string \<Rightarrow> (int list \<times> int list) res" where
  "getbbxfromGridMeta gridRawMeta =
     (let startPosition = find_int gridRawMeta '':''
      in bindR (str_erase_from gridRawMeta startPosition)
           (\<lambda>lbmeta. bindR (str_erase gridRawMeta 0 (nat (startPosition + 1)))
              (\<lambda>ubmeta. bindR (cut_brackets lbmeta)
                 (\<lambda>lbmeta. bindR (cut_brackets ubmeta)
                    (\<lambda>ubmeta. bindR (strSplit lbmeta)
                       (\<lambda>lb. bindR (strSplit ubmeta) (\<lambda>ub. Inr (lb, ub))))))))"

section \<open>What the producers of these strings write\<close>

fun join :: "char \<Rightarrow> string list \<Rightarrow> string" where
  "join c [] = []"
| "join c [w] = w"
| "join c (w # v # ws) = w @ c # join c (v # ws)"

definition render_corner :: "int list \<Rightarrow> string" where
  "render_corner ns = ''<'' @ join (CHR '','') (map to_string ns) @ ''>''"

definition render_bbx :: "int list \<Rightarrow> int list \<Rightarrow> string" where
  "render_bbx lb ub = render_corner lb @ '':'' @ render_corner ub"

definition render_meta :: "string \<Rightarrow> int \<Rightarrow> string" where
  "render_meta grid ts = ''GRID['' @ grid @ '']%TS['' @ to_string ts @ '']''"

section \<open>Lemmas\<close>

lemma split_Nil [simp]: "split [] seps = []"
  by (subst split.simps) simp

text \<open>Separators in front are skipped.\<close>

lemma split_sep [simp]: "c \<in> set seps \<Longrightarrow> split (c # s) seps = split s seps"
  by (subst (1 2) split.simps) (auto simp: Let_def)

text \<open>A word followed by a separator or the end is the first word.\<close>

lemma split_word:
  assumes "w \<noteq> []" and "\<forall>c \<in> set w. c \<notin> set seps" and "s = [] \<or> hd s \<in> set seps"
  shows "split (w @ s) seps = w # split s seps"
proof -
  have "dropWhile (\<lambda>c. c \<in> set seps) (w @ s) = w @ s"
    using assms(1,2) by (cases w) auto
  moreover have "takeWhile (\<lambda>c. c \<notin> set seps) (w @ s) = w"
    using assms(2,3) by (cases s) (auto simp: takeWhile_tail)
  moreover have "dropWhile (\<lambda>c. c \<notin> set seps) (w @ s) = s"
    using assms(2,3) by (cases s) (auto simp: dropWhile_append3)
  ultimately show ?thesis
    using assms(1) by (subst split.simps) (simp add: Let_def)
qed

lemma split_join:
  assumes "\<forall>w \<in> set ws. w \<noteq> [] \<and> c \<notin> set w"
  shows "split (join c ws) [c] = ws"
  using assms
proof (induction c ws rule: join.induct)
  case (2 c w)
  then show ?case using split_word[of w "[c]" "[]"] by auto
next
  case (3 c w v ws)
  then have "split (w @ c # join c (v # ws)) [c] = w # split (c # join c (v # ws)) [c]"
    by (intro split_word) auto
  with 3 show ?case by simp
qed simp

text \<open>Every stored word is a non-empty run of characters that are no separators, and together they
  are all of those characters, in order.\<close>

lemma split_nonempty:
  fixes s seps :: string
  assumes "s \<noteq> []"
  defines "r \<equiv> dropWhile (\<lambda>c. c \<in> set seps) s"
  defines "w \<equiv> takeWhile (\<lambda>c. c \<notin> set seps) r"
  shows "split s seps = (if w = [] then [] else [w]) @ split (dropWhile (\<lambda>c. c \<notin> set seps) r) seps"
  using assms(1) by (subst split.simps) (simp add: Let_def r_def w_def)

lemma split_rest_induct [case_names Rest]:
  assumes "\<And>s. (s \<noteq> [] \<Longrightarrow> P (dropWhile (\<lambda>c. c \<notin> S) (dropWhile (\<lambda>c. c \<in> S) s))) \<Longrightarrow> P s"
  shows "P (s :: string)"
proof (induction s rule: length_induct)
  case (1 s)
  then show ?case using assms split_rest_shorter by blast
qed

lemma split_words: "w \<in> set (split s seps) \<Longrightarrow> w \<noteq> [] \<and> (\<forall>c \<in> set w. c \<notin> set seps)"
proof (induction s rule: split_rest_induct[where S = "set seps"])
  case (Rest s)
  show ?case
  proof (cases "s = []")
    case False
    let ?r = "dropWhile (\<lambda>c. c \<in> set seps) s"
    let ?w = "takeWhile (\<lambda>c. c \<notin> set seps) ?r"
    from Rest.prems consider "w = ?w" "?w \<noteq> []" | "w \<in> set (split (dropWhile (\<lambda>c. c \<notin> set seps) ?r) seps)"
      unfolding split_nonempty[OF False] by (auto split: if_splits)
    then show ?thesis
    proof cases
      case 1
      then show ?thesis by (metis set_takeWhileD)
    next
      case 2
      then show ?thesis by (rule Rest.IH[OF False])
    qed
  qed (use Rest in simp)
qed

lemma filter_dropWhile_out: "filter P (dropWhile (\<lambda>c. \<not> P c) s) = filter P s"
  by (induction s) auto

lemma filter_split_runs:
  "filter P s = takeWhile P r @ filter P (dropWhile P r)" if "r = dropWhile (\<lambda>c. \<not> P c) s"
proof -
  have "filter P s = filter P (takeWhile P r @ dropWhile P r)"
    by (simp add: that filter_dropWhile_out)
  then show ?thesis
    by (metis filter_append filter_True set_takeWhileD)
qed

lemma concat_split: "concat (split s seps) = filter (\<lambda>c. c \<notin> set seps) s"
proof (induction s rule: split_rest_induct[where S = "set seps"])
  case (Rest s)
  show ?case
  proof (cases "s = []")
    case False
    with Rest show ?thesis
      using filter_split_runs[of "dropWhile (\<lambda>c. c \<in> set seps) s" "\<lambda>c. c \<notin> set seps" s]
      by (simp add: split_nonempty[OF False])
  qed simp
qed

lemma split_empty_iff: "split s seps = [] \<longleftrightarrow> (\<forall>c \<in> set s. c \<in> set seps)"
proof
  assume "split s seps = []"
  then have "filter (\<lambda>c. c \<notin> set seps) s = []" using concat_split[of s seps] by simp
  then show "\<forall>c \<in> set s. c \<in> set seps" by (simp add: filter_empty_conv)
next
  assume "\<forall>c \<in> set s. c \<in> set seps"
  then show "split s seps = []" by (induction s) auto
qed

text \<open>The grid parser reads back what was rendered.\<close>

lemma strSplit_Nil [simp]: "strSplit [] = Inr []"
  by (subst strSplit.simps) simp

lemma strSplit_join: "\<forall>n \<in> set ns. is_int32 n \<Longrightarrow> strSplit (join (CHR '','') (map to_string ns)) = Inr ns"
proof (induction ns rule: induct_list012)
  case (2 n)
  have "CHR '','' \<notin> set (to_string n)" by (rule to_string_free) (auto simp: not_digit_separators)
  then have tw: "takeWhile (\<lambda>c. c \<noteq> CHR '','') (to_string n) = to_string n"
    and dw: "dropWhile (\<lambda>c. c \<noteq> CHR '','') (to_string n) = []"
    by auto
  from 2 show ?case
    by (subst strSplit.simps) (simp add: tw dw stoi_to_string to_string_nonempty)
next
  case (3 n m ns)
  let ?r = "join (CHR '','') (map to_string (m # ns))"
  have free: "\<forall>c \<in> set (to_string n). c \<noteq> CHR '',''"
    using to_string_free not_digit_separators by blast
  then have "takeWhile (\<lambda>c. c \<noteq> CHR '','') (to_string n @ CHR '','' # ?r) = to_string n"
    by (simp add: takeWhile_tail)
  moreover have "drop 1 (dropWhile (\<lambda>c. c \<noteq> CHR '','') (to_string n @ CHR '','' # ?r)) = ?r"
    using free by (simp add: dropWhile_append3)
  moreover have "strSplit ?r = Inr (m # ns)" using 3 by simp
  ultimately show ?case
    using 3(3) by (subst strSplit.simps) (simp add: stoi_to_string)
qed simp

lemma cut_brackets_corner: "cut_brackets (render_corner ns) = Inr (join (CHR '','') (map to_string ns))"
  by (simp add: cut_brackets_def render_corner_def str_substr_def size_sub_def)

lemma join_chars: "x \<in> set (join c ws) \<Longrightarrow> x = c \<or> (\<exists>w \<in> set ws. x \<in> set w)"
  by (induction c ws rule: join.induct) auto

lemma render_corner_free:
  assumes "\<not> is_digit c" and "c \<notin> {CHR ''-'', CHR '','', CHR ''<'', CHR ''>''}"
  shows "c \<notin> set (render_corner ns)"
  using assms join_chars[of c "CHR '',''" "map to_string ns"] to_string_free[of c]
  by (auto simp: render_corner_def)

lemma getbbx_render:
  assumes "\<forall>n \<in> set lb \<union> set ub. is_int32 n"
  shows "getbbxfromGridMeta (render_bbx lb ub) = Inr (lb, ub)"
proof -
  have "CHR '':'' \<notin> set (render_corner lb)"
    by (rule render_corner_free) (auto simp: not_digit_separators)
  then have "find_int (render_bbx lb ub) '':'' = int (length (render_corner lb))"
    by (simp add: render_bbx_def find_int_char)
  then show ?thesis
    using assms strSplit_join[of lb] strSplit_join[of ub]
    by (simp add: getbbxfromGridMeta_def render_bbx_def str_erase_from_def str_erase_def
        cut_brackets_corner nat_add_distrib)
qed

lemma render_bbx_free: "CHR ''%'' \<notin> set (render_bbx lb ub)"
  using render_corner_free[of "CHR ''%''"] by (simp add: render_bbx_def not_digit_separators)

lemma meta_position:
  "CHR ''%'' \<notin> set grid \<Longrightarrow> find_int (render_meta grid ts) ''%'' = int (length grid + 6)"
  using find_int_char[of "CHR ''%''" "''GRID['' @ grid @ '']''" "''TS['' @ to_string ts @ '']''"]
  by (simp add: render_meta_def)

lemma getGrid_render: "CHR ''%'' \<notin> set grid \<Longrightarrow> getGridFromRawMeta (render_meta grid ts) = Inr grid"
  by (simp add: getGridFromRawMeta_def meta_position)
     (simp add: render_meta_def str_erase_from_def str_substr_def size_sub_def nat_add_distrib
        numeral_eq_Suc)

lemma getTs_render:
  assumes "CHR ''%'' \<notin> set grid" and "is_int32 ts"
  shows "getTsFromRawMeta (render_meta grid ts) = Inr ts"
proof -
  have "str_erase_to (render_meta grid ts) (int (length grid + 6) + 1) = Inr (''TS['' @ to_string ts @ '']'')"
    by (simp add: str_erase_to_def render_meta_def nat_add_distrib numeral_eq_Suc)
  with assms show ?thesis
    by (simp add: getTsFromRawMeta_def meta_position str_substr_def size_sub_def stoi_to_string)
qed

text \<open>Metadata without the separator: the lookup of the grid runs an iterator before the beginning.\<close>

lemma getGrid_undefined:
  "CHR ''%'' \<notin> set m \<Longrightarrow> getGridFromRawMeta m = Inl (Undefined Bad_iterator)"
  by (simp add: getGridFromRawMeta_def find_int_char_None str_erase_from_def)

lemma getbbx_undefined:
  "CHR '':'' \<notin> set m \<Longrightarrow> getbbxfromGridMeta m = Inl (Undefined Bad_iterator)"
  by (simp add: getbbxfromGridMeta_def find_int_char_None str_erase_from_def)

section \<open>Properties\<close>

text \<open>C34: metadata written in the format \<open>GRID[<x,y>:<x,y>]%TS[n]\<close> reads back exactly: the grid part,
  the two corners of its bounding box and the time stamp.\<close>

theorem metadata_roundtrip:
  assumes "\<forall>n \<in> set lb \<union> set ub. is_int32 n" and "is_int32 ts"
  shows "bindR (getGridFromRawMeta (render_meta (render_bbx lb ub) ts)) getbbxfromGridMeta = Inr (lb, ub)
    \<and> getTsFromRawMeta (render_meta (render_bbx lb ub) ts) = Inr ts"
  using assms by (simp add: getGrid_render getTs_render render_bbx_free getbbx_render)

theorem metadata_roundtrip_witness:
  "bindR (getGridFromRawMeta (render_meta (render_bbx [0, 0] [15, - 3]) 7)) getbbxfromGridMeta = Inr ([0, 0], [15, - 3])
    \<and> getTsFromRawMeta (render_meta (render_bbx [0, 0] [15, - 3]) 7) = Inr 7
    \<and> render_meta (render_bbx [0, 0] [15, - 3]) 7 = ''GRID[<0,0>:<15,-3>]%TS[7]''"
proof -
  have "render_meta (render_bbx [0, 0] [15, - 3]) 7 = ''GRID[<0,0>:<15,-3>]%TS[7]''" by code_simp
  then show ?thesis
    using metadata_roundtrip[of "[0, 0]" "[15, - 3]" 7] by (simp add: is_int32_def INT_MIN_def INT_MAX_def)
qed

text \<open>\<open>split\<close> returns exactly the maximal separator-free words of its input in order: no word is
  empty or holds a separator, together they are the input without the separators, and splitting a
  joined list of such words gives the list back.\<close>

theorem split_correct:
  "(\<forall>w \<in> set (split s seps). w \<noteq> [] \<and> set w \<inter> set seps = {})
    \<and> concat (split s seps) = filter (\<lambda>c. c \<notin> set seps) s
    \<and> ((\<forall>w \<in> set ws. w \<noteq> [] \<and> c \<notin> set w) \<longrightarrow> split (join c ws) [c] = ws)"
proof (intro conjI impI ballI)
  fix w assume "w \<in> set (split s seps)"
  from split_words[OF this] show "w \<noteq> []" and "set w \<inter> set seps = {}" by auto
qed (simp_all add: concat_split split_join)

theorem split_correct_witness:
  "split (join (CHR ''/'') [''a'', ''bc'', ''d'']) ''/'' = [''a'', ''bc'', ''d'']
     \<and> concat (split ''//a/bc/d/'' ''/'') = filter (\<lambda>c. c \<notin> set ''/'') ''//a/bc/d/''"
proof -
  have "\<forall>w \<in> set [''a'', ''bc'', ''d'']. w \<noteq> [] \<and> CHR ''/'' \<notin> set w" by simp
  then show ?thesis
    using split_correct[of "''//a/bc/d/''" "''/''" "[''a'', ''bc'', ''d'']" "CHR ''/''"] by blast
qed

text \<open>Metadata without its separator is not rejected but undefined behaviour: \<open>find\<close> returns
  \<open>npos\<close>, which the code adds to \<open>begin()\<close> unchecked.\<close>

theorem metadata_unchecked:
  "(CHR ''%'' \<notin> set m \<longrightarrow> getGridFromRawMeta m = Inl (Undefined Bad_iterator))
   \<and> (CHR '':'' \<notin> set m \<longrightarrow> getbbxfromGridMeta m = Inl (Undefined Bad_iterator))"
  by (simp add: getGrid_undefined getbbx_undefined)

theorem metadata_unchecked_witness: "getGridFromRawMeta ''GRID[]'' = Inl (Undefined Bad_iterator)"
  using metadata_unchecked[of "''GRID[]''"] by simp

end
