(* ===== verification/PubSub.thy ===== *)
theory PubSub
  imports StrParse
begin

text \<open>
  The subscription registry of a server, \<open>src/src/server/pubsub.h\<close> and \<open>pubsub.cc\<close>. A subscription is
  an object on the heap (\<open>pubsubWrapper\<close>); \<open>subtoClient\<close> finds it by its index event (the first event
  of the subscription) and the client id, and \<open>getIndexMap\<close> finds the index events under which some
  subscriber wants a given event. The objects are shared by pointer with the notification tasks of
  the server, so the heap is explicit: a store from addresses to wrappers, in which a deleted object
  is missing.
\<close>

section \<open>State\<close>

record pubsubWrapper =
  peerURL :: string
  clientID :: string
  subMetadata :: string
  pubMetadata :: string
  matchType :: string
  iftrigure :: bool
  publishedEvent :: "(string, int) std_map"
  requiredeventMap :: "(string, int std_set) std_map"

record SimplepubsubWrapper =
  eventList :: "string list"
  sPeerURL :: string
  sClientID :: string
  sSubMetadata :: string

type_synonym addr = nat

record pubsub =
  heap :: "addr \<Rightarrow> pubsubWrapper option"
  nextAddr :: addr
  subtoClient :: "(string, (string, addr) std_map) std_map"
  getIndexMap :: "(string, string std_set) std_map"

definition pubsub_start :: pubsub where
  "pubsub_start = \<lparr>heap = (\<lambda>_. None), nextAddr = 0, subtoClient = [], getIndexMap = []\<rparr>"

definition new_wrapper :: pubsubWrapper where
  "new_wrapper = \<lparr>peerURL = [], clientID = [], subMetadata = [], pubMetadata = [], matchType = [],
     iftrigure = False, publishedEvent = [], requiredeventMap = []\<rparr>"

text \<open>Dereferencing, and writing an object back.\<close>

definition deref :: "pubsub \<Rightarrow> addr \<Rightarrow> pubsubWrapper res" where
  "deref s a = (case heap s a of None \<Rightarrow> Inl (Undefined Dangling_pointer) | Some w \<Rightarrow> Inr w)"

definition poke :: "addr \<Rightarrow> pubsubWrapper \<Rightarrow> pubsub \<Rightarrow> pubsub" where
  "poke a w s = s\<lparr>heap := (heap s)(a \<mapsto> w)\<rparr>"

definition alloc :: "pubsubWrapper \<Rightarrow> pubsub \<Rightarrow> pubsub" where
  "alloc w s = s\<lparr>heap := (heap s)(nextAddr s \<mapsto> w), nextAddr := Suc (nextAddr s)\<rparr>"

section \<open>Operations\<close>

definition getSimplepubsubWrapper :: "pubsubWrapper \<Rightarrow> SimplepubsubWrapper" where
  "getSimplepubsubWrapper psw =
     \<lparr>eventList = keys (requiredeventMap psw), sPeerURL = peerURL psw,
      sClientID = clientID psw, sSubMetadata = subMetadata psw\<rparr>"

definition eventUnSubscribe :: "string \<Rightarrow> string \<Rightarrow> pubsub \<Rightarrow> pubsub" where
  "eventUnSubscribe event clientId s =
     (case map_of (subtoClient s) event of
        None \<Rightarrow> s
      | Some m \<Rightarrow>
          (if map_of m clientId \<noteq> None
           then s\<lparr>subtoClient := map_put event (map_erase clientId m) (subtoClient s)\<rparr>
           else s))"

text \<open>The sum is taken in \<open>size_t\<close> and narrowed to \<open>int\<close> at every assignment.\<close>

fun subscribed_total :: "string list \<Rightarrow> int \<Rightarrow> pubsub \<Rightarrow> int" where
  "subscribed_total [] totalSubNum s = totalSubNum"
| "subscribed_total (subEvent # es) totalSubNum s =
     (case map_of (subtoClient s) subEvent of
        None \<Rightarrow> subscribed_total es totalSubNum s
      | Some m \<Rightarrow> subscribed_total es (narrow_int (totalSubNum + int (length m))) s)"

definition getSubscribedClientsNumber :: "string list \<Rightarrow> pubsub \<Rightarrow> int" where
  "getSubscribedClientsNumber subEventList s = subscribed_total subEventList 0 s"

text \<open>\<open>ParseEvent\<close>: the event string \<open>message:num\<close> cut at the colons, one publication when there is
  no number. The last branch also takes the empty vector.\<close>

definition ParseEvent :: "string \<Rightarrow> (string \<times> int) res" where
  "ParseEvent fullEvent =
     (let v = split fullEvent '':''
      in if length v = 1 then bindR (vec_at v 0) (\<lambda>m. Inr (m, 1))
         else if length v = 2
           then bindR (vec_at v 0) (\<lambda>m. bindR (vec_at v 1) (\<lambda>t. bindR (stoi t) (\<lambda>n. Inr (m, n))))
         else bindR (vec_at v 0) (\<lambda>m. bindR (vec_at v 1) (\<lambda>t. bindR (stoi t) (\<lambda>n. Inr (m, n)))))"

text \<open>\<open>psw->requiredeventMap[e].insert(n)\<close>\<close>

definition require :: "string \<Rightarrow> int \<Rightarrow> (string, int std_set) std_map \<Rightarrow> (string, int std_set) std_map" where
  "require e n req = map_put e (set_put n (map_at [] e req)) req"

definition addNewClientLocal :: "string \<Rightarrow> string list \<Rightarrow> pubsub \<Rightarrow> pubsub res" where
  "addNewClientLocal clientid evs s =
     (let a = nextAddr s;
          psw = new_wrapper\<lparr>peerURL := [], clientID := clientid, iftrigure := False\<rparr>
      in foldR (\<lambda>ev s. bindR (ParseEvent ev) (\<lambda>(e, n).
             let s' = s\<lparr>subtoClient :=
                   map_put e (map_put clientid a (map_at [] e (subtoClient s))) (subtoClient s)\<rparr>
             in bindR (deref s' a) (\<lambda>w.
                  Inr (poke a (w\<lparr>requiredeventMap := require e n (requiredeventMap w)\<rparr>) s'))))
           evs (alloc psw s))"

text \<open>The body of the loop over the events of a new subscription: the requirement goes into the
  wrapper and the index event into the index set of the event.\<close>

definition indexEvents ::
  "string \<Rightarrow> string \<Rightarrow> (string, string std_set) std_map \<Rightarrow> (string, string std_set) std_map" where
  "indexEvents ix e gim =
     (case map_of gim e of
        Some ixs \<Rightarrow> map_put e (set_put ix ixs) gim
      | None \<Rightarrow> map_put e (set_put ix []) gim)"

definition addEvent ::
  "string \<Rightarrow> string \<Rightarrow> (string, int std_set) std_map \<times> (string, string std_set) std_map \<Rightarrow>
   ((string, int std_set) std_map \<times> (string, string std_set) std_map) res" where
  "addEvent ix ev p =
     bindR (ParseEvent ev) (\<lambda>(e, n). Inr (require e n (fst p), indexEvents ix e (snd p)))"

definition addNewClient ::
  "string \<Rightarrow> string \<Rightarrow> string list \<Rightarrow> string \<Rightarrow> string \<Rightarrow> pubsub \<Rightarrow> pubsub res" where
  "addNewClient clientid notifyAddr evs mt meta s =
     (let psw = new_wrapper\<lparr>peerURL := notifyAddr, publishedEvent := [], clientID := clientid,
                  matchType := mt, iftrigure := False, subMetadata := meta\<rparr>
      in if evs = [] then Inr (alloc psw s)
         else bindR (vec_at evs 0) (\<lambda>indexEvent. bindR (ParseEvent indexEvent) (\<lambda>(ix, _).
                bindR (foldR (addEvent ix) evs ([], getIndexMap s)) (\<lambda>(req, gim).
                  Inr ((alloc (psw\<lparr>requiredeventMap := req\<rparr>) s)
                         \<lparr>getIndexMap := gim,
                          subtoClient := map_put ix
                            (map_put clientid (nextAddr s) (map_at [] ix (subtoClient s)))
                            (subtoClient s)\<rparr>)))))"

definition pubsubSubscribe ::
  "string list \<Rightarrow> string \<Rightarrow> string \<Rightarrow> string \<Rightarrow> string \<Rightarrow> pubsub \<Rightarrow> pubsub res" where
  "pubsubSubscribe evs clientId notifyAddr mt meta s = addNewClient clientId notifyAddr evs mt meta s"

definition deleteClient :: "string \<Rightarrow> string \<Rightarrow> pubsub \<Rightarrow> pubsub" where
  "deleteClient subevent clientid s =
     s\<lparr>subtoClient := map_put subevent (map_erase clientid (map_at [] subevent (subtoClient s)))
        (subtoClient s)\<rparr>"

definition deletePubEvent :: "addr \<Rightarrow> pubsub \<Rightarrow> pubsub res" where
  "deletePubEvent psw s = bindR (deref s psw) (\<lambda>w. Inr (poke psw (w\<lparr>publishedEvent := []\<rparr>) s))"

text \<open>The comparison of the two bounding boxes, each corner a vector read at 0 and 1.\<close>

definition checkIfTriggureMetaGrid :: "pubsubWrapper \<Rightarrow> string \<Rightarrow> bool res" where
  "checkIfTriggureMetaGrid psw publishedMeta =
     bindR (getGridFromRawMeta publishedMeta) (\<lambda>pubGridMeta.
     bindR (getbbxfromGridMeta pubGridMeta) (\<lambda>(publb, pubub).
     bindR (vec_at publb 0) (\<lambda>plbx. bindR (vec_at publb 1) (\<lambda>plby.
     bindR (vec_at pubub 0) (\<lambda>pubx. bindR (vec_at pubub 1) (\<lambda>puby.
       let submetastr = subMetadata psw
       in if find_int submetastr '':'' = - 1 then Inr False
          else
            bindR (getbbxfromGridMeta submetastr) (\<lambda>(sublb, subub).
            bindR (vec_at sublb 0) (\<lambda>slbx. bindR (vec_at sublb 1) (\<lambda>slby.
            bindR (vec_at subub 0) (\<lambda>subx. bindR (vec_at subub 1) (\<lambda>suby.
              if slbx > pubx \<or> subx < plbx then Inr False
              else if suby < plby \<or> slby > puby then Inr False
              else Inr True)))))))))))"

definition checkIfTriggure :: "pubsubWrapper \<Rightarrow> bool" where
  "checkIfTriggure psw =
     list_all (\<lambda>(e, nums).
       list_all (\<lambda>requirePushNum.
         case map_of (publishedEvent psw) e of
           None \<Rightarrow> False
         | Some cnt \<Rightarrow> cnt = requirePushNum) nums)
       (requiredeventMap psw)"

text \<open>The body of the innermost loop of \<open>pubsubPublish\<close>: one subscriber under one index event.\<close>

definition publishToClient ::
  "string \<Rightarrow> string \<Rightarrow> string \<Rightarrow> string \<Rightarrow> string \<times> addr \<Rightarrow> pubsub \<Rightarrow> pubsub res" where
  "publishToClient mt metadata e indexEvent entry s =
     bindR (deref s (snd entry)) (\<lambda>w.
     bindR (if mt = ''NAME''
            then bindR (chk_int (map_at 0 e (publishedEvent w) + 1)) (\<lambda>c.
                   let w' = w\<lparr>publishedEvent := map_put e c (publishedEvent w)\<rparr>
                   in Inr (poke (snd entry) w' s, checkIfTriggure w'))
            else if mt = ''META_GRID''
            then bindR (checkIfTriggureMetaGrid w metadata) (\<lambda>b. Inr (s, b))
            else Inr (s, False))
       (\<lambda>(s1, tempiftrigure).
          if tempiftrigure
          then (case map_of (map_at [] indexEvent (subtoClient s1)) (fst entry) of
                  None \<Rightarrow> Inl (Undefined Null_pointer)
                | Some b \<Rightarrow> bindR (deref s1 b) (\<lambda>v.
                    Inr (poke b (v\<lparr>pubMetadata := metadata, iftrigure := True\<rparr>) s1)))
          else Inr s1))"

text \<open>The loop over the index set; the flag is the early \<open>return\<close> of the whole function when an
  index event is not in \<open>subtoClient\<close>.\<close>

fun publishToIndexes ::
  "string \<Rightarrow> string \<Rightarrow> string \<Rightarrow> string list \<Rightarrow> pubsub \<Rightarrow> (pubsub \<times> bool) res" where
  "publishToIndexes mt metadata e [] s = Inr (s, False)"
| "publishToIndexes mt metadata e (indexEvent # ixs) s =
     (case map_of (subtoClient s) indexEvent of
        None \<Rightarrow> Inr (s, True)
      | Some innermap \<Rightarrow>
          bindR (foldR (publishToClient mt metadata e indexEvent) innermap s)
            (publishToIndexes mt metadata e ixs))"

fun publishEvents :: "string list \<Rightarrow> string \<Rightarrow> string \<Rightarrow> pubsub \<Rightarrow> pubsub res" where
  "publishEvents [] mt metadata s = Inr s"
| "publishEvents (e # es) mt metadata s =
     (case map_of (getIndexMap s) e of
        None \<Rightarrow> publishEvents es mt metadata s
      | Some indexEventSet \<Rightarrow>
          bindR (publishToIndexes mt metadata e indexEventSet s)
            (\<lambda>(s', returned). if returned then Inr s' else publishEvents es mt metadata s'))"

definition pubsubPublish :: "string list \<Rightarrow> string \<Rightarrow> string \<Rightarrow> pubsub \<Rightarrow> pubsub res" where
  "pubsubPublish evs mt metadata s = publishEvents evs mt metadata s"

section \<open>The registry as its clients see it\<close>

text \<open>The wrapper pointer under an index event and a client id, and the wrapper behind it.\<close>

definition lookup2 :: "pubsub \<Rightarrow> string \<Rightarrow> string \<Rightarrow> addr option" where
  "lookup2 s ix cl = (case map_of (subtoClient s) ix of None \<Rightarrow> None | Some m \<Rightarrow> map_of m cl)"

definition view :: "pubsub \<Rightarrow> string \<times> string \<Rightarrow> pubsubWrapper option" where
  "view s p = (case lookup2 s (fst p) (snd p) of None \<Rightarrow> None | Some a \<Rightarrow> heap s a)"

definition index_of :: "pubsub \<Rightarrow> string \<Rightarrow> string set" where
  "index_of s e = set (map_at [] e (getIndexMap s))"

definition wf_wrapper :: "pubsubWrapper \<Rightarrow> bool" where
  "wf_wrapper w \<longleftrightarrow> wf_map (publishedEvent w) \<and> wf_map (requiredeventMap w)
     \<and> (\<forall>ns \<in> ran (map_of (requiredeventMap w)). wf_set ns \<and> ns \<noteq> [])"

text \<open>
  The invariant of the registry: its containers are well-formed, every pointer in it leads to a live
  wrapper of the client it is filed under, no two entries share a wrapper, every index event is a
  key of \<open>subtoClient\<close>, and every event a subscriber requires leads back to the subscriber.
\<close>

definition pubsub_inv :: "pubsub \<Rightarrow> bool" where
  "pubsub_inv s \<longleftrightarrow>
     wf_map (subtoClient s) \<and> (\<forall>ix m. map_of (subtoClient s) ix = Some m \<longrightarrow> wf_map m)
   \<and> wf_map (getIndexMap s) \<and> (\<forall>e ixs. map_of (getIndexMap s) e = Some ixs \<longrightarrow> wf_set ixs)
   \<and> (\<forall>a. nextAddr s \<le> a \<longrightarrow> heap s a = None)
   \<and> (\<forall>ix cl a. lookup2 s ix cl = Some a \<longrightarrow>
        (\<exists>w. heap s a = Some w \<and> clientID w = cl \<and> wf_wrapper w
           \<and> (\<forall>e \<in> dom (map_of (requiredeventMap w)). ix \<in> index_of s e)))
   \<and> (\<forall>ix cl ix' cl' a. lookup2 s ix cl = Some a \<longrightarrow> lookup2 s ix' cl' = Some a
        \<longrightarrow> ix = ix' \<and> cl = cl')
   \<and> (\<forall>e. index_of s e \<subseteq> dom (map_of (subtoClient s)))"

section \<open>Lemmas: the invariant\<close>

lemma pubsub_invD:
  assumes "pubsub_inv s"
  shows inv_wf_sub: "wf_map (subtoClient s)"
    and inv_wf_inner: "map_of (subtoClient s) ix = Some m \<Longrightarrow> wf_map m"
    and inv_wf_index: "wf_map (getIndexMap s)"
    and inv_wf_ixs: "map_of (getIndexMap s) e = Some ixs \<Longrightarrow> wf_set ixs"
    and inv_fresh: "nextAddr s \<le> a \<Longrightarrow> heap s a = None"
    and inv_live: "lookup2 s ix cl = Some a \<Longrightarrow> \<exists>w. heap s a = Some w \<and> clientID w = cl \<and> wf_wrapper w
           \<and> (\<forall>e \<in> dom (map_of (requiredeventMap w)). ix \<in> index_of s e)"
    and inv_inj: "lookup2 s ix cl = Some a \<Longrightarrow> lookup2 s ix' cl' = Some a \<Longrightarrow> ix = ix' \<and> cl = cl'"
    and inv_index: "index_of s e \<subseteq> dom (map_of (subtoClient s))"
  using assms unfolding pubsub_inv_def by blast+

lemma inv_bound: "pubsub_inv s \<Longrightarrow> lookup2 s ix cl = Some a \<Longrightarrow> a < nextAddr s"
  using inv_live inv_fresh by (metis leI option.distinct(1))

lemma inv_index_key: "pubsub_inv s \<Longrightarrow> ix \<in> index_of s e \<Longrightarrow> \<exists>m. map_of (subtoClient s) ix = Some m"
  using inv_index by fastforce

lemma pubsub_inv_start: "pubsub_inv pubsub_start"
  by (simp add: pubsub_inv_def pubsub_start_def lookup2_def index_of_def map_at_def)

text \<open>The invariant depends on the containers and, for the wrappers, on what they require only; an
  operation that rewrites a wrapper in place keeps it.\<close>

lemma lookup2_poke [simp]: "lookup2 (poke a w s) = lookup2 s"
  by (simp add: lookup2_def poke_def fun_eq_iff)

lemma index_of_poke [simp]: "index_of (poke a w s) = index_of s"
  by (simp add: index_of_def poke_def fun_eq_iff)

lemma poke_fields [simp]:
  "subtoClient (poke a w s) = subtoClient s" "getIndexMap (poke a w s) = getIndexMap s"
  "nextAddr (poke a w s) = nextAddr s" "heap (poke a w s) = (heap s)(a \<mapsto> w)"
  by (simp_all add: poke_def)

lemma poke_same [simp]: "heap s a = Some w \<Longrightarrow> poke a w s = s"
  by (simp add: poke_def fun_upd_idem)

lemma poke_poke [simp]: "poke a w (poke a v s) = poke a w s"
  by (simp add: poke_def)

lemma pubsub_inv_poke:
  assumes inv: "pubsub_inv s" and w: "heap s a = Some w"
    and "clientID w' = clientID w" "requiredeventMap w' = requiredeventMap w" "wf_map (publishedEvent w')"
  shows "pubsub_inv (poke a w' s)"
proof -
  have "\<exists>v. heap (poke a w' s) b = Some v \<and> clientID v = cl \<and> wf_wrapper v
           \<and> (\<forall>e \<in> dom (map_of (requiredeventMap v)). ix \<in> index_of s e)"
    if "lookup2 s ix cl = Some b" for ix cl b
    using inv_live[OF inv that] w assms(3-5) by (auto simp: wf_wrapper_def)
  moreover have "nextAddr s \<le> b \<Longrightarrow> heap (poke a w' s) b = None" for b
    using inv_fresh[OF inv, of b] w by auto
  ultimately show ?thesis using inv by (simp add: pubsub_inv_def)
qed

lemma alloc_inv:
  assumes inv: "pubsub_inv s"
  shows "pubsub_inv (alloc w s)"
proof -
  have look: "lookup2 (alloc w s) = lookup2 s" and idx: "index_of (alloc w s) = index_of s"
    by (simp_all add: alloc_def lookup2_def index_of_def fun_eq_iff)
  have live: "heap (alloc w s) a = heap s a" if "lookup2 s ix cl = Some a" for ix cl a
    using inv_bound[OF inv that] by (simp add: alloc_def)
  have "\<exists>v. heap (alloc w s) a = Some v \<and> clientID v = cl \<and> wf_wrapper v
          \<and> (\<forall>e \<in> dom (map_of (requiredeventMap v)). ix \<in> index_of s e)"
    if "lookup2 s ix cl = Some a" for ix cl a
    using inv_live[OF inv that] live[OF that] by auto
  moreover have "nextAddr (alloc w s) \<le> a \<Longrightarrow> heap (alloc w s) a = None" for a
    using inv_fresh[OF inv, of a] by (simp add: alloc_def)
  moreover have "subtoClient (alloc w s) = subtoClient s" "getIndexMap (alloc w s) = getIndexMap s"
    by (simp_all add: alloc_def)
  ultimately show ?thesis using inv by (simp add: pubsub_inv_def look idx)
qed

text \<open>Removing an entry keeps the invariant: the key of the index event stays, also when no
  subscriber is left under it.\<close>

lemma pubsub_inv_remove:
  assumes inv: "pubsub_inv s" and m: "m = map_at [] ix (subtoClient s)"
  shows "pubsub_inv (s\<lparr>subtoClient := map_put ix (map_erase cl m) (subtoClient s)\<rparr>)" (is "pubsub_inv ?s")
proof -
  have sub: "lookup2 ?s jx c = (if jx = ix \<and> c = cl then None else lookup2 s jx c)" for jx c
    by (simp add: lookup2_def m map_at_def split: option.split)
  have idx: "index_of ?s = index_of s" by (simp add: index_of_def fun_eq_iff)
  have wf: "wf_map m" using inv_wf_inner[OF inv] m by (auto simp: map_at_def split: option.split)
  show ?thesis
    unfolding pubsub_inv_def sub idx
    using inv_wf_sub[OF inv] inv_wf_inner[OF inv] inv_wf_index[OF inv] inv_wf_ixs[OF inv]
      inv_fresh[OF inv] inv_live[OF inv] inv_inj[OF inv] inv_index_key[OF inv] wf
    by (auto split: if_splits)
qed

lemma eventUnSubscribe_inv: "pubsub_inv s \<Longrightarrow> pubsub_inv (eventUnSubscribe ix cl s)"
  by (auto simp: eventUnSubscribe_def map_at_def intro!: pubsub_inv_remove split: option.split)

lemma deleteClient_inv: "pubsub_inv s \<Longrightarrow> pubsub_inv (deleteClient ix cl s)"
  by (simp add: deleteClient_def pubsub_inv_remove)

lemma deletePubEvent_inv: "pubsub_inv s \<Longrightarrow> deletePubEvent a s = Inr s' \<Longrightarrow> pubsub_inv s'"
  by (auto simp: deletePubEvent_def deref_def bindR_eq_Inr split: option.splits
      intro!: pubsub_inv_poke)

section \<open>Lemmas: subscribing\<close>

text \<open>What the events of a subscription parse to.\<close>

fun ParseEvents :: "string list \<Rightarrow> (string \<times> int) list res" where
  "ParseEvents [] = Inr []"
| "ParseEvents (ev # evs) = bindR (ParseEvent ev) (\<lambda>p. bindR (ParseEvents evs) (\<lambda>ps. Inr (p # ps)))"

lemma addEvents_fold:
  "foldR (addEvent ix) evs (req, gim) =
     bindR (ParseEvents evs) (\<lambda>ps. Inr (fold (\<lambda>(e, n). require e n) ps req,
                                        fold (\<lambda>(e, n). indexEvents ix e) ps gim))"
proof (induction evs arbitrary: req gim)
  case (Cons ev evs)
  then show ?case by (cases "ParseEvent ev") (auto simp: addEvent_def bindR_assoc)
qed simp

lemma map_of_indexEvents: "map_of (indexEvents ix e gim) = (map_of gim)(e \<mapsto> set_put ix (map_at [] e gim))"
  by (simp add: indexEvents_def map_at_def split: option.split)

lemma map_of_require: "map_of (require e n req) = (map_of req)(e \<mapsto> set_put n (map_at [] e req))"
  by (simp add: require_def)

lemma require_fold_at: "set (map_at [] e (fold (\<lambda>(e, n). require e n) ps req)) =
    set (map_at [] e req) \<union> {n. (e, n) \<in> set ps}"
  by (induction ps arbitrary: req) (auto simp: map_of_require map_at_def split: option.splits if_splits)

lemma require_fold_dom:
  "dom (map_of (fold (\<lambda>(e, n). require e n) ps req)) = dom (map_of req) \<union> fst ` set ps"
  by (induction ps arbitrary: req) (auto simp: map_of_require)

lemma index_fold_at: "set (map_at [] e (fold (\<lambda>(e, n). indexEvents ix e) ps gim)) =
    set (map_at [] e gim) \<union> (if e \<in> fst ` set ps then {ix} else {})"
  by (induction ps arbitrary: gim)
     (auto simp: map_of_indexEvents map_at_def split: option.splits if_splits)

definition wf_multimap :: "(string, 'a::linorder std_set) std_map \<Rightarrow> bool" where
  "wf_multimap m \<longleftrightarrow> wf_map m \<and> (\<forall>k ns. map_of m k = Some ns \<longrightarrow> wf_set ns \<and> ns \<noteq> [])"

lemma set_put_not_Nil [simp]: "set_put x s \<noteq> []"
  by (cases s) auto

lemma wf_multimap_put:
  "wf_multimap m \<Longrightarrow> wf_multimap (map_put k (set_put x (map_at [] k m)) m)"
  by (auto simp: wf_multimap_def map_at_def split: option.splits)

lemma indexEvents_put: "indexEvents ix e gim = map_put e (set_put ix (map_at [] e gim)) gim"
  by (simp add: indexEvents_def map_at_def split: option.split)

lemma wf_multimap_folds:
  "wf_multimap req \<Longrightarrow> wf_multimap (fold (\<lambda>(e, n). require e n) ps req)"
  by (induction ps arbitrary: req) (auto simp: require_def wf_multimap_put)

definition wf_index :: "(string, string std_set) std_map \<Rightarrow> bool" where
  "wf_index gim \<longleftrightarrow> wf_map gim \<and> (\<forall>e ixs. map_of gim e = Some ixs \<longrightarrow> wf_set ixs)"

lemma wf_index_put: "wf_index gim \<Longrightarrow> wf_index (indexEvents ix e gim)"
  by (auto simp: wf_index_def indexEvents_put map_at_def split: option.splits)

lemma index_fold_wf: "wf_index gim \<Longrightarrow> wf_index (fold (\<lambda>(e, n). indexEvents ix e) ps gim)"
  by (induction ps arbitrary: gim) (auto simp: wf_index_put)

text \<open>The outcome of a subscription, once its events parse: a fresh wrapper filed under the first
  event and reachable from every event it requires.\<close>

definition subscribed :: "string \<Rightarrow> string \<Rightarrow> (string \<times> int) list \<Rightarrow> string \<Rightarrow> string \<Rightarrow> pubsubWrapper" where
  "subscribed clientid notifyAddr ps mt meta =
     \<lparr>peerURL = notifyAddr, clientID = clientid, subMetadata = meta, pubMetadata = [], matchType = mt,
      iftrigure = False, publishedEvent = [], requiredeventMap = fold (\<lambda>(e, n). require e n) ps []\<rparr>"

definition enroll :: "string \<Rightarrow> string \<Rightarrow> (string \<times> int) list \<Rightarrow> pubsubWrapper \<Rightarrow> pubsub \<Rightarrow> pubsub" where
  "enroll clientid ix ps w s = (alloc w s)
     \<lparr>getIndexMap := fold (\<lambda>(e, n). indexEvents ix e) ps (getIndexMap s),
      subtoClient := map_put ix (map_put clientid (nextAddr s) (map_at [] ix (subtoClient s)))
        (subtoClient s)\<rparr>"

lemma pubsubSubscribe_outcome:
  assumes "evs \<noteq> []"
  shows "pubsubSubscribe evs clientid notifyAddr mt meta s =
     bindR (ParseEvents evs) (\<lambda>ps. Inr (enroll clientid (fst (hd ps)) ps
       (subscribed clientid notifyAddr ps mt meta) s))"
proof -
  from assms obtain ev evs' where [simp]: "evs = ev # evs'" by (cases evs) auto
  show ?thesis
    by (cases "ParseEvent ev"; cases "ParseEvents evs'")
       (auto simp: pubsubSubscribe_def addNewClient_def addEvents_fold subscribed_def enroll_def
          new_wrapper_def alloc_def Let_def addEvent_def)
qed

lemma enroll_lookup2:
  "lookup2 (enroll clientid ix ps w s) jx cl =
     (if jx = ix \<and> cl = clientid then Some (nextAddr s) else lookup2 s jx cl)"
  by (simp add: enroll_def lookup2_def alloc_def map_at_def split: option.split)

lemma enroll_heap: "heap (enroll clientid ix ps w s) = (heap s)(nextAddr s \<mapsto> w)"
  by (simp add: enroll_def alloc_def)

lemma enroll_index: "index_of (enroll clientid ix ps w s) e =
    index_of s e \<union> (if e \<in> fst ` set ps then {ix} else {})"
  by (simp add: enroll_def alloc_def index_of_def index_fold_at)

lemma subscribed_wf: "wf_wrapper (subscribed clientid notifyAddr ps mt meta)"
  using wf_multimap_folds[of "[]" ps]
  by (auto simp: wf_wrapper_def subscribed_def wf_multimap_def ran_def)

lemma subscribed_dom: "dom (map_of (requiredeventMap (subscribed c n ps mt meta))) = fst ` set ps"
  by (simp add: subscribed_def require_fold_dom)

lemma enroll_inv:
  assumes inv: "pubsub_inv s" and w: "clientID w = clientid" "wf_wrapper w"
    "dom (map_of (requiredeventMap w)) \<subseteq> fst ` set ps"
  shows "pubsub_inv (enroll clientid ix ps w s)" (is "pubsub_inv ?s")
proof -
  note look = enroll_lookup2[of clientid ix ps w s]
  note idx = enroll_index[of clientid ix ps w s]
  have "\<exists>v. heap ?s a = Some v \<and> clientID v = cl \<and> wf_wrapper v
          \<and> (\<forall>e \<in> dom (map_of (requiredeventMap v)). jx \<in> index_of ?s e)"
    if "lookup2 ?s jx cl = Some a" for jx cl a
  proof (cases "jx = ix \<and> cl = clientid")
    case True
    with that w show ?thesis by (auto simp: look enroll_heap idx)
  next
    case False
    with that have l: "lookup2 s jx cl = Some a" by (auto simp: look)
    with inv_bound[OF inv] have "a < nextAddr s" by simp
    with inv_live[OF inv l] show ?thesis by (auto simp: enroll_heap idx)
  qed
  moreover have "jx = jx' \<and> cl = cl'" if "lookup2 ?s jx cl = Some a" "lookup2 ?s jx' cl' = Some a"
    for jx jx' cl cl' a
    using that inv_inj[OF inv, of jx cl a jx' cl'] inv_bound[OF inv, of jx cl a]
      inv_bound[OF inv, of jx' cl' a] unfolding look by (auto split: if_splits)
  moreover have "index_of ?s e \<subseteq> dom (map_of (subtoClient ?s))" for e
    using inv_index[OF inv, of e] by (auto simp: idx) (auto simp: enroll_def)
  moreover have "wf_map m" if "map_of (subtoClient ?s) jx = Some m" for jx m
    using that inv_wf_inner[OF inv]
    by (auto simp: enroll_def map_at_def wf_map_Cons split: if_splits option.splits)
  moreover have "wf_index (getIndexMap s)"
    using inv_wf_index[OF inv] inv_wf_ixs[OF inv] by (auto simp: wf_index_def)
  then have "wf_index (getIndexMap ?s)" by (simp add: enroll_def index_fold_wf)
  moreover have "wf_map (subtoClient ?s)" using inv_wf_sub[OF inv] by (simp add: enroll_def)
  moreover have "nextAddr ?s \<le> a \<Longrightarrow> heap ?s a = None" for a
    using inv_fresh[OF inv, of a] by (simp add: enroll_def alloc_def)
  ultimately show ?thesis unfolding pubsub_inv_def wf_index_def by blast
qed

lemma pubsubSubscribe_inv:
  assumes "pubsub_inv s" and "pubsubSubscribe evs clientid notifyAddr mt meta s = Inr s'"
  shows "pubsub_inv s'"
proof (cases "evs = []")
  case True
  with assms show ?thesis
    by (auto simp: pubsubSubscribe_def addNewClient_def alloc_inv)
next
  case False
  with assms obtain ps where "s' = enroll clientid (fst (hd ps)) ps
      (subscribed clientid notifyAddr ps mt meta) s"
    by (auto simp: pubsubSubscribe_outcome bindR_eq_Inr)
  with assms(1) show ?thesis
    using enroll_inv[OF assms(1) _ subscribed_wf equalityD1[OF subscribed_dom]]
    by (simp add: subscribed_def)
qed

end
