(* ===== verification/PubSubSpec.thy ===== *)
theory PubSubSpec
  imports PubSub
begin

text \<open>
  What publishing does to the subscribers, stated without pointers: an abstract registry maps an
  index event and a client id to the subscriber's wrapper, and a publication changes the wrappers
  filed under the index events of the published event, each by \<open>recv\<close> and each independently. The
  refinement lemma says that \<open>pubsubPublish\<close> on the heap does exactly that; the lemmas on traces of
  deliveries then say when a subscriber is triggered.
\<close>

section \<open>Abstract registry\<close>

type_synonym registry = "string \<times> string \<Rightarrow> pubsubWrapper option"

text \<open>One subscriber receives one published event.\<close>

definition mark :: "string \<Rightarrow> pubsubWrapper \<Rightarrow> pubsubWrapper" where
  "mark metadata w = w\<lparr>pubMetadata := metadata, iftrigure := True\<rparr>"

definition bump :: "string \<Rightarrow> pubsubWrapper \<Rightarrow> pubsubWrapper" where
  "bump e w = w\<lparr>publishedEvent := map_put e (map_at 0 e (publishedEvent w) + 1) (publishedEvent w)\<rparr>"

definition recv :: "string \<Rightarrow> string \<Rightarrow> string \<Rightarrow> pubsubWrapper \<Rightarrow> pubsubWrapper res" where
  "recv mt metadata e w =
     (if mt = ''NAME'' then
        bindR (chk_int (map_at 0 e (publishedEvent w) + 1)) (\<lambda>_.
          Inr (if checkIfTriggure (bump e w) then mark metadata (bump e w) else bump e w))
      else if mt = ''META_GRID'' then
        bindR (checkIfTriggureMetaGrid w metadata) (\<lambda>b. Inr (if b then mark metadata w else w))
      else Inr w)"

definition received :: "string \<Rightarrow> string \<Rightarrow> string \<Rightarrow> pubsubWrapper \<Rightarrow> pubsubWrapper" where
  "received mt metadata e w = (case recv mt metadata e w of Inl _ \<Rightarrow> w | Inr w' \<Rightarrow> w')"

definition publish_one :: "string \<Rightarrow> string \<Rightarrow> (string \<Rightarrow> string set) \<Rightarrow> string \<Rightarrow> registry \<Rightarrow> registry" where
  "publish_one mt metadata index e R =
     (\<lambda>(ix, cl). if ix \<in> index e then map_option (received mt metadata e) (R (ix, cl)) else R (ix, cl))"

definition publish_spec ::
  "string list \<Rightarrow> string \<Rightarrow> string \<Rightarrow> (string \<Rightarrow> string set) \<Rightarrow> registry \<Rightarrow> registry" where
  "publish_spec evs mt metadata index R = fold (publish_one mt metadata index) evs R"

section \<open>Refinement\<close>

lemma recv_keeps:
  assumes "recv mt metadata e w = Inr w'"
  shows "clientID w' = clientID w" "requiredeventMap w' = requiredeventMap w" "peerURL w' = peerURL w"
    and "wf_map (publishedEvent w) \<Longrightarrow> wf_map (publishedEvent w')"
  using assms by (auto simp: recv_def bindR_eq_Inr mark_def bump_def split: if_splits)

text \<open>The innermost body writes the received wrapper back to its address.\<close>

lemma publishToClient_recv:
  assumes "lookup2 s ix cl = Some a"
  shows "publishToClient mt metadata e ix (cl, a) s =
     bindR (deref s a) (\<lambda>w. bindR (recv mt metadata e w) (\<lambda>w'. Inr (poke a w' s)))"
proof (cases "heap s a")
  case None
  then show ?thesis by (simp add: publishToClient_def deref_def)
next
  case (Some w)
  have look: "map_of (map_at [] ix (subtoClient s)) cl = Some a"
    using assms by (auto simp: lookup2_def map_at_def split: option.splits)
  consider "mt = ''NAME''" | "mt \<noteq> ''NAME''" "mt = ''META_GRID''" | "mt \<noteq> ''NAME''" "mt \<noteq> ''META_GRID''"
    by blast
  then show ?thesis
  proof cases
    case 1
    with Some look show ?thesis
      by (simp add: publishToClient_def deref_def recv_def chk_int_def mark_def bump_def Let_def)
  next
    case 2
    with Some look show ?thesis
      by (cases "checkIfTriggureMetaGrid w metadata")
         (simp_all add: publishToClient_def deref_def recv_def mark_def)
  next
    case 3
    with Some show ?thesis by (simp add: publishToClient_def deref_def recv_def)
  qed
qed

text \<open>Rewriting a set of wrappers in place, each by the same function.\<close>

definition touch :: "(pubsubWrapper \<Rightarrow> pubsubWrapper) \<Rightarrow> addr set \<Rightarrow> pubsub \<Rightarrow> pubsub" where
  "touch f A s = s\<lparr>heap := (\<lambda>a. if a \<in> A then map_option f (heap s a) else heap s a)\<rparr>"

lemma touch_fields [simp]:
  "subtoClient (touch f A s) = subtoClient s" "getIndexMap (touch f A s) = getIndexMap s"
  "nextAddr (touch f A s) = nextAddr s" "lookup2 (touch f A s) = lookup2 s"
  "index_of (touch f A s) = index_of s"
  by (simp_all add: touch_def lookup2_def index_of_def fun_eq_iff)

lemma touch_heap [simp]:
  "heap (touch f A s) a = (if a \<in> A then map_option f (heap s a) else heap s a)"
  by (simp add: touch_def)

lemma touch_empty [simp]: "touch f {} s = s"
  by (simp add: touch_def)

lemma touch_touch: "A \<inter> B = {} \<Longrightarrow> touch f A (touch f B s) = touch f (A \<union> B) s"
  by (auto simp: touch_def fun_eq_iff intro!: pubsub.equality)

lemma poke_touch: "heap s a = Some w \<Longrightarrow> poke a (f w) s = touch f {a} s"
  by (auto simp: touch_def poke_def fun_eq_iff intro!: pubsub.equality)

lemma touch_inv:
  assumes inv: "pubsub_inv s"
    and "\<And>w. clientID (f w) = clientID w" "\<And>w. requiredeventMap (f w) = requiredeventMap w"
      "\<And>w. wf_map (publishedEvent w) \<Longrightarrow> wf_map (publishedEvent (f w))"
  shows "pubsub_inv (touch f A s)"
proof -
  have "\<exists>v. heap (touch f A s) a = Some v \<and> clientID v = cl \<and> wf_wrapper v
           \<and> (\<forall>e \<in> dom (map_of (requiredeventMap v)). ix \<in> index_of s e)"
    if "lookup2 s ix cl = Some a" for ix cl a
    using inv_live[OF inv that] assms(2-4) by (auto simp: wf_wrapper_def)
  moreover have "nextAddr s \<le> a \<Longrightarrow> heap (touch f A s) a = None" for a
    using inv_fresh[OF inv, of a] by simp
  ultimately show ?thesis using inv by (simp add: pubsub_inv_def)
qed

lemma received_keeps:
  "clientID (received mt metadata e w) = clientID w"
  "requiredeventMap (received mt metadata e w) = requiredeventMap w"
  "peerURL (received mt metadata e w) = peerURL w"
  "wf_map (publishedEvent w) \<Longrightarrow> wf_map (publishedEvent (received mt metadata e w))"
  by (cases "recv mt metadata e w"; simp add: received_def; drule recv_keeps; simp)+

lemma received_inv: "pubsub_inv s \<Longrightarrow> pubsub_inv (touch (received mt metadata e) A s)"
  by (rule touch_inv) (simp_all add: received_keeps)

text \<open>The loop over the subscribers of one index event.\<close>

lemma publish_entries:
  assumes "foldR (publishToClient mt metadata e ix) xs s = Inr s'"
    and "\<And>cl a. (cl, a) \<in> set xs \<Longrightarrow> lookup2 s ix cl = Some a" and "distinct (map snd xs)"
  shows "s' = touch (received mt metadata e) (snd ` set xs) s"
  using assms
proof (induction xs arbitrary: s)
  case Nil
  then show ?case by simp
next
  case (Cons x xs)
  obtain cl a where x: "x = (cl, a)" by (cases x)
  with Cons.prems(2) have look: "lookup2 s ix cl = Some a" by simp
  from Cons.prems(1) obtain t where t: "publishToClient mt metadata e ix (cl, a) s = Inr t"
    and rest: "foldR (publishToClient mt metadata e ix) xs t = Inr s'"
    by (auto simp: x bindR_eq_Inr)
  from t obtain w w' where w: "heap s a = Some w" "recv mt metadata e w = Inr w'" "t = poke a w' s"
    by (auto simp: publishToClient_recv[OF look] bindR_eq_Inr deref_def split: option.splits)
  then have "t = touch (received mt metadata e) {a} s"
    by (simp add: received_def flip: poke_touch)
  moreover have "s' = touch (received mt metadata e) (snd ` set xs) t"
    using Cons.prems(2,3) by (intro Cons.IH[OF rest]) (auto simp: w x)
  moreover have "snd ` set xs \<inter> {a} = {}" using Cons.prems(3) by (auto simp: x)
  ultimately show ?case by (simp add: x touch_touch)
qed

lemma inner_entries:
  assumes inv: "pubsub_inv s" and m: "map_of (subtoClient s) ix = Some m"
  shows "(cl, a) \<in> set m \<longleftrightarrow> lookup2 s ix cl = Some a" and "distinct (map snd m)"
proof -
  have wf: "wf_map m" using inv_wf_inner[OF inv m] .
  show entry: "(cl, a) \<in> set m \<longleftrightarrow> lookup2 s ix cl = Some a" for cl a
    using m by (simp add: lookup2_def wf_map_entry[OF wf])
  have "inj_on snd (set m)"
    using entry inv_inj[OF inv] by (auto simp: inj_on_def)
  moreover have "distinct m"
    using wf_map_distinct[OF wf] by (simp add: keys_def distinct_map)
  ultimately show "distinct (map snd m)" by (simp add: distinct_map)
qed

text \<open>The addresses filed under a set of index events.\<close>

definition filed :: "pubsub \<Rightarrow> string set \<Rightarrow> addr set" where
  "filed s I = {a. \<exists>ix \<in> I. \<exists>cl. lookup2 s ix cl = Some a}"

lemma filed_disjoint: "pubsub_inv s \<Longrightarrow> I \<inter> J = {} \<Longrightarrow> filed s I \<inter> filed s J = {}"
  unfolding filed_def by (safe, metis disjoint_iff inv_inj)

lemma filed_touch [simp]: "filed (touch f A s) = filed s"
  by (simp add: filed_def fun_eq_iff)

lemma inner_filed: "pubsub_inv s \<Longrightarrow> map_of (subtoClient s) ix = Some m \<Longrightarrow> snd ` set m = filed s {ix}"
  using inner_entries(1)[of s ix m] by (auto simp: filed_def image_iff Bex_def)

lemma publish_indexes:
  assumes "publishToIndexes mt metadata e ixs s = Inr (s', ret)" and "pubsub_inv s"
    and "set ixs \<subseteq> dom (map_of (subtoClient s))" and "distinct ixs"
  shows "\<not> ret \<and> s' = touch (received mt metadata e) (filed s (set ixs)) s"
  using assms
proof (induction ixs arbitrary: s)
  case Nil
  then show ?case by (simp add: filed_def)
next
  case (Cons ix ixs)
  from Cons.prems(3) obtain m where m: "map_of (subtoClient s) ix = Some m" by auto
  with Cons.prems(1) obtain t where t: "foldR (publishToClient mt metadata e ix) m s = Inr t"
    and rest: "publishToIndexes mt metadata e ixs t = Inr (s', ret)"
    by (auto simp: bindR_eq_Inr)
  have tt: "t = touch (received mt metadata e) (filed s {ix}) s"
    using publish_entries[OF t] inner_entries[OF Cons.prems(2) m]
    by (simp add: inner_filed[OF Cons.prems(2) m])
  have "\<not> ret \<and> s' = touch (received mt metadata e) (filed t (set ixs)) t"
    using Cons.prems by (intro Cons.IH[OF rest]) (auto simp: tt received_inv)
  moreover have "filed s (set ixs) \<inter> filed s {ix} = {}"
    using Cons.prems(4) by (intro filed_disjoint[OF Cons.prems(2)]) auto
  moreover have "filed s (set ixs) \<union> filed s {ix} = filed s (set (ix # ixs))"
    by (auto simp: filed_def)
  ultimately show ?case by (simp add: tt touch_touch)
qed

text \<open>One published event, whether it is indexed or not.\<close>

lemma view_touch:
  assumes "pubsub_inv s"
  shows "view (touch (received mt metadata e) (filed s I) s) =
    (\<lambda>(ix, cl). if ix \<in> I then map_option (received mt metadata e) (view s (ix, cl)) else view s (ix, cl))"
proof -
  have "a \<in> filed s I \<longleftrightarrow> ix \<in> I" if "lookup2 s ix cl = Some a" for ix cl a
    using that inv_inj[OF assms that] unfolding filed_def by blast
  then show ?thesis by (simp add: view_def fun_eq_iff split: option.split)
qed

lemma publishEvents_Cons:
  assumes inv: "pubsub_inv s" and pub: "publishEvents (e # es) mt metadata s = Inr s'"
  obtains t where "t = touch (received mt metadata e) (filed s (index_of s e)) s"
    "publishEvents es mt metadata t = Inr s'"
proof (cases "map_of (getIndexMap s) e")
  case None
  then have "index_of s e = {}" by (simp add: index_of_def map_at_def)
  then have "s = touch (received mt metadata e) (filed s (index_of s e)) s" by (simp add: filed_def)
  with None pub that show thesis by simp
next
  case (Some ixs)
  then have ixs: "set ixs = index_of s e" by (simp add: index_of_def map_at_def)
  from pub Some obtain t ret where t: "publishToIndexes mt metadata e ixs s = Inr (t, ret)"
    and rest: "(if ret then Inr t else publishEvents es mt metadata t) = Inr s'"
    by (auto simp: bindR_eq_Inr)
  have "\<not> ret \<and> t = touch (received mt metadata e) (filed s (set ixs)) s"
    using inv_index[OF inv, of e] wf_set_distinct[OF inv_wf_ixs[OF inv Some]]
    by (intro publish_indexes[OF t inv]) (simp_all add: ixs)
  with rest ixs that show thesis by simp
qed

theorem publish_refines_aux:
  assumes "pubsubPublish evs mt metadata s = Inr s'" and "pubsub_inv s"
  shows "view s' = publish_spec evs mt metadata (index_of s) (view s)
    \<and> index_of s' = index_of s \<and> subtoClient s' = subtoClient s \<and> pubsub_inv s'"
  using assms unfolding pubsubPublish_def publish_spec_def
proof (induction evs arbitrary: s)
  case Nil
  then show ?case by simp
next
  case (Cons e es)
  obtain t where t: "t = touch (received mt metadata e) (filed s (index_of s e)) s"
    "publishEvents es mt metadata t = Inr s'"
    using publishEvents_Cons[OF Cons.prems(2,1)] .
  have "pubsub_inv t" using Cons.prems(2) by (simp add: t received_inv)
  moreover have "view t = publish_one mt metadata (index_of s) e (view s)"
    using view_touch[OF Cons.prems(2)] by (simp add: t publish_one_def)
  moreover have "index_of t = index_of s" "subtoClient t = subtoClient s" by (simp_all add: t)
  ultimately show ?case using Cons.IH[OF t(2)] by simp
qed

section \<open>Publishing returns\<close>

lemma publish_entries_total:
  assumes "\<And>cl a. (cl, a) \<in> set xs \<Longrightarrow> lookup2 s ix cl = Some a"
    and "\<And>a. a \<in> snd ` set xs \<Longrightarrow> \<exists>w. heap s a = Some w \<and> returns (recv mt metadata e w)"
    and "distinct (map snd xs)"
  shows "returns (foldR (publishToClient mt metadata e ix) xs s)"
  using assms
proof (induction xs arbitrary: s)
  case Nil
  then show ?case by simp
next
  case (Cons x xs)
  obtain cl a where x: "x = (cl, a)" by (cases x)
  with Cons.prems(1) have look: "lookup2 s ix cl = Some a" by simp
  from Cons.prems(2)[of a] x obtain w w' where w: "heap s a = Some w" "recv mt metadata e w = Inr w'"
    by (auto simp: returns_iff)
  then have "publishToClient mt metadata e ix x s = Inr (poke a w' s)"
    by (simp add: x publishToClient_recv[OF look] deref_def)
  moreover have "returns (foldR (publishToClient mt metadata e ix) xs (poke a w' s))"
    using Cons.prems by (intro Cons.IH) (auto simp: x)
  ultimately show ?case by simp
qed

lemma publish_indexes_total:
  assumes "pubsub_inv s" and "set ixs \<subseteq> dom (map_of (subtoClient s))" and "distinct ixs"
    and "\<And>a. a \<in> filed s (set ixs) \<Longrightarrow> \<exists>w. heap s a = Some w \<and> returns (recv mt metadata e w)"
  shows "returns (publishToIndexes mt metadata e ixs s)"
  using assms
proof (induction ixs arbitrary: s)
  case Nil
  then show ?case by simp
next
  case (Cons ix ixs)
  note inv = Cons.prems(1)
  from Cons.prems(2) obtain m where m: "map_of (subtoClient s) ix = Some m" by auto
  have "returns (foldR (publishToClient mt metadata e ix) m s)"
  proof (rule publish_entries_total)
    fix a assume "a \<in> snd ` set m"
    then have "a \<in> filed s (set (ix # ixs))" by (auto simp: inner_filed[OF inv m] filed_def)
    then show "\<exists>w. heap s a = Some w \<and> returns (recv mt metadata e w)" by (rule Cons.prems(4))
  qed (use inner_entries[OF inv m] in auto)
  then obtain t where t: "foldR (publishToClient mt metadata e ix) m s = Inr t"
    by (auto simp: returns_iff)
  have tt: "t = touch (received mt metadata e) (filed s {ix}) s"
    using publish_entries[OF t] inner_entries[OF inv m] by (simp add: inner_filed[OF inv m])
  have "filed s (set ixs) \<inter> filed s {ix} = {}"
    using Cons.prems(3) by (intro filed_disjoint[OF inv]) auto
  then have heap: "heap t a = heap s a" if "a \<in> filed s (set ixs)" for a
    using that by (auto simp: tt)
  have "returns (publishToIndexes mt metadata e ixs t)"
  proof (rule Cons.IH)
    fix a assume "a \<in> filed t (set ixs)"
    then have "a \<in> filed s (set ixs)" by (simp add: tt)
    then have "a \<in> filed s (set (ix # ixs))" "heap t a = heap s a" by (auto simp: filed_def heap)
    then show "\<exists>w. heap t a = Some w \<and> returns (recv mt metadata e w)" using Cons.prems(4) by simp
  qed (use Cons.prems in \<open>auto simp: tt received_inv\<close>)
  with t m show ?case by simp
qed

text \<open>The counters of the live wrappers stay below a bound.\<close>

definition counts_upto :: "int \<Rightarrow> pubsub \<Rightarrow> bool" where
  "counts_upto n s \<longleftrightarrow> (\<forall>a w e. heap s a = Some w \<longrightarrow>
     0 \<le> map_at 0 e (publishedEvent w) \<and> map_at 0 e (publishedEvent w) \<le> n)"

lemma counts_upto_start: "counts_upto 0 pubsub_start"
  by (simp add: counts_upto_def pubsub_start_def)

lemma recv_NAME:
  assumes "0 \<le> map_at 0 e (publishedEvent w)" and "map_at 0 e (publishedEvent w) < INT_MAX"
  shows "recv ''NAME'' metadata e w =
    Inr (if checkIfTriggure (bump e w) then mark metadata (bump e w) else bump e w)"
proof -
  have "is_int32 (map_at 0 e (publishedEvent w) + 1)"
    using assms by (simp add: is_int32_def INT_MIN_def)
  then show ?thesis by (simp add: recv_def)
qed

lemma received_NAME:
  assumes "0 \<le> map_at 0 e (publishedEvent w)" and "map_at 0 e (publishedEvent w) < INT_MAX"
  shows "received ''NAME'' metadata e w =
    (if checkIfTriggure (bump e w) then mark metadata (bump e w) else bump e w)"
  by (simp add: received_def recv_NAME[OF assms])

lemma received_counts:
  assumes "0 \<le> map_at 0 e (publishedEvent w)" and "map_at 0 e (publishedEvent w) < INT_MAX"
  shows "publishedEvent (received ''NAME'' metadata e w) =
    map_put e (map_at 0 e (publishedEvent w) + 1) (publishedEvent w)"
  by (simp add: received_NAME[OF assms] mark_def bump_def)

lemma counts_upto_touch:
  assumes "counts_upto n s" and "n < INT_MAX"
  shows "counts_upto (n + 1) (touch (received ''NAME'' metadata e) A s)"
  unfolding counts_upto_def
proof (intro allI impI)
  fix a w x assume w: "heap (touch (received ''NAME'' metadata e) A s) a = Some w"
  show "0 \<le> map_at 0 x (publishedEvent w) \<and> map_at 0 x (publishedEvent w) \<le> n + 1"
  proof (cases "a \<in> A")
    case True
    with w obtain v where v: "heap s a = Some v" "w = received ''NAME'' metadata e v" by auto
    with assms have "0 \<le> map_at 0 e (publishedEvent v)" "map_at 0 e (publishedEvent v) \<le> n"
      "0 \<le> map_at 0 x (publishedEvent v)" "map_at 0 x (publishedEvent v) \<le> n"
      by (simp_all add: counts_upto_def)
    with assms(2) show ?thesis by (cases "x = e") (simp_all add: v received_counts)
  next
    case False
    with w assms(1) have "0 \<le> map_at 0 x (publishedEvent w)" "map_at 0 x (publishedEvent w) \<le> n"
      by (auto simp: counts_upto_def)
    then show ?thesis by simp
  qed
qed

lemma publish_NAME_returns:
  assumes "pubsub_inv s" and "counts_upto n s" and "n + int (length evs) \<le> INT_MAX"
  shows "\<exists>s'. pubsubPublish evs ''NAME'' metadata s = Inr s' \<and> counts_upto (n + int (length evs)) s'"
  using assms unfolding pubsubPublish_def
proof (induction evs arbitrary: s n)
  case Nil
  then show ?case by simp
next
  case (Cons e es)
  note inv = Cons.prems(1)
  let ?t = "touch (received ''NAME'' metadata e) (filed s (index_of s e)) s"
  have IH: "\<exists>s'. publishEvents es ''NAME'' metadata ?t = Inr s' \<and> counts_upto (n + int (length (e # es))) s'"
    using Cons.IH[OF received_inv[OF inv] counts_upto_touch[OF Cons.prems(2)]] Cons.prems(3)
    by (simp add: algebra_simps)
  have "returns (publishEvents (e # es) ''NAME'' metadata s)"
  proof (cases "map_of (getIndexMap s) e")
    case None
    then have "index_of s e = {}" by (simp add: index_of_def map_at_def)
    then have "?t = s" by (simp add: filed_def)
    with None IH show ?thesis by (auto simp: returns_iff)
  next
    case (Some ixs)
    then have ixs: "set ixs = index_of s e" by (simp add: index_of_def map_at_def)
    note dist = wf_set_distinct[OF inv_wf_ixs[OF inv Some]]
    have "\<exists>w. heap s a = Some w \<and> returns (recv ''NAME'' metadata e w)" if "a \<in> filed s (set ixs)" for a
    proof -
      from that obtain w where w: "heap s a = Some w" using inv_live[OF inv] by (fastforce simp: filed_def)
      with Cons.prems(2,3) have "0 \<le> map_at 0 e (publishedEvent w)" "map_at 0 e (publishedEvent w) \<le> n"
        by (simp_all add: counts_upto_def)
      with Cons.prems(3) w show ?thesis by (simp add: recv_NAME)
    qed
    then have "returns (publishToIndexes ''NAME'' metadata e ixs s)"
      using publish_indexes_total[OF inv _ dist] inv_index[OF inv, of e] by (simp add: ixs)
    then obtain t ret where t: "publishToIndexes ''NAME'' metadata e ixs s = Inr (t, ret)"
      by (auto simp: returns_iff)
    have "\<not> ret \<and> t = ?t"
      using publish_indexes[OF t inv _ dist] inv_index[OF inv, of e] by (simp add: ixs)
    with IH t Some show ?thesis by (auto simp: returns_iff)
  qed
  then obtain s' where s': "publishEvents (e # es) ''NAME'' metadata s = Inr s'" by (auto simp: returns_iff)
  obtain t where "t = ?t" "publishEvents es ''NAME'' metadata t = Inr s'"
    using publishEvents_Cons[OF inv s'] .
  with IH have "counts_upto (n + int (length (e # es))) s'" by simp
  with s' show ?case by blast
qed

section \<open>When a subscriber is triggered\<close>

text \<open>The requirements of a wrapper as pairs, and the meaning of \<open>checkIfTriggure\<close>.\<close>

definition requirements :: "pubsubWrapper \<Rightarrow> (string \<times> int) set" where
  "requirements w = {(e, n). n \<in> set (map_at [] e (requiredeventMap w))}"

lemma in_map_at: "n \<in> set (map_at [] e m) \<longleftrightarrow> (\<exists>ns. map_of m e = Some ns \<and> n \<in> set ns)"
  by (cases "map_of m e") (simp_all add: map_at_def)

lemma checkIfTriggure_iff:
  assumes "wf_map (requiredeventMap w)"
  shows "checkIfTriggure w \<longleftrightarrow> (\<forall>(e, n) \<in> requirements w. map_of (publishedEvent w) e = Some n)"
proof -
  have "checkIfTriggure w \<longleftrightarrow>
      (\<forall>e ns. (e, ns) \<in> set (requiredeventMap w) \<longrightarrow> (\<forall>n \<in> set ns. map_of (publishedEvent w) e = Some n))"
    by (fastforce simp: checkIfTriggure_def list_all_iff split: option.splits)
  also have "\<dots> \<longleftrightarrow> (\<forall>e n. n \<in> set (map_at [] e (requiredeventMap w)) \<longrightarrow> map_of (publishedEvent w) e = Some n)"
    unfolding wf_map_entry[OF assms] in_map_at by blast
  finally show ?thesis by (auto simp: requirements_def)
qed

lemma requirements_subscribed: "requirements (subscribed c a ps mt meta) = set ps"
proof -
  have "map_at [] e ([] :: (string, int std_set) std_map) = []" for e by (simp add: map_at_def)
  then show ?thesis by (auto simp: requirements_def subscribed_def require_fold_at)
qed

lemma requirements_received [simp]: "requirements (received mt metadata e w) = requirements w"
  by (simp add: requirements_def received_keeps)

text \<open>A trace of publications, each an event and its metadata, as one subscriber sees it: the events
  that \<open>D\<close> selects are delivered.\<close>

definition hear :: "(string \<Rightarrow> bool) \<Rightarrow> string \<times> string \<Rightarrow> pubsubWrapper \<Rightarrow> pubsubWrapper" where
  "hear D p w = (if D (fst p) then received ''NAME'' (snd p) (fst p) w else w)"

definition heard :: "(string \<Rightarrow> bool) \<Rightarrow> (string \<times> string) list \<Rightarrow> pubsubWrapper \<Rightarrow> pubsubWrapper" where
  "heard D tr w = fold (hear D) tr w"

lemma heard_snoc [simp]: "heard D (tr @ [p]) w = hear D p (heard D tr w)"
  by (simp add: heard_def)

lemma heard_Nil [simp]: "heard D [] w = w"
  by (simp add: heard_def)

lemma heard_keeps:
  "requirements (heard D tr w) = requirements w"
  "requiredeventMap (heard D tr w) = requiredeventMap w"
  "clientID (heard D tr w) = clientID w" "peerURL (heard D tr w) = peerURL w"
  by (induction tr rule: rev_induct) (simp_all add: hear_def received_keeps)

text \<open>The counters of the wrapper count the delivered publications.\<close>

lemma heard_counts:
  assumes "publishedEvent w = []" and "int (length tr) \<le> INT_MAX"
  shows "map_of (publishedEvent (heard D tr w)) x =
    (if D x \<and> x \<in> set (map fst tr) then Some (int (count_list (map fst tr) x)) else None)"
  using assms
proof (induction tr arbitrary: x rule: rev_induct)
  case Nil
  then show ?case by simp
next
  case (snoc p tr)
  have "count_list (map fst tr) (fst p) \<le> length tr"
    using count_le_length[of "map fst tr" "fst p"] by simp
  moreover have "int (length tr) < INT_MAX" using snoc.prems(2) by simp
  ultimately have range: "0 \<le> map_at 0 (fst p) (publishedEvent (heard D tr w))"
      "map_at 0 (fst p) (publishedEvent (heard D tr w)) < INT_MAX"
    using snoc.IH[of "fst p"] snoc.prems by (auto simp: map_at_def INT_MAX_def)
  show ?case
    using snoc received_counts[OF range]
    by (cases "D (fst p)"; cases "x = fst p") (auto simp: hear_def map_at_def count_notin)
qed

lemma heard_flag:
  assumes "publishedEvent w = []" and "int (length tr) < INT_MAX" and "D (fst p)"
  shows "iftrigure (heard D (tr @ [p]) w) \<longleftrightarrow>
     iftrigure (heard D tr w) \<or> checkIfTriggure (bump (fst p) (heard D tr w))"
    and "publishedEvent (bump (fst p) (heard D tr w)) = publishedEvent (heard D (tr @ [p]) w)"
proof -
  have "count_list (map fst tr) (fst p) \<le> length tr"
    using count_le_length[of "map fst tr" "fst p"] by simp
  with assms(2) have range: "0 \<le> map_at 0 (fst p) (publishedEvent (heard D tr w))"
      "map_at 0 (fst p) (publishedEvent (heard D tr w)) < INT_MAX"
    using heard_counts[OF assms(1), of tr D "fst p"] by (auto simp: map_at_def INT_MAX_def)
  show "iftrigure (heard D (tr @ [p]) w) \<longleftrightarrow>
     iftrigure (heard D tr w) \<or> checkIfTriggure (bump (fst p) (heard D tr w))"
    using assms(3) by (simp add: hear_def received_NAME[OF range] mark_def bump_def)
  show "publishedEvent (bump (fst p) (heard D tr w)) = publishedEvent (heard D (tr @ [p]) w)"
    using assms(3) by (simp add: hear_def received_counts[OF range]) (simp add: bump_def)
qed

text \<open>The counts a subscription asks for, reached exactly by a list of publications.\<close>

definition exactly :: "(string \<times> int) set \<Rightarrow> string list \<Rightarrow> bool" where
  "exactly P es \<longleftrightarrow> (\<forall>(e, n) \<in> P. 0 < n \<and> int (count_list es e) = n)"

lemma exactlyD: "exactly P es \<Longrightarrow> (e, n) \<in> P \<Longrightarrow> 0 < n \<and> n = int (count_list es e)"
  by (force simp: exactly_def)

lemma counted_iff:
  "(if P \<and> x \<in> set es then Some (int (count_list es x)) else None) = Some n \<longleftrightarrow>
     P \<and> 0 < n \<and> int (count_list es x) = n"
  using count_list_0_iff[of es x] by auto

lemma heard_triggered_iff:
  assumes "publishedEvent w = []" and "\<not> iftrigure w" and "wf_map (requiredeventMap w)"
    and "requirements w \<noteq> {}" and "\<And>e n. (e, n) \<in> requirements w \<Longrightarrow> D e"
    and "int (length tr) \<le> INT_MAX"
  shows "iftrigure (heard D tr w) \<longleftrightarrow> (\<exists>k \<le> length tr. exactly (requirements w) (map fst (take k tr)))"
  using assms(6)
proof (induction tr rule: rev_induct)
  case Nil
  from assms(4) show ?case using assms(2) by (auto simp: exactly_def)
next
  case (snoc p tr)
  let ?Q = "\<lambda>tr. exactly (requirements w) (map fst tr)"
  have split: "(\<exists>k \<le> length (tr @ [p]). ?Q (take k (tr @ [p]))) \<longleftrightarrow>
      (\<exists>k \<le> length tr. ?Q (take k tr)) \<or> ?Q (tr @ [p])"
    by (auto simp: le_Suc_eq)
  have IH: "iftrigure (heard D tr w) \<longleftrightarrow> (\<exists>k \<le> length tr. ?Q (take k tr))"
    using snoc by simp
  show ?case
  proof (cases "D (fst p)")
    case True
    have len: "int (length tr) < INT_MAX" using snoc.prems by simp
    note flag = heard_flag[of w tr D p, OF assms(1) len True]
    have "wf_map (requiredeventMap (bump (fst p) (heard D tr w)))"
      and req: "requirements (bump (fst p) (heard D tr w)) = requirements w"
      using assms(3) heard_keeps[of D tr w] by (simp_all add: bump_def requirements_def)
    then have "checkIfTriggure (bump (fst p) (heard D tr w)) \<longleftrightarrow>
        (\<forall>(e, n) \<in> requirements w. map_of (publishedEvent (heard D (tr @ [p]) w)) e = Some n)"
      by (simp only: checkIfTriggure_iff req flag(2))
    also have "\<dots> \<longleftrightarrow> ?Q (tr @ [p])"
      unfolding heard_counts[OF assms(1) snoc.prems] counted_iff exactly_def
      using assms(5) by (intro ball_cong) auto
    finally show ?thesis unfolding split using flag(1) IH by simp
  next
    case False
    then have "?Q (tr @ [p]) \<longleftrightarrow> ?Q tr" using assms(5) by (fastforce simp: exactly_def)
    moreover have "\<not> D (fst p) \<Longrightarrow> heard D (tr @ [p]) w = heard D tr w" by (simp add: hear_def)
    ultimately show ?thesis unfolding split using IH False by auto
  qed
qed

text \<open>A subscriber hears a publication through the index: the registry after it, at one entry.\<close>

lemma publish_spec_heard:
  "publish_spec evs ''NAME'' metadata index R (ix, cl) =
     map_option (heard (\<lambda>e. ix \<in> index e) (map (\<lambda>e. (e, metadata)) evs)) (R (ix, cl))"
proof (induction evs arbitrary: R)
  case Nil
  then show ?case by (simp add: publish_spec_def heard_def option.map_ident)
next
  case (Cons e evs)
  have "publish_spec (e # evs) ''NAME'' metadata index R (ix, cl) =
      publish_spec evs ''NAME'' metadata index (publish_one ''NAME'' metadata index e R) (ix, cl)"
    by (simp add: publish_spec_def)
  then show ?case
    by (cases "R (ix, cl)") (simp_all add: Cons publish_one_def heard_def hear_def)
qed

text \<open>A run of publications, each a list of events with its metadata.\<close>

definition publishAll :: "(string list \<times> string) list \<Rightarrow> pubsub \<Rightarrow> pubsub res" where
  "publishAll pubs s = foldR (\<lambda>p. pubsubPublish (fst p) ''NAME'' (snd p)) pubs s"

definition trace_of :: "(string list \<times> string) list \<Rightarrow> (string \<times> string) list" where
  "trace_of pubs = concat (map (\<lambda>p. map (\<lambda>e. (e, snd p)) (fst p)) pubs)"

lemma publishAll_heard:
  assumes "publishAll pubs s = Inr s'" and "pubsub_inv s"
  shows "view s' (ix, cl) = map_option (heard (\<lambda>e. ix \<in> index_of s e) (trace_of pubs)) (view s (ix, cl))"
  using assms
proof (induction pubs arbitrary: s)
  case Nil
  then show ?case by (simp add: publishAll_def trace_of_def heard_def option.map_ident)
next
  case (Cons p pubs)
  from Cons.prems(1) obtain t where t: "pubsubPublish (fst p) ''NAME'' (snd p) s = Inr t"
    and rest: "publishAll pubs t = Inr s'"
    by (auto simp: publishAll_def bindR_eq_Inr)
  note step = publish_refines_aux[OF t Cons.prems(2)]
  then have "view s' (ix, cl) = map_option (heard (\<lambda>e. ix \<in> index_of s e) (trace_of pubs)) (view t (ix, cl))"
    using Cons.IH[OF rest] by simp
  then show ?case
    using step by (cases "view s (ix, cl)") (simp_all add: publish_spec_heard trace_of_def heard_def)
qed

lemma events_of_trace: "map fst (trace_of pubs) = concat (map fst pubs)"
  by (induction pubs) (simp_all add: trace_of_def comp_def)

lemma ParseEvents_not_Nil: "ParseEvents evs = Inr ps \<Longrightarrow> evs \<noteq> [] \<Longrightarrow> ps \<noteq> []"
  by (cases evs) (auto simp: bindR_eq_Inr)

text \<open>What a new subscriber has heard after a run of publications.\<close>

lemma subscriber_after_run:
  assumes inv: "pubsub_inv s" and evs: "evs \<noteq> []" "ParseEvents evs = Inr ps"
    and sub: "pubsubSubscribe evs cl a mt meta s = Inr s1" and run: "publishAll pubs s1 = Inr s2"
  defines "ix \<equiv> fst (hd ps)"
  obtains D where "view s2 (ix, cl) = Some (heard D (trace_of pubs) (subscribed cl a ps mt meta))"
    "\<And>e n. (e, n) \<in> set ps \<Longrightarrow> D e"
proof
  have s1: "s1 = enroll cl ix ps (subscribed cl a ps mt meta) s"
    using sub evs by (simp add: pubsubSubscribe_outcome ix_def)
  have "view s1 (ix, cl) = Some (subscribed cl a ps mt meta)"
    by (simp add: s1 view_def enroll_lookup2 enroll_heap)
  then show "view s2 (ix, cl) =
      Some (heard (\<lambda>e. ix \<in> index_of s1 e) (trace_of pubs) (subscribed cl a ps mt meta))"
    using publishAll_heard[OF run pubsubSubscribe_inv[OF inv sub]] by simp
  show "ix \<in> index_of s1 e" if "(e, n) \<in> set ps" for e n
    using that by (force simp: s1 enroll_index)
qed

lemma subscribed_fresh:
  "publishedEvent (subscribed cl a ps mt meta) = []" "\<not> iftrigure (subscribed cl a ps mt meta)"
  "wf_map (requiredeventMap (subscribed cl a ps mt meta))"
  using subscribed_wf[of cl a ps mt meta] by (simp_all add: subscribed_def wf_wrapper_def)

lemma subscriber_triggered_iff:
  assumes inv: "pubsub_inv s" and evs: "evs \<noteq> []" "ParseEvents evs = Inr ps"
    and sub: "pubsubSubscribe evs cl a mt meta s = Inr s1" and run: "publishAll pubs s1 = Inr s2"
    and len: "int (length (concat (map fst pubs))) \<le> INT_MAX"
  shows "\<exists>w. view s2 (fst (hd ps), cl) = Some w \<and>
     (iftrigure w \<longleftrightarrow> (\<exists>k \<le> length (concat (map fst pubs)).
        exactly (set ps) (take k (concat (map fst pubs)))))"
proof -
  let ?w = "subscribed cl a ps mt meta" and ?tr = "trace_of pubs"
  obtain D where v: "view s2 (fst (hd ps), cl) = Some (heard D ?tr ?w)"
    and D: "\<And>e n. (e, n) \<in> set ps \<Longrightarrow> D e"
    using subscriber_after_run[OF inv evs sub run] by metis
  have tl: "length ?tr = length (concat (map fst pubs))"
    by (metis events_of_trace length_map)
  have "iftrigure (heard D ?tr ?w) \<longleftrightarrow>
      (\<exists>k \<le> length ?tr. exactly (requirements ?w) (map fst (take k ?tr)))"
    using ParseEvents_not_Nil[OF evs(2,1)] D len tl
    by (intro heard_triggered_iff) (auto simp: subscribed_fresh requirements_subscribed)
  then show ?thesis
    unfolding requirements_subscribed take_map[symmetric] events_of_trace tl using v by blast
qed

section \<open>Runs of the registry\<close>

text \<open>Any sequence of the operations of the registry, as the handlers of the server issue them.\<close>

inductive pubsub_step :: "pubsub \<Rightarrow> pubsub \<Rightarrow> bool" where
  step_subscribe: "pubsubSubscribe evs cl a mt meta s = Inr s' \<Longrightarrow> pubsub_step s s'"
| step_publish: "pubsubPublish evs mt meta s = Inr s' \<Longrightarrow> pubsub_step s s'"
| step_unsubscribe: "pubsub_step s (eventUnSubscribe e cl s)"
| step_deleteClient: "pubsub_step s (deleteClient e cl s)"
| step_deletePubEvent: "deletePubEvent a s = Inr s' \<Longrightarrow> pubsub_step s s'"

inductive_cases pubsub_stepE: "pubsub_step s s'"

lemma pubsub_step_inv: "pubsub_inv s \<Longrightarrow> pubsub_step s s' \<Longrightarrow> pubsub_inv s'"
  by (erule pubsub_stepE)
     (auto intro: pubsubSubscribe_inv eventUnSubscribe_inv deleteClient_inv deletePubEvent_inv
        dest: publish_refines_aux)

interpretation registry: inv_system "\<lambda>s. s = pubsub_start" pubsub_step pubsub_inv
  by unfold_locales (auto simp: pubsub_inv_start intro: pubsub_step_inv)

section \<open>Properties\<close>

text \<open>C1: in every state the registry reaches from the empty one by subscriptions, publications,
  removals of clients and resets of counters, every wrapper pointer filed in \<open>subtoClient\<close> is live,
  belongs to the client it is filed under and to no other entry, and every event its subscriber
  requires is indexed to it: a publication of that event finds the subscriber.\<close>

theorem registry_sound:
  assumes "reach (\<lambda>s. s = pubsub_start) pubsub_step s" and "lookup2 s ix cl = Some a"
  shows "\<exists>w. heap s a = Some w \<and> clientID w = cl
      \<and> (\<forall>e \<in> dom (map_of (requiredeventMap w)). ix \<in> index_of s e)
      \<and> (\<forall>ix' cl'. lookup2 s ix' cl' = Some a \<longrightarrow> ix' = ix \<and> cl' = cl)"
  using inv_live[OF registry.inv_reach[OF assms(1)] assms(2)]
    inv_inj[OF registry.inv_reach[OF assms(1)] _ assms(2)] by blast

theorem registry_sound_witness:
  "\<exists>s. pubsubSubscribe [''a:2'', ''b''] ''c1'' ''addr'' ''NAME'' [] pubsub_start = Inr s
     \<and> lookup2 s ''a'' ''c1'' = Some 0
     \<and> (\<exists>w. heap s 0 = Some w \<and> (\<forall>e \<in> dom (map_of (requiredeventMap w)). ''a'' \<in> index_of s e))"
proof -
  have "returns (pubsubSubscribe [''a:2'', ''b''] ''c1'' ''addr'' ''NAME'' [] pubsub_start)"
    by code_simp
  then obtain s where s: "pubsubSubscribe [''a:2'', ''b''] ''c1'' ''addr'' ''NAME'' [] pubsub_start = Inr s"
    by (auto simp: returns_iff)
  have ps: "ParseEvents [''a:2'', ''b''] = Inr [(''a'', 2), (''b'', 1)]" by code_simp
  have "reach (\<lambda>s. s = pubsub_start) pubsub_step s"
    using s by (blast intro: reach_step reach_ini step_subscribe)
  moreover have "lookup2 s ''a'' ''c1'' = Some 0"
    using s by (auto simp: pubsubSubscribe_outcome ps enroll_lookup2 pubsub_start_def
        simp del: ParseEvents.simps)
  ultimately show ?thesis using registry_sound[of s "''a''" "''c1''" 0] s by blast
qed

text \<open>C16: publishing on the heap refines the pointer-free specification: from a well-formed registry
  \<open>pubsubPublish\<close> changes exactly the wrappers filed under the index events of the published events,
  each by \<open>recv\<close>, one event after the other; entries, index and invariant are kept, and the early
  return on a missing index event is never taken.\<close>

theorem pubsubPublish_refines:
  assumes "pubsub_inv s" and "pubsubPublish evs mt metadata s = Inr s'"
  shows "view s' = publish_spec evs mt metadata (index_of s) (view s)
    \<and> index_of s' = index_of s \<and> subtoClient s' = subtoClient s \<and> pubsub_inv s'"
  by (rule publish_refines_aux[OF assms(2,1)])

theorem pubsubPublish_refines_witness:
  "\<exists>s s'. pubsubSubscribe [''a:2'', ''b''] ''c1'' ''addr'' ''NAME'' [] pubsub_start = Inr s
     \<and> pubsubPublish [''b'', ''x''] ''NAME'' ''m'' s = Inr s'
     \<and> view s' = publish_spec [''b'', ''x''] ''NAME'' ''m'' (index_of s) (view s)"
proof -
  have "returns (bindR (pubsubSubscribe [''a:2'', ''b''] ''c1'' ''addr'' ''NAME'' [] pubsub_start)
      (pubsubPublish [''b'', ''x''] ''NAME'' ''m''))"
    by code_simp
  then obtain s s' where s: "pubsubSubscribe [''a:2'', ''b''] ''c1'' ''addr'' ''NAME'' [] pubsub_start = Inr s"
    and s': "pubsubPublish [''b'', ''x''] ''NAME'' ''m'' s = Inr s'"
    by (auto simp: returns_iff bindR_eq_Inr)
  from pubsubPublish_refines[OF pubsubSubscribe_inv[OF pubsub_inv_start s] s'] s s' show ?thesis by blast
qed

text \<open>C17: a publication by name always completes, with no undefined behaviour, while the counters
  leave room for its events below \<open>INT_MAX\<close>.\<close>

theorem pubsubPublish_NAME_completes:
  assumes "pubsub_inv s" and "counts_upto n s" and "n + int (length evs) \<le> INT_MAX"
  shows "\<exists>s'. pubsubPublish evs ''NAME'' metadata s = Inr s' \<and> counts_upto (n + int (length evs)) s'"
  by (rule publish_NAME_returns[OF assms])

theorem pubsubPublish_NAME_completes_witness:
  "\<exists>s'. pubsubPublish [''b'', ''x''] ''NAME'' ''m'' pubsub_start = Inr s' \<and> counts_upto 2 s'"
  using pubsubPublish_NAME_completes[of pubsub_start 0 "[''b'', ''x'']" "''m''"]
  by (simp add: pubsub_inv_start counts_upto_start INT_MAX_def)

text \<open>C2: when a subscriber is triggered. After a subscription that requires the pairs \<open>ps\<close> and any
  later run of publications by name, the trigger flag of the subscriber is set if and only if at
  some moment of the run every required event had been published exactly (not at least) the number
  of times required, all of them at the same moment.\<close>

theorem trigger_exact:
  assumes "pubsub_inv s" and "evs \<noteq> []" and "ParseEvents evs = Inr ps"
    and "pubsubSubscribe evs cl a mt meta s = Inr s1" and "publishAll pubs s1 = Inr s2"
    and "int (length (concat (map fst pubs))) \<le> INT_MAX"
  shows "\<exists>w. view s2 (fst (hd ps), cl) = Some w \<and>
     (iftrigure w \<longleftrightarrow> (\<exists>k \<le> length (concat (map fst pubs)).
        exactly (set ps) (take k (concat (map fst pubs)))))"
  by (rule subscriber_triggered_iff[OF assms])

theorem trigger_exact_witness:
  "\<exists>s1 s2 w. pubsubSubscribe [''a:2'', ''b''] ''c1'' ''addr'' ''NAME'' [] pubsub_start = Inr s1
     \<and> publishAll [([''a'', ''b''], ''m1''), ([''a''], ''m2'')] s1 = Inr s2
     \<and> view s2 (''a'', ''c1'') = Some w \<and> iftrigure w"
proof -
  let ?pubs = "[([''a'', ''b''], ''m1''), ([''a''], ''m2'')]"
  have "returns (bindR (pubsubSubscribe [''a:2'', ''b''] ''c1'' ''addr'' ''NAME'' [] pubsub_start)
      (publishAll ?pubs))"
    by code_simp
  then obtain s s' where s: "pubsubSubscribe [''a:2'', ''b''] ''c1'' ''addr'' ''NAME'' [] pubsub_start = Inr s"
    and s': "publishAll ?pubs s = Inr s'"
    by (auto simp: returns_iff bindR_eq_Inr)
  have ps: "ParseEvents [''a:2'', ''b''] = Inr [(''a'', 2), (''b'', 1)]" by code_simp
  have "exactly (set [(''a'', 2), (''b'', 1)]) (take 3 (concat (map fst ?pubs)))"
    by (simp add: exactly_def)
  then have "\<exists>k \<le> length (concat (map fst ?pubs)). exactly (set [(''a'', 2), (''b'', 1)]) (take k (concat (map fst ?pubs)))"
    by (intro exI[of _ 3]) simp
  then show ?thesis
    using trigger_exact[OF pubsub_inv_start _ ps s s'] s s' by (simp add: INT_MAX_def)
qed

text \<open>C35: the spatial trigger. For a published bounding box and a subscribed one, both in the format of
  the system with two coordinates and lower corners not above upper ones, \<open>checkIfTriggureMetaGrid\<close>
  answers true exactly when the two rectangles share a point.\<close>

theorem MetaGrid_overlap:
  assumes "\<forall>n \<in> {px, py, qx, qy, sx, sy, tx, ty}. is_int32 n"
    and "px \<le> qx" "py \<le> qy" "sx \<le> tx" "sy \<le> ty"
    and "subMetadata w = render_bbx [sx, sy] [tx, ty]"
  shows "checkIfTriggureMetaGrid w (render_meta (render_bbx [px, py] [qx, qy]) ts) =
    Inr (\<exists>x y. px \<le> x \<and> x \<le> qx \<and> py \<le> y \<and> y \<le> qy \<and> sx \<le> x \<and> x \<le> tx \<and> sy \<le> y \<and> y \<le> ty)"
proof -
  have pub: "getbbxfromGridMeta (render_bbx [px, py] [qx, qy]) = Inr ([px, py], [qx, qy])"
    and sub: "getbbxfromGridMeta (render_bbx [sx, sy] [tx, ty]) = Inr ([sx, sy], [tx, ty])"
    using assms(1) by (simp_all add: getbbx_render)
  have colon: "find_int (render_bbx [sx, sy] [tx, ty]) '':'' \<noteq> - 1"
    using render_corner_free[of "CHR '':''" "[sx, sy]"]
    by (simp add: render_bbx_def find_int_char not_digit_separators)
  have "(\<exists>x y. px \<le> x \<and> x \<le> qx \<and> py \<le> y \<and> y \<le> qy \<and> sx \<le> x \<and> x \<le> tx \<and> sy \<le> y \<and> y \<le> ty) \<longleftrightarrow>
      \<not> (sx > qx \<or> tx < px) \<and> \<not> (ty < py \<or> sy > qy)" (is "?L \<longleftrightarrow> ?R")
  proof
    assume ?R
    then have "px \<le> max px sx \<and> max px sx \<le> qx \<and> py \<le> max py sy \<and> max py sy \<le> qy \<and>
        sx \<le> max px sx \<and> max px sx \<le> tx \<and> sy \<le> max py sy \<and> max py sy \<le> ty"
      using assms(2-5) by auto
    then show ?L by blast
  qed auto
  then show ?thesis
    by (simp add: checkIfTriggureMetaGrid_def getGrid_render render_bbx_free pub sub colon
        assms(6) Let_def)
qed

theorem MetaGrid_overlap_witness:
  "checkIfTriggureMetaGrid (new_wrapper\<lparr>subMetadata := render_bbx [2, 2] [4, 4]\<rparr>)
     (render_meta (render_bbx [0, 0] [3, 3]) 1) = Inr True"
proof -
  have "\<exists>(x :: int) y :: int. 0 \<le> x \<and> x \<le> 3 \<and> 0 \<le> y \<and> y \<le> 3 \<and> 2 \<le> x \<and> x \<le> 4 \<and> 2 \<le> y \<and> y \<le> 4"
    by (intro exI[of _ "2 :: int"]) simp
  then show ?thesis
    using MetaGrid_overlap[of 0 0 3 3 2 2 4 4 "new_wrapper\<lparr>subMetadata := render_bbx [2, 2] [4, 4]\<rparr>" 1]
    by (simp add: is_int32_def INT_MIN_def INT_MAX_def)
qed

text \<open>Overshooting is for ever. Once a required event has been published more often than required
  while the subscriber is not triggered, no further publication by name triggers it: the counters
  are compared for equality although the header asks for equal or larger.\<close>

theorem overshoot_blocks:
  assumes "pubsub_inv s" and "evs \<noteq> []" and "ParseEvents evs = Inr ps"
    and "pubsubSubscribe evs cl a mt meta s = Inr s1"
    and "publishAll pubs s1 = Inr s2" and "view s2 (fst (hd ps), cl) = Some w" and "\<not> iftrigure w"
    and "(e, n) \<in> set ps" and "n < int (count_list (concat (map fst pubs)) e)"
    and "publishAll (pubs @ rest) s1 = Inr s3"
    and "int (length (concat (map fst (pubs @ rest)))) \<le> INT_MAX"
  shows "\<exists>v. view s3 (fst (hd ps), cl) = Some v \<and> \<not> iftrigure v"
proof -
  let ?es = "concat (map fst pubs)" and ?fs = "concat (map fst rest)"
  from subscriber_triggered_iff[OF assms(1-5)] assms(6,7,11)
  have before: "\<not> exactly (set ps) (take k ?es)" if "k \<le> length ?es" for k
    using that by auto
  have "\<not> exactly (set ps) (take k (?es @ ?fs))" for k
  proof (cases "k \<le> length ?es")
    case True
    then show ?thesis using before by simp
  next
    case False
    then have "count_list ?es e \<le> count_list (take k (?es @ ?fs)) e" by simp
    with assms(8,9) show ?thesis by (force simp: exactly_def)
  qed
  then show ?thesis
    using subscriber_triggered_iff[OF assms(1-4,10,11)] by auto
qed

theorem overshoot_blocks_witness:
  "\<exists>s1 s3 v. pubsubSubscribe [''a'', ''b''] ''c1'' ''addr'' ''NAME'' [] pubsub_start = Inr s1
     \<and> publishAll ([([''a'', ''a''], ''m'')] @ [([''b''], ''m'')]) s1 = Inr s3
     \<and> view s3 (''a'', ''c1'') = Some v \<and> \<not> iftrigure v"
proof -
  let ?sub = "pubsubSubscribe [''a'', ''b''] ''c1'' ''addr'' ''NAME'' [] pubsub_start"
  let ?p = "[([''a'', ''a''], ''m'')]" and ?q = "[([''b''], ''m'')]"
  have ps: "ParseEvents [''a'', ''b''] = Inr [(''a'', 1), (''b'', 1)]" by code_simp
  have "returns (bindR ?sub (publishAll (?p @ ?q)))"
    and "(case bindR ?sub (publishAll ?p) of Inl _ \<Rightarrow> False
       | Inr s2 \<Rightarrow> (case view s2 (''a'', ''c1'') of None \<Rightarrow> False | Some w \<Rightarrow> \<not> iftrigure w))"
    by code_simp+
  then obtain s1 s2 s3 w where s: "?sub = Inr s1" "publishAll ?p s1 = Inr s2"
      "publishAll (?p @ ?q) s1 = Inr s3" "view s2 (''a'', ''c1'') = Some w" "\<not> iftrigure w"
    by (auto simp: returns_iff bindR_eq_Inr split: sum.splits option.splits)
  have "\<exists>v. view s3 (fst (hd [(''a'', 1 :: int), (''b'', 1)]), ''c1'') = Some v \<and> \<not> iftrigure v"
    by (rule overshoot_blocks[OF pubsub_inv_start _ ps s(1,2) _ s(5) _ _ s(3), of "''a''" 1])
       (simp_all add: s INT_MAX_def)
  with s show ?thesis by auto
qed

text \<open>A subscription that names one event with two different numbers never fires: the two
  requirements are kept side by side and cannot be met by one counter.\<close>

theorem conflicting_never_triggers:
  assumes "pubsub_inv s" and "evs \<noteq> []" and "ParseEvents evs = Inr ps"
    and "pubsubSubscribe evs cl a mt meta s = Inr s1" and "publishAll pubs s1 = Inr s2"
    and "int (length (concat (map fst pubs))) \<le> INT_MAX"
    and "(e, m) \<in> set ps" and "(e, n) \<in> set ps" and "m \<noteq> n"
  shows "\<exists>w. view s2 (fst (hd ps), cl) = Some w \<and> \<not> iftrigure w"
proof -
  have "\<not> exactly (set ps) es" for es using assms(7-9) by (auto dest: exactlyD)
  then show ?thesis using subscriber_triggered_iff[OF assms(1-6)] by auto
qed

theorem conflicting_never_triggers_witness:
  "\<exists>s1 s2 w. pubsubSubscribe [''a:1'', ''a:2''] ''c1'' ''addr'' ''NAME'' [] pubsub_start = Inr s1
     \<and> publishAll [([''a''], ''m''), ([''a''], ''m'')] s1 = Inr s2
     \<and> view s2 (''a'', ''c1'') = Some w \<and> \<not> iftrigure w"
proof -
  let ?sub = "pubsubSubscribe [''a:1'', ''a:2''] ''c1'' ''addr'' ''NAME'' [] pubsub_start"
  let ?p = "[([''a''], ''m''), ([''a''], ''m'')]"
  have ps: "ParseEvents [''a:1'', ''a:2''] = Inr [(''a'', 1), (''a'', 2)]" by code_simp
  have "returns (bindR ?sub (publishAll ?p))" by code_simp
  then obtain s1 s2 where s: "?sub = Inr s1" "publishAll ?p s1 = Inr s2"
    by (auto simp: returns_iff bindR_eq_Inr)
  have "\<exists>w. view s2 (fst (hd [(''a'', 1 :: int), (''a'', 2)]), ''c1'') = Some w \<and> \<not> iftrigure w"
    by (rule conflicting_never_triggers[OF pubsub_inv_start _ ps s, of "''a''" 1 2])
       (simp_all add: INT_MAX_def)
  with s show ?thesis by auto
qed

text \<open>Parsing an event string: \<open>message\<close> means one publication, \<open>message:num\<close> means \<open>num\<close>, and a
  string of colons only (the empty one too) reads the first element of an empty vector.\<close>

theorem ParseEvent_cases:
  "(m \<noteq> [] \<and> CHR '':'' \<notin> set m \<longrightarrow> ParseEvent m = Inr (m, 1))
   \<and> (m \<noteq> [] \<and> CHR '':'' \<notin> set m \<and> is_int32 n \<longrightarrow> ParseEvent (m @ '':'' @ to_string n) = Inr (m, n))
   \<and> ((\<forall>c \<in> set m. c = CHR '':'') \<longrightarrow> ParseEvent m = Inl (Undefined Vector_index))"
proof (intro conjI impI)
  assume "m \<noteq> [] \<and> CHR '':'' \<notin> set m"
  then show "ParseEvent m = Inr (m, 1)"
    using split_join[of "[m]" "CHR '':''"] by (simp add: ParseEvent_def)
next
  assume m: "m \<noteq> [] \<and> CHR '':'' \<notin> set m \<and> is_int32 n"
  have "CHR '':'' \<notin> set (to_string n)" by (rule to_string_free) (auto simp: not_digit_separators)
  then show "ParseEvent (m @ '':'' @ to_string n) = Inr (m, n)"
    using m split_join[of "[m, to_string n]" "CHR '':''"]
    by (simp add: ParseEvent_def to_string_nonempty stoi_to_string)
next
  assume "\<forall>c \<in> set m. c = CHR '':''"
  then have "split m '':'' = []" by (simp add: split_empty_iff)
  then show "ParseEvent m = Inl (Undefined Vector_index)" by (simp add: ParseEvent_def)
qed

theorem ParseEvent_cases_witness:
  "ParseEvent ''ev'' = Inr (''ev'', 1) \<and> ParseEvent (''ev'' @ '':'' @ to_string 12) = Inr (''ev'', 12)
    \<and> ParseEvent [] = Inl (Undefined Vector_index)"
  using ParseEvent_cases[of "''ev''" 12] ParseEvent_cases[of "[]" 0]
  by (simp add: is_int32_def INT_MIN_def INT_MAX_def)

end
