(* ===== verification/OsFiles.thy ===== *)
theory OsFiles
  imports StdContainers
begin

text \<open>
  The file system and the descriptor table of a process, as far as the program uses them: the servers
  find each other through directories of files named after addresses, and lock through a file. A
  path is a string as the program builds it; a directory holds the sequence \<open>readdir\<close> returns,
  with its entries \<open>.\<close> and \<open>..\<close>. A call fails for the reasons written out here (a missing or existing
  path, a missing parent, a full descriptor table), not for lack of permission or space.
\<close>

datatype fnode = DirNode "string list" | FileNode string

record os =
  files :: "string \<rightharpoonup> fnode"
  fds :: "nat list"   \<comment> \<open>the open descriptors\<close>
  fdLimit :: nat      \<comment> \<open>\<open>RLIMIT_NOFILE\<close>\<close>

section \<open>Paths\<close>

definition base_name :: "string \<Rightarrow> string" where
  "base_name p = rev (takeWhile (\<lambda>c. c \<noteq> CHR ''/'') (rev p))"

definition dir_name :: "string \<Rightarrow> string" where
  "dir_name p = (let r = dropWhile (\<lambda>c. c \<noteq> CHR ''/'') (rev p) in if r = [] then ''.'' else rev (tl r))"

lemma path_parts:
  assumes "CHR ''/'' \<notin> set name"
  shows "base_name (dir @ ''/'' @ name) = name" and "dir_name (dir @ ''/'' @ name) = dir"
proof -
  have all: "\<forall>c \<in> set (rev name). c \<noteq> CHR ''/''" using assms by auto
  have "takeWhile (\<lambda>c. c \<noteq> CHR ''/'') (rev name @ CHR ''/'' # rev dir) = rev name"
    using all by (subst takeWhile_append2) auto
  then show "base_name (dir @ ''/'' @ name) = name" by (simp add: base_name_def)
  have "dropWhile (\<lambda>c. c \<noteq> CHR ''/'') (rev name @ CHR ''/'' # rev dir) = CHR ''/'' # rev dir"
    using all by (subst dropWhile_append2) auto
  then show "dir_name (dir @ ''/'' @ name) = dir" by (simp add: dir_name_def Let_def)
qed

section \<open>System calls\<close>

definition can_open :: "os \<Rightarrow> bool" where
  "can_open s \<longleftrightarrow> length (fds s) < fdLimit s"

definition is_dir :: "string \<Rightarrow> os \<Rightarrow> bool" where
  "is_dir p s \<longleftrightarrow> (case files s p of Some (DirNode _) \<Rightarrow> True | _ \<Rightarrow> False)"

text \<open>The lowest descriptor not in use.\<close>

definition lowest_fd :: "os \<Rightarrow> nat" where
  "lowest_fd s = hd (filter (\<lambda>n. n \<notin> set (fds s)) [0..<Suc (length (fds s))])"

text \<open>A new entry in the directory of a path, and its removal.\<close>

definition link :: "string \<Rightarrow> fnode \<Rightarrow> (string \<rightharpoonup> fnode) \<Rightarrow> (string \<rightharpoonup> fnode)" where
  "link p n f =
     (case f (dir_name p) of
        Some (DirNode es) \<Rightarrow> (f(dir_name p \<mapsto> DirNode (es @ [base_name p])))(p \<mapsto> n)
      | _ \<Rightarrow> f)"

definition unlink :: "string \<Rightarrow> (string \<rightharpoonup> fnode) \<Rightarrow> (string \<rightharpoonup> fnode)" where
  "unlink p f =
     (case f (dir_name p) of
        Some (DirNode es) \<Rightarrow> (f(dir_name p \<mapsto> DirNode (remove1 (base_name p) es)))(p := None)
      | _ \<Rightarrow> f(p := None))"

text \<open>\<open>open(path, O_CREAT | O_EXCL, 0666)\<close>: the descriptor, or \<open>-1\<close>.\<close>

definition open_excl :: "string \<Rightarrow> os \<Rightarrow> int \<times> os" where
  "open_excl p s =
     (if \<not> can_open s \<or> files s p \<noteq> None \<or> \<not> is_dir (dir_name p) s then (- 1, s)
      else (int (lowest_fd s), s\<lparr>files := link p (FileNode []) (files s), fds := fds s @ [lowest_fd s]\<rparr>))"

text \<open>Opening a file for writing, replacing its content by \<open>content\<close>, and closing it: \<open>std::ofstream\<close>
  or \<open>fopen(path, "w")\<close> with \<open>fclose\<close>. The flag says whether the file could be opened.\<close>

definition write_file :: "string \<Rightarrow> string \<Rightarrow> os \<Rightarrow> bool \<times> os" where
  "write_file p content s =
     (if \<not> can_open s then (False, s)
      else case files s p of
        Some (DirNode _) \<Rightarrow> (False, s)
      | Some (FileNode _) \<Rightarrow> (True, s\<lparr>files := (files s)(p \<mapsto> FileNode content)\<rparr>)
      | None \<Rightarrow> (if is_dir (dir_name p) s then (True, s\<lparr>files := link p (FileNode content) (files s)\<rparr>)
                 else (False, s)))"

definition read_file :: "string \<Rightarrow> os \<Rightarrow> string" where
  "read_file p s = (case files s p of Some (FileNode c) \<Rightarrow> if can_open s then c else [] | _ \<Rightarrow> [])"

text \<open>\<open>remove(path)\<close>: a file, or an empty directory; the flag is the return value 0.\<close>

definition remove_path :: "string \<Rightarrow> os \<Rightarrow> bool \<times> os" where
  "remove_path p s =
     (case files s p of
        None \<Rightarrow> (False, s)
      | Some (FileNode _) \<Rightarrow> (True, s\<lparr>files := unlink p (files s)\<rparr>)
      | Some (DirNode es) \<Rightarrow> (if set es \<subseteq> {''.'', ''..''} then (True, s\<lparr>files := unlink p (files s)\<rparr>)
                         else (False, s)))"

definition mkdir :: "string \<Rightarrow> os \<Rightarrow> bool \<times> os" where
  "mkdir p s =
     (if files s p \<noteq> None \<or> \<not> is_dir (dir_name p) s then (False, s)
      else (True, s\<lparr>files := link p (DirNode [''.'', ''..'']) (files s)\<rparr>))"

text \<open>\<open>opendir\<close> and \<open>readdir\<close> to the end: \<open>None\<close> is the null pointer.\<close>

definition open_dir :: "string \<Rightarrow> os \<Rightarrow> string list option" where
  "open_dir p s = (case files s p of Some (DirNode es) \<Rightarrow> if can_open s then Some es else None | _ \<Rightarrow> None)"

text \<open>Opening a path for reading with \<open>fstream\<close>.\<close>

definition opens :: "string \<Rightarrow> os \<Rightarrow> bool" where
  "opens p s \<longleftrightarrow> files s p \<noteq> None \<and> can_open s"

section \<open>Lemmas\<close>

lemma lowest_fd_fresh: "lowest_fd s \<notin> set (fds s)"
proof -
  let ?l = "filter (\<lambda>n. n \<notin> set (fds s)) [0..<Suc (length (fds s))]"
  have "?l \<noteq> []"
  proof
    assume "?l = []"
    then have "{0..<Suc (length (fds s))} \<subseteq> set (fds s)" by (auto simp: filter_empty_conv simp del: upt_Suc)
    then have "Suc (length (fds s)) \<le> card (set (fds s))"
      using card_mono[of "set (fds s)" "{0..<Suc (length (fds s))}"] by simp
    then show False using card_length[of "fds s"] by simp
  qed
  then show ?thesis using hd_in_set[of ?l] by (simp add: lowest_fd_def del: upt_Suc)
qed

lemma lowest_fd_zero: "0 \<notin> set (fds s) \<Longrightarrow> lowest_fd s = 0"
  by (simp add: lowest_fd_def upt_conv_Cons del: upt_Suc)

lemma lowest_fd_pos: "0 \<in> set (fds s) \<Longrightarrow> 0 < lowest_fd s"
  using lowest_fd_fresh[of s] by (cases "lowest_fd s") auto

lemma base_not_dir: "dir_name p \<noteq> p \<Longrightarrow> link p n f p = (if \<exists>es. f (dir_name p) = Some (DirNode es) then Some n else f p)"
  by (auto simp: link_def split: option.splits fnode.splits)

lemma unlink_self [simp]: "unlink p f p = None"
  by (auto simp: unlink_def split: option.splits fnode.splits)

lemma link_other:
  "q \<noteq> p \<Longrightarrow> q \<noteq> dir_name p \<Longrightarrow> link p n f q = f q"
  by (auto simp: link_def split: option.splits fnode.splits)

lemma unlink_other:
  "q \<noteq> p \<Longrightarrow> q \<noteq> dir_name p \<Longrightarrow> unlink p f q = f q"
  by (auto simp: unlink_def split: option.splits fnode.splits)

lemma is_dir_iff: "is_dir p s \<longleftrightarrow> (\<exists>es. files s p = Some (DirNode es))"
  by (auto simp: is_dir_def split: option.splits fnode.splits)

end
