(* ===== verification/Dlm.thy ===== *)
theory Dlm
  imports OsFiles
begin

text \<open>
  The lock between server processes, \<open>src/src/utils/dlm/dlm.cc\<close>: a file created exclusively in the
  directory to be locked. The operations are functions on the state of the operating system; the
  waiting loop of \<open>getLock\<close> is a partial function, because it never ends while the lock is taken. The
  interleaving of several processes is the step relation \<open>dlm_step\<close>, in which every system call is
  one step.
\<close>

section \<open>Operations\<close>

definition lockFileName :: string where
  "lockFileName = ''fileLock''"

definition lock_path :: "string \<Rightarrow> string" where
  "lock_path Dir = Dir @ ''/'' @ lockFileName"

text \<open>The descriptor that \<open>open\<close> returned is compared with 0 and dropped; it is never closed.\<close>

definition atomicCreate :: "string \<Rightarrow> os \<Rightarrow> bool \<times> os" where
  "atomicCreate filePath s = (let (rvalue, s') = open_excl filePath s in (rvalue > 0, s'))"

partial_function (option) getLock :: "string \<Rightarrow> string \<Rightarrow> os \<Rightarrow> os option" where
  "getLock Dir identity s =
     (case atomicCreate (lock_path Dir) s of
        (ifExist, s') \<Rightarrow>
          if \<not> ifExist then getLock Dir identity s'
          else Some (snd (write_file (lock_path Dir) identity s')))"

text \<open>The content is read for the log only.\<close>

definition releaseLock :: "string \<Rightarrow> os \<Rightarrow> os" where
  "releaseLock Dir s = snd (remove_path (lock_path Dir) s)"

definition createFile :: "string \<Rightarrow> os \<Rightarrow> os option" where
  "createFile FileName s =
     (case getLock ''testDir'' FileName s of
        None \<Rightarrow> None
      | Some s1 \<Rightarrow>
          (let s2 = snd (write_file (''testDir/'' @ FileName) (''test file'' @ [CHR 0x0A]) s1)
           in Some (releaseLock ''testDir'' s2)))"

section \<open>Several processes\<close>

text \<open>Where a process is: outside, in the loop of \<open>getLock\<close>, between the creation of the file and the
  write of its identity, or holding the lock. Each process has its own descriptor table.\<close>

datatype pc = Outside | Trying string | Created string | Holding string

record dlm =
  tree :: "string \<rightharpoonup> fnode"
  table :: "nat \<Rightarrow> nat list"
  limit :: nat
  at :: "nat \<Rightarrow> pc"

definition os_of :: "nat \<Rightarrow> dlm \<Rightarrow> os" where
  "os_of p d = \<lparr>files = tree d, fds = table d p, fdLimit = limit d\<rparr>"

definition put_os :: "nat \<Rightarrow> os \<Rightarrow> pc \<Rightarrow> dlm \<Rightarrow> dlm" where
  "put_os p s c d = d\<lparr>tree := files s, table := (table d)(p := fds s), at := (at d)(p := c)\<rparr>"

inductive dlm_step :: "dlm \<Rightarrow> dlm \<Rightarrow> bool" where
  dlm_begin: "at d p = Outside \<Longrightarrow> dlm_step d (put_os p (os_of p d) (Trying Dir) d)"
| dlm_create: "at d p = Trying Dir \<Longrightarrow> atomicCreate (lock_path Dir) (os_of p d) = (True, s) \<Longrightarrow>
    dlm_step d (put_os p s (Created Dir) d)"
| dlm_retry: "at d p = Trying Dir \<Longrightarrow> atomicCreate (lock_path Dir) (os_of p d) = (False, s) \<Longrightarrow>
    dlm_step d (put_os p s (Trying Dir) d)"
| dlm_identify: "at d p = Created Dir \<Longrightarrow>
    dlm_step d (put_os p (snd (write_file (lock_path Dir) identity (os_of p d))) (Holding Dir) d)"
| dlm_release: "at d p = Holding Dir \<Longrightarrow>
    dlm_step d (put_os p (releaseLock Dir (os_of p d)) Outside d)"

inductive_cases dlm_stepE: "dlm_step d d'"

text \<open>No lock is taken at first, and every process was started with its standard input open.\<close>

definition dlm_ini :: "dlm \<Rightarrow> bool" where
  "dlm_ini d \<longleftrightarrow> (\<forall>p. at d p = Outside \<and> 0 \<in> set (table d p)) \<and> (\<forall>Dir. tree d (lock_path Dir) = None)"

definition inside :: "dlm \<Rightarrow> nat \<Rightarrow> string \<Rightarrow> bool" where
  "inside d p Dir \<longleftrightarrow> at d p = Created Dir \<or> at d p = Holding Dir"

text \<open>A process is inside exactly when the lock file is there, and then it is the only one.\<close>

definition dlm_inv :: "dlm \<Rightarrow> bool" where
  "dlm_inv d \<longleftrightarrow> (\<forall>p. 0 \<in> set (table d p))
     \<and> (\<forall>Dir. (case tree d (lock_path Dir) of None \<Rightarrow> \<forall>p. \<not> inside d p Dir
               | Some (FileNode _) \<Rightarrow> \<exists>!p. inside d p Dir | Some (DirNode _) \<Rightarrow> False))"

section \<open>Lemmas\<close>

lemma lock_path_parts [simp]: "base_name (lock_path Dir) = lockFileName" "dir_name (lock_path Dir) = Dir"
  using path_parts[of lockFileName Dir] by (simp_all add: lock_path_def lockFileName_def)

lemma lock_path_inj [simp]: "lock_path D = lock_path E \<longleftrightarrow> D = E"
  by (simp add: lock_path_def)

lemma lock_path_longer: "lock_path D \<noteq> D"
  by (simp add: lock_path_def)

lemma atomicCreate_True:
  assumes "atomicCreate (lock_path D) s = (True, s')"
  shows "files s (lock_path D) = None" "\<exists>es. files s D = Some (DirNode es)" "can_open s"
    "files s' = link (lock_path D) (FileNode []) (files s)" "fds s' = fds s @ [lowest_fd s]"
  using assms by (auto simp: atomicCreate_def open_excl_def is_dir_iff split: if_splits)

lemma atomicCreate_False:
  assumes "atomicCreate (lock_path D) s = (False, s')" and "0 \<in> set (fds s)"
  shows "s' = s"
  using assms lowest_fd_pos[of s] by (auto simp: atomicCreate_def open_excl_def split: if_splits)

lemma write_lock:
  "files s (lock_path D) = Some (FileNode c) \<Longrightarrow>
   files (snd (write_file (lock_path D) identity s)) =
     (if can_open s then (files s)(lock_path D \<mapsto> FileNode identity) else files s)
   \<and> fds (snd (write_file (lock_path D) identity s)) = fds s"
  by (simp add: write_file_def)

lemma release_files:
  "files s (lock_path D) = Some (FileNode c) \<Longrightarrow>
   files (releaseLock D s) = unlink (lock_path D) (files s) \<and> fds (releaseLock D s) = fds s"
  by (simp add: releaseLock_def remove_path_def)

lemma os_of_sel [simp]: "files (os_of p d) = tree d" "fds (os_of p d) = table d p" "fdLimit (os_of p d) = limit d"
  by (simp_all add: os_of_def)

lemma put_os_sel [simp]: "tree (put_os p s c d) = files s" "table (put_os p s c d) = (table d)(p := fds s)"
  "at (put_os p s c d) = (at d)(p := c)" "limit (put_os p s c d) = limit d"
  by (simp_all add: put_os_def)

text \<open>The invariant, directory by directory.\<close>

definition dlm_ok :: "dlm \<Rightarrow> string \<Rightarrow> bool" where
  "dlm_ok d D \<longleftrightarrow> (case tree d (lock_path D) of None \<Rightarrow> \<forall>p. \<not> inside d p D
               | Some (FileNode _) \<Rightarrow> \<exists>!p. inside d p D | Some (DirNode _) \<Rightarrow> False)"

lemma dlm_ok_iff: "dlm_ok d D \<longleftrightarrow> tree d (lock_path D) = None \<and> (\<forall>p. \<not> inside d p D)
    \<or> (\<exists>c. tree d (lock_path D) = Some (FileNode c)) \<and> (\<exists>!p. inside d p D)"
  by (auto simp: dlm_ok_def split: option.splits fnode.splits)

lemma dlm_inv_iff: "dlm_inv d \<longleftrightarrow> (\<forall>p. 0 \<in> set (table d p)) \<and> (\<forall>D. dlm_ok d D)"
  by (simp add: dlm_inv_def dlm_ok_def)

lemma dlm_ok_locked: "dlm_ok d D \<Longrightarrow> inside d p D \<Longrightarrow> \<exists>c. tree d (lock_path D) = Some (FileNode c)"
  by (auto simp: dlm_ok_def split: option.splits fnode.splits)

lemma inside_put: "inside (put_os p s c d) q E \<longleftrightarrow>
    (if q = p then c = Created E \<or> c = Holding E else inside d q E)"
  by (auto simp: inside_def)

text \<open>A step of \<open>p\<close> on the lock of \<open>D\<close> that leaves other locks and the other processes alone.\<close>

lemma dlm_ok_other:
  assumes "dlm_ok d E" and "files s (lock_path E) = tree d (lock_path E)"
    and "inside d p E \<longleftrightarrow> c = Created E \<or> c = Holding E"
  shows "dlm_ok (put_os p s c d) E"
proof -
  have "inside (put_os p s c d) q E \<longleftrightarrow> inside d q E" for q
    using assms(3) by (auto simp: inside_put)
  with assms(1,2) show ?thesis unfolding dlm_ok_iff by simp
qed

lemma dlm_inv_begin: "dlm_inv d \<Longrightarrow> at d p = Outside \<Longrightarrow> dlm_inv (put_os p (os_of p d) (Trying D) d)"
  by (auto simp: dlm_inv_iff inside_def intro!: dlm_ok_other)

lemma dlm_inv_retry:
  assumes "dlm_inv d" and "at d p = Trying D" and "atomicCreate (lock_path D) (os_of p d) = (False, s)"
  shows "dlm_inv (put_os p s (Trying D) d)"
proof -
  have "s = os_of p d" using atomicCreate_False[OF assms(3)] assms(1) by (simp add: dlm_inv_iff)
  with assms show ?thesis by (auto simp: dlm_inv_iff inside_def intro!: dlm_ok_other)
qed

lemma dlm_inv_create:
  assumes inv: "dlm_inv d" and p: "at d p = Trying D"
    and create: "atomicCreate (lock_path D) (os_of p d) = (True, s)"
  shows "dlm_inv (put_os p s (Created D) d)"
proof -
  note c = atomicCreate_True[OF create, simplified]
  from c(2) obtain es where es: "tree d D = Some (DirNode es)" by blast
  have "dlm_ok (put_os p s (Created D) d) E" for E
  proof (cases "E = D")
    case True
    have "\<not> inside d q D" for q using inv c(1) unfolding dlm_inv_iff dlm_ok_iff by (metis option.distinct(1))
    moreover have "files s (lock_path D) = Some (FileNode [])"
      using es by (simp add: c(4) base_not_dir lock_path_longer[symmetric])
    ultimately show ?thesis by (auto simp: True dlm_ok_def inside_put)
  next
    case False
    have ok: "dlm_ok d E" using inv by (simp add: dlm_inv_iff)
    then have "lock_path E \<noteq> D" using es by (auto simp: dlm_ok_def)
    with False have "files s (lock_path E) = tree d (lock_path E)" by (simp add: c(4) link_other)
    with ok p False show ?thesis by (intro dlm_ok_other) (auto simp: inside_def)
  qed
  with inv show ?thesis by (simp add: dlm_inv_iff c(5))
qed

lemma dlm_inv_identify:
  assumes inv: "dlm_inv d" and p: "at d p = Created D"
  shows "dlm_inv (put_os p (snd (write_file (lock_path D) i (os_of p d))) (Holding D) d)"
proof -
  obtain c where "tree d (lock_path D) = Some (FileNode c)"
    using dlm_ok_locked[of d D p] inv p by (auto simp: dlm_inv_iff inside_def)
  then have w: "files (snd (write_file (lock_path D) i (os_of p d))) =
      (if can_open (os_of p d) then (tree d)(lock_path D \<mapsto> FileNode i) else tree d)"
    "fds (snd (write_file (lock_path D) i (os_of p d))) = table d p"
    using write_lock[of "os_of p d" D c i] by simp_all
  let ?d = "put_os p (snd (write_file (lock_path D) i (os_of p d))) (Holding D) d"
  have "inside ?d q E \<longleftrightarrow> inside d q E" for q E using p by (auto simp: inside_put inside_def)
  moreover have "tree ?d (lock_path E) = tree d (lock_path E) \<or>
      E = D \<and> tree ?d (lock_path D) = Some (FileNode i)" for E
    by (auto simp: w)
  ultimately have "dlm_ok ?d E" for E
    using inv \<open>tree d (lock_path D) = Some (FileNode c)\<close> unfolding dlm_inv_iff dlm_ok_iff
    by (metis option.distinct(1))
  with inv show ?thesis by (simp add: dlm_inv_iff w)
qed

lemma dlm_inv_release:
  assumes inv: "dlm_inv d" and p: "at d p = Holding D"
  shows "dlm_inv (put_os p (releaseLock D (os_of p d)) Outside d)" (is "dlm_inv ?d")
proof -
  have ins: "inside d p D" using p by (simp add: inside_def)
  with inv obtain c where c: "tree d (lock_path D) = Some (FileNode c)"
    unfolding dlm_inv_iff using dlm_ok_locked by blast
  then have r: "files (releaseLock D (os_of p d)) = unlink (lock_path D) (tree d)"
    "fds (releaseLock D (os_of p d)) = table d p"
    using release_files[of "os_of p d" D c] by simp_all
  have "dlm_ok ?d E" for E
  proof (cases "E = D")
    case True
    have "\<exists>!q. inside d q D" using inv c unfolding dlm_inv_iff dlm_ok_iff by (metis option.distinct(1))
    with ins have "\<not> inside d q D" if "q \<noteq> p" for q using that by blast
    then show ?thesis by (auto simp: True dlm_ok_def r inside_put)
  next
    case False
    have ok: "dlm_ok d E" using inv by (simp add: dlm_inv_iff)
    have "unlink (lock_path D) (tree d) (lock_path E) = tree d (lock_path E)"
    proof (cases "lock_path E = D")
      case True
      with ok have "\<not> (\<exists>es. tree d D = Some (DirNode es))" by (auto simp: dlm_ok_def split: option.splits)
      with False show ?thesis by (auto simp: unlink_def split: option.splits fnode.splits)
    qed (simp add: False unlink_other)
    with ok p False show ?thesis by (intro dlm_ok_other) (auto simp: r inside_def)
  qed
  with inv show ?thesis by (simp add: dlm_inv_iff r)
qed

lemma dlm_inv_step: "dlm_inv d \<Longrightarrow> dlm_step d d' \<Longrightarrow> dlm_inv d'"
  by (erule dlm_stepE)
     (auto intro: dlm_inv_begin dlm_inv_create dlm_inv_retry dlm_inv_identify dlm_inv_release)

lemma dlm_inv_ini: "dlm_ini d \<Longrightarrow> dlm_inv d"
  by (simp add: dlm_ini_def dlm_inv_def inside_def)

interpretation dlm: inv_system dlm_ini dlm_step dlm_inv
  by unfold_locales (auto intro: dlm_inv_ini dlm_inv_step)

text \<open>In an unchanging environment the loop returns exactly when its first attempt succeeds.\<close>

lemma getLock_returns:
  assumes "getLock D i s = Some s'" and "0 \<in> set (fds s)"
  shows "fst (atomicCreate (lock_path D) s)"
proof -
  have "0 \<in> set (fds s) \<longrightarrow> fst (atomicCreate (lock_path D) s)"
  proof (rule getLock.raw_induct[where P = "\<lambda>D i s _. 0 \<in> set (fds s) \<longrightarrow> fst (atomicCreate (lock_path D) s)",
        OF _ assms(1)])
    fix rec :: "string \<Rightarrow> string \<Rightarrow> os \<Rightarrow> os option" and E j t t'
    assume IH: "\<And>E j t t'. rec E j t = Some t' \<Longrightarrow> 0 \<in> set (fds t) \<longrightarrow> fst (atomicCreate (lock_path E) t)"
      and body: "(case atomicCreate (lock_path E) t of (ifExist, s') \<Rightarrow>
          if \<not> ifExist then rec E j s' else Some (snd (write_file (lock_path E) j s'))) = Some t'"
    show "0 \<in> set (fds t) \<longrightarrow> fst (atomicCreate (lock_path E) t)"
    proof (cases "atomicCreate (lock_path E) t")
      case (Pair ok u)
      then show ?thesis using IH[of E j u t'] body atomicCreate_False[of E t u] by (cases ok) auto
    qed
  qed
  with assms(2) show ?thesis by simp
qed

lemma getLock_outcome:
  assumes "0 \<in> set (fds s)"
  shows "getLock D i s =
    (if can_open s \<and> files s (lock_path D) = None \<and> is_dir D s
     then Some (snd (write_file (lock_path D) i (snd (atomicCreate (lock_path D) s)))) else None)"
proof (cases "fst (atomicCreate (lock_path D) s)")
  case True
  then have "atomicCreate (lock_path D) s = (True, snd (atomicCreate (lock_path D) s))"
    by (metis prod.collapse)
  with atomicCreate_True[OF this] show ?thesis
    by (subst getLock.simps) (auto simp: is_dir_iff split: prod.splits)
next
  case False
  then have "\<not> (can_open s \<and> files s (lock_path D) = None \<and> is_dir D s)"
    using assms lowest_fd_pos[of s] by (auto simp: atomicCreate_def open_excl_def)
  moreover have "getLock D i s = None" using False getLock_returns[OF _ assms] by fastforce
  ultimately show ?thesis by simp
qed

lemma getLock_state:
  assumes "getLock D i s = Some s'" and "0 \<in> set (fds s)"
  shows "length (fds s') = Suc (length (fds s))" "0 \<in> set (fds s')" "fdLimit s' = fdLimit s"
    "\<exists>c. files s' (lock_path D) = Some (FileNode c)" "\<exists>es. files s' D = Some (DirNode (es @ [lockFileName]))"
proof -
  have ok: "can_open s" "files s (lock_path D) = None" "is_dir D s"
    and s': "s' = snd (write_file (lock_path D) i (snd (atomicCreate (lock_path D) s)))"
    using assms by (auto simp: getLock_outcome split: if_splits)
  from ok(3) obtain es where es: "files s D = Some (DirNode es)" by (auto simp: is_dir_iff)
  let ?t = "snd (atomicCreate (lock_path D) s)"
  have t: "files ?t = link (lock_path D) (FileNode []) (files s)" "fds ?t = fds s @ [lowest_fd s]"
      "fdLimit ?t = fdLimit s"
    using ok by (simp_all add: atomicCreate_def open_excl_def)
  have lock: "files ?t (lock_path D) = Some (FileNode [])" and dir: "files ?t D = Some (DirNode (es @ [lockFileName]))"
    using es lock_path_longer[of D] by (auto simp: t link_def)
  note w = write_lock[OF lock, of i]
  show "length (fds s') = Suc (length (fds s))" "0 \<in> set (fds s')" using w assms(2) by (simp_all add: s' t)
  show "fdLimit s' = fdLimit s" using t(3) by (simp add: s' write_file_def split: option.split fnode.split)
  show "\<exists>c. files s' (lock_path D) = Some (FileNode c)" using w lock by (simp add: s')
  show "\<exists>es. files s' D = Some (DirNode (es @ [lockFileName]))"
    using w dir lock_path_longer[of D] by (simp add: s')
qed

lemma release_state:
  assumes "files s (lock_path D) = Some (FileNode c)" and "files s D = Some (DirNode (es @ [lockFileName]))"
  shows "files (releaseLock D s) (lock_path D) = None" "is_dir D (releaseLock D s)"
    "fds (releaseLock D s) = fds s" "fdLimit (releaseLock D s) = fdLimit s"
  using assms lock_path_longer[of D]
  by (auto simp: releaseLock_def remove_path_def unlink_def is_dir_iff)

lemma lock_cycle:
  assumes "0 \<in> set (fds s)" and "getLock D i s = Some s1"
  shows "length (fds (releaseLock D s1)) = Suc (length (fds s)) \<and> 0 \<in> set (fds (releaseLock D s1))
    \<and> fdLimit (releaseLock D s1) = fdLimit s \<and> files (releaseLock D s1) (lock_path D) = None
    \<and> is_dir D (releaseLock D s1)"
proof -
  obtain c es where "files s1 (lock_path D) = Some (FileNode c)" "files s1 D = Some (DirNode (es @ [lockFileName]))"
    using getLock_state[OF assms(2,1)] by blast
  from release_state[OF this] getLock_state[OF assms(2,1)] show ?thesis by simp
qed

section \<open>Properties\<close>

text \<open>C18: mutual exclusion. However the processes interleave, at most one of them is between the
  creation of the lock file of a directory and its removal, and the file is there exactly then; the
  condition is that every process has its descriptor 0 open and releases only what it holds.\<close>

theorem dlm_mutual_exclusion:
  assumes "reach dlm_ini dlm_step d"
  shows "(\<forall>p q. inside d p D \<and> inside d q D \<longrightarrow> p = q)
    \<and> ((\<exists>p. inside d p D) \<longleftrightarrow> tree d (lock_path D) \<noteq> None)"
  using dlm.inv_reach[OF assms] unfolding dlm_inv_iff dlm_ok_iff by (metis option.distinct(1))

theorem dlm_mutual_exclusion_witness:
  "\<exists>d. reach dlm_ini dlm_step d \<and> inside d 1 ''g'' \<and> tree d (lock_path ''g'') \<noteq> None"
proof -
  let ?d0 = "\<lparr>tree = [''g'' \<mapsto> DirNode [''.'', ''..'']], table = (\<lambda>_. [0, 1, 2]), limit = 8, at = (\<lambda>_. Outside)\<rparr>"
  let ?d1 = "put_os 1 (os_of 1 ?d0) (Trying ''g'') ?d0"
  let ?d2 = "put_os 1 (snd (atomicCreate (lock_path ''g'') (os_of 1 ?d1))) (Created ''g'') ?d1"
  have "lock_path D \<noteq> ''g''" for D by (simp add: lock_path_def lockFileName_def append_eq_Cons_conv)
  then have "dlm_ini ?d0" by (simp add: dlm_ini_def)
  moreover have "dlm_step ?d0 ?d1" by (rule dlm_begin) simp
  ultimately have "reach dlm_ini dlm_step ?d1" by (blast intro: reach_step reach_ini)
  moreover have "atomicCreate (lock_path ''g'') (os_of 1 ?d1) = (True, snd (atomicCreate (lock_path ''g'') (os_of 1 ?d1)))"
  proof -
    have "fst (atomicCreate (lock_path ''g'') (os_of 1 ?d1))" by code_simp
    then show ?thesis by (metis prod.collapse)
  qed
  ultimately have "reach dlm_ini dlm_step ?d2"
    by (elim reach_step) (rule dlm_create[where Dir = "''g''"], simp_all)
  moreover from this have "inside ?d2 1 ''g''" by (simp add: inside_def)
  ultimately show ?thesis using dlm_mutual_exclusion[of ?d2 "''g''"] by blast
qed

text \<open>The lock is always obtainable when it is free. \<open>getLock\<close> returns exactly when the lock file
  is missing, its directory exists and the descriptor table of the process has room; otherwise, if
  nothing else changes, it spins for ever.\<close>

theorem getLock_returns_iff:
  assumes "0 \<in> set (fds s)"
  shows "(\<exists>s'. getLock D i s = Some s') \<longleftrightarrow> can_open s \<and> files s (lock_path D) = None \<and> is_dir D s"
  using getLock_outcome[OF assms, of D i] by auto

theorem getLock_returns_iff_witness:
  "\<exists>s'. getLock ''g'' ''me'' \<lparr>files = [''g'' \<mapsto> DirNode [''.'', ''..'']], fds = [0, 1, 2], fdLimit = 1024\<rparr> = Some s'"
  by (subst getLock_returns_iff) (simp_all add: can_open_def is_dir_def lock_path_def lockFileName_def)

text \<open>The lock leaks descriptors. A process that takes and releases the lock has one more open
  descriptor each time, so after as many rounds as its table has free slots it never obtains the
  lock again.\<close>

theorem lock_leaks_descriptors:
  assumes "0 \<in> set (fds s)" and "getLock D i s = Some s1"
  shows "length (fds (releaseLock D s1)) = Suc (length (fds s))
    \<and> (length (fds s) + 1 < fdLimit s \<longleftrightarrow> (\<exists>s2. getLock D j (releaseLock D s1) = Some s2))"
  using lock_cycle[OF assms] getLock_outcome[of "releaseLock D s1" D j] by (auto simp: can_open_def)

theorem lock_leaks_descriptors_witness:
  "\<exists>s1. getLock ''g'' ''me'' \<lparr>files = [''g'' \<mapsto> DirNode [''.'', ''..'']], fds = [0, 1, 2], fdLimit = 4\<rparr> = Some s1
     \<and> \<not> (\<exists>s2. getLock ''g'' ''you'' (releaseLock ''g'' s1) = Some s2)"
proof -
  let ?s = "\<lparr>files = [''g'' \<mapsto> DirNode [''.'', ''..'']], fds = [0, 1, 2], fdLimit = 4\<rparr>"
  have "\<exists>s1. getLock ''g'' ''me'' ?s = Some s1"
    by (simp add: getLock_outcome can_open_def is_dir_def lock_path_def lockFileName_def)
  then obtain s1 where "getLock ''g'' ''me'' ?s = Some s1" by blast
  then show ?thesis using lock_leaks_descriptors[of ?s "''g''" "''me''" s1 "''you''"] by simp
qed

text \<open>A process started with its standard input closed locks itself and everybody out: \<open>open\<close>
  returns descriptor 0, which the code takes for a failure although the lock file was created, and
  the file is then never removed.\<close>

theorem closed_stdin_deadlock:
  assumes "0 \<notin> set (fds s)" and "can_open s" and "files s (lock_path D) = None" and "is_dir D s"
  shows "fst (atomicCreate (lock_path D) s) = False
    \<and> files (snd (atomicCreate (lock_path D) s)) (lock_path D) = Some (FileNode [])
    \<and> getLock D i s = None"
proof -
  obtain es where es: "files s D = Some (DirNode es)" using assms(4) by (auto simp: is_dir_iff)
  define t where "t = s\<lparr>files := link (lock_path D) (FileNode []) (files s), fds := fds s @ [0]\<rparr>"
  have a: "atomicCreate (lock_path D) s = (False, t)"
    using assms lowest_fd_zero[OF assms(1)] by (simp add: atomicCreate_def open_excl_def t_def)
  have fds: "0 \<in> set (fds t)" and lock: "files t (lock_path D) = Some (FileNode [])"
    using es lock_path_longer[of D] by (auto simp: t_def link_def)
  have "getLock D i s = getLock D i t" by (subst getLock.simps) (simp add: a)
  also have "\<dots> = None" using getLock_outcome[OF fds, of D i] lock by simp
  finally show ?thesis using a lock by simp
qed

theorem closed_stdin_deadlock_witness:
  "getLock ''g'' ''me'' \<lparr>files = [''g'' \<mapsto> DirNode [''.'', ''..'']], fds = [1, 2], fdLimit = 1024\<rparr> = None"
  using closed_stdin_deadlock[of "\<lparr>files = [''g'' \<mapsto> DirNode [''.'', ''..'']], fds = [1, 2], fdLimit = 1024\<rparr>" "''g''" "''me''"]
  by (simp add: can_open_def is_dir_def lock_path_def lockFileName_def)

end
