(* ===== verification/GroupManager.thy ===== *)
theory GroupManager
  imports Dlm StdString
begin

text \<open>
  Membership of the servers, \<open>src/src/utils/groupManager\<close>, with the placement functions of
  \<open>src/src/utils/dht\<close>. The members of a group are the files of its directory: a server writes a file
  named after its address when it starts, and the others list the directory. The address of the
  network interface, which the code asks the kernel for, is the parameter \<open>ip\<close>. A computation that
  may wait for ever returns an option, \<open>None\<close> when it does not return.
\<close>

section \<open>State\<close>

definition gm_multinodeip :: string where "gm_multinodeip = ''./multinodeip''"
definition gm_FreePool :: string where "gm_FreePool = ''./multinodeip/FreePool''"
definition gm_coordinatorDir :: string where "gm_coordinatorDir = ''coordinator''"
definition gm_workerDir :: string where "gm_workerDir = ''worker''"
definition status_coor :: string where "status_coor = ''coordinator''"
definition status_worker :: string where "status_worker = ''worker''"
definition status_free :: string where "status_free = ''freepool''"

record gm =
  gm_requiredGroupSize :: int
  gm_groupNumber :: int
  gm_rank :: int
  SERVERSTATUS :: string
  GM_CLUSTERDIR :: string
  workerAddrMap :: "(string, string list) std_map"
  coordinatorAddrSet :: "string std_set"
  loadCoordinatorMap :: "(string, bool) std_map"
  gm_os :: os

section \<open>Listing directories\<close>

definition is_dot :: "string \<Rightarrow> bool" where
  "is_dot name \<longleftrightarrow> name = ''.'' \<or> name = ''..''"

definition loadAddrInDir :: "string \<Rightarrow> os \<Rightarrow> string list" where
  "loadAddrInDir Dir s =
     (case open_dir Dir s of None \<Rightarrow> [] | Some es \<Rightarrow> filter (\<lambda>e. \<not> is_dot e) es)"

definition getSingleClientFromDir :: "os \<Rightarrow> string" where
  "getSingleClientFromDir s =
     (let baseDir = ''/project1/parashar-001/zw241/software/eventDrivenWorkflow/tests/performance/multinodeip'';
          serverAddrList = loadAddrInDir (baseDir @ ''/cluster0/worker'') s
      in case serverAddrList of [] \<Rightarrow> [] | a # _ \<Rightarrow> a)"

definition getFileNumInDir :: "string \<Rightarrow> os \<Rightarrow> int" where
  "getFileNumInDir DirPath s =
     (case open_dir DirPath s of None \<Rightarrow> 0
      | Some es \<Rightarrow> fold (\<lambda>e n. if is_dot e then n else n + 1) es 0)"

definition updateWorkerAddrMap :: "string \<Rightarrow> gm \<Rightarrow> gm option" where
  "updateWorkerAddrMap clusterDir g =
     (case getLock clusterDir clusterDir (gm_os g) of
        None \<Rightarrow> None
      | Some s1 \<Rightarrow>
          let workerAddr = loadAddrInDir (clusterDir @ ''/'' @ gm_workerDir) s1;
              coordinatorAddr = loadAddrInDir (clusterDir @ ''/'' @ gm_coordinatorDir) s1;
              g1 = g\<lparr>gm_os := releaseLock clusterDir s1\<rparr>
          in if map_of (loadCoordinatorMap g) clusterDir = None
                \<or> map_at False clusterDir (loadCoordinatorMap g) = False
             then Some (g1\<lparr>workerAddrMap := map_put clusterDir (workerAddr @ coordinatorAddr) (workerAddrMap g1),
                           loadCoordinatorMap := map_put clusterDir True (loadCoordinatorMap g1)\<rparr>)
             else Some g1)"

definition updateCoordinatorAddr :: "gm \<Rightarrow> gm" where
  "updateCoordinatorAddr g =
     g\<lparr>coordinatorAddrSet :=
        fold (\<lambda>cluster acc.
                case loadAddrInDir (gm_multinodeip @ ''/'' @ cluster @ ''/'' @ gm_coordinatorDir) (gm_os g) of
                  [] \<Rightarrow> acc | a # _ \<Rightarrow> set_put a acc)
          (loadAddrInDir gm_multinodeip (gm_os g)) (coordinatorAddrSet g)\<rparr>"

definition getClusterDir :: "int \<Rightarrow> gm \<Rightarrow> (string \<times> gm) res" where
  "getClusterDir currentID g =
     bindR (c_rem currentID (gm_groupNumber g)) (\<lambda>clusterIndex.
       let clusterDir = gm_multinodeip @ ''/cluster'' @ to_string clusterIndex
       in Inr (clusterDir, g\<lparr>GM_CLUSTERDIR := clusterDir\<rparr>))"

section \<open>Joining\<close>

text \<open>The retry loop of \<open>createDir\<close>.\<close>

partial_function (option) createDirLoop :: "string \<Rightarrow> os \<Rightarrow> os option" where
  "createDirLoop DirPath s =
     (case mkdir DirPath s of
        (ok, s') \<Rightarrow> if \<not> ok then (if opens DirPath s' then Some s' else createDirLoop DirPath s') else Some s')"

definition createDir :: "string \<Rightarrow> os \<Rightarrow> os option" where
  "createDir DirPath s = (if opens DirPath s then Some s else createDirLoop DirPath s)"

text \<open>The subdirectory and the status of a server, by its rank.\<close>

definition server_role :: "int \<Rightarrow> int \<Rightarrow> int \<Rightarrow> string option \<times> string" where
  "server_role rank groups tot =
     (if rank < groups then (Some gm_coordinatorDir, status_coor)
      else if rank \<ge> groups \<and> rank < tot then (Some gm_workerDir, status_worker)
      else (None, status_free))"

text \<open>The result pairs the address string with the new state: \<open>ipstr\<close> is assigned only at the end.\<close>

definition recordIPortIntoClusterDir ::
  "string \<Rightarrow> string \<Rightarrow> string \<Rightarrow> string \<Rightarrow> gm \<Rightarrow> (string \<times> gm) res option" where
  "recordIPortIntoClusterDir ip ipstr port clusterDir g =
     (if \<not> is_int32 (gm_groupNumber g * gm_requiredGroupSize g) then Some (Inl (Undefined Signed_overflow))
      else
        let tot = gm_groupNumber g * gm_requiredGroupSize g;
            dirSecond = (if gm_rank g \<ge> tot then gm_FreePool else clusterDir);
            (sub, status) = server_role (gm_rank g) (gm_groupNumber g) tot;
            finalDir = (case sub of None \<Rightarrow> dirSecond | Some d \<Rightarrow> dirSecond @ ''/'' @ d)
        in Option.bind (createDir gm_multinodeip (gm_os g)) (\<lambda>s1.
           Option.bind (createDir dirSecond s1) (\<lambda>s2.
           Option.bind (case sub of None \<Rightarrow> Some s2 | Some d \<Rightarrow> createDir finalDir s2) (\<lambda>s3.
             Some (bindR (sprintf100 (finalDir @ ''/'' @ ip @ '':'' @ port)) (\<lambda>addrFile.
               let (ok, s4) = write_file addrFile [] s3;
                   g4 = g\<lparr>SERVERSTATUS := status, gm_os := s4\<rparr>
               in Inr (if ok then ip else ipstr, g4)))))))"

section \<open>Growing a group\<close>

definition nodeAttach :: "string \<Rightarrow> string \<Rightarrow> os \<Rightarrow> (bool \<times> os) res option" where
  "nodeAttach dir nodeAddr s =
     (let workerDirPath = dir @ ''/'' @ gm_workerDir
      in Option.bind (createDir workerDirPath s) (\<lambda>s1.
           Some (bindR (sprintf100 (workerDirPath @ ''/'' @ nodeAddr)) (\<lambda>addrFile.
             Inr (write_file addrFile [] s1)))))"

text \<open>The loop over the free pool, with its counter \<open>fileNum\<close>.\<close>

fun take_free :: "int \<Rightarrow> int \<Rightarrow> string list \<Rightarrow> string list" where
  "take_free needNum fileNum [] = []"
| "take_free needNum fileNum (e # es) =
     (if is_dot e then take_free needNum fileNum es
      else if fileNum + 1 = needNum then [e]
      else e # take_free needNum (fileNum + 1) es)"

definition getFreeNodeList :: "int \<Rightarrow> os \<Rightarrow> (string list \<times> os) res" where
  "getFreeNodeList needNum s =
     (case open_dir gm_FreePool s of
        None \<Rightarrow> Inl (Undefined Null_pointer)   \<comment> \<open>\<open>closedir(NULL)\<close>\<close>
      | Some es \<Rightarrow>
          let serverAddrList = take_free needNum 0 es
          in Inr (serverAddrList, fold (\<lambda>a s. snd (remove_path (gm_FreePool @ ''/'' @ a) s)) serverAddrList s))"

definition nodeDetach :: "string \<Rightarrow> string \<Rightarrow> string" where
  "nodeDetach cluster nodeAddr = []"

definition clientClusterDir :: "gm \<Rightarrow> string res" where
  "clientClusterDir g =
     (let clusternum = (if gm_requiredGroupSize g = 0 then gm_requiredGroupSize g + 1 else gm_requiredGroupSize g)
      in bindR (c_rem (gm_rank g) clusternum) (\<lambda>clusterIndex.
           Inr (gm_multinodeip @ ''/cluster'' @ to_string clusterIndex)))"

text \<open>The results of \<open>bind\<close> and \<open>getsockname\<close> and the port they report are parameters.\<close>

definition getFreePortNum :: "int \<Rightarrow> int \<Rightarrow> nat \<Rightarrow> int" where
  "getFreePortNum bind_result name_result port =
     (if bind_result < 0 then 1 else if name_result \<noteq> - 1 then int port else - 1)"

section \<open>Peer addresses\<close>

definition parsePort :: "string \<Rightarrow> string res" where
  "parsePort peerURL =
     (let startPosition = find_int peerURL ''ipv4:''
      in bindR (str_erase peerURL startPosition 5) (\<lambda>u.
           let endPosition = find_int u '':''
           in str_erase u 0 (nat (endPosition + 1))))"

definition parseIP :: "string \<Rightarrow> string res" where
  "parseIP peerURL =
     (let startPosition = find_int peerURL ''ipv4:''
      in bindR (str_erase peerURL startPosition 5) (\<lambda>u.
           let len = int (length u); startPosition = find_int u '':''
           in str_erase u startPosition (nat (len - startPosition))))"

section \<open>Placement of events\<close>

definition getClusterDirFromEvent :: "int \<Rightarrow> gm \<Rightarrow> string res" where
  "getClusterDirFromEvent i g =
     bindR (c_rem i (gm_groupNumber g)) (\<lambda>clusterId.
       Inr (gm_multinodeip @ ''/'' @ ''cluster'' @ to_string clusterId))"

definition getClusterDirFromEventMsg :: "string \<Rightarrow> gm \<Rightarrow> string res" where
  "getClusterDirFromEventMsg eventMsg g =
     (let startPosition = find_int eventMsg ''_''
      in bindR (str_erase eventMsg 0 (nat (startPosition + 1))) (\<lambda>u.
           bindR (stoi u) (\<lambda>index. getClusterDirFromEvent index g)))"

text \<open>The value of \<open>rand()\<close> is a parameter.\<close>

definition getServerIdFromAddr :: "int \<Rightarrow> int \<Rightarrow> int res" where
  "getServerIdFromAddr random serverNum = c_rem random serverNum"

section \<open>Lemmas: directories\<close>

lemma createDirLoop_returns:
  assumes "createDirLoop p s = Some s'"
  shows "fst (mkdir p s) \<or> opens p s"
proof (rule createDirLoop.raw_induct[where P = "\<lambda>p s _. fst (mkdir p s) \<or> opens p s", OF _ assms])
  fix rec :: "string \<Rightarrow> os \<Rightarrow> os option" and q t t'
  assume IH: "\<And>q t t'. rec q t = Some t' \<Longrightarrow> fst (mkdir q t) \<or> opens q t"
    and body: "(case mkdir q t of (ok, u) \<Rightarrow>
      if \<not> ok then (if opens q u then Some u else rec q u) else Some u) = Some t'"
  have "\<not> fst (mkdir q t) \<Longrightarrow> snd (mkdir q t) = t" by (auto simp: mkdir_def split: if_splits)
  then show "fst (mkdir q t) \<or> opens q t"
    using body IH[of q t t'] by (cases "mkdir q t") (auto split: if_splits)
qed

text \<open>\<open>createDir\<close> returns when the path can be opened or created; otherwise it retries for ever.\<close>

lemma createDir_outcome:
  "createDir p s =
     (if opens p s then Some s
      else if files s p = None \<and> is_dir (dir_name p) s
      then Some (s\<lparr>files := link p (DirNode [''.'', ''..'']) (files s)\<rparr>) else None)"
proof (cases "opens p s")
  case True
  then show ?thesis by (simp add: createDir_def)
next
  case False
  show ?thesis
  proof (cases "files s p = None \<and> is_dir (dir_name p) s")
    case True
    with False show ?thesis by (simp add: createDir_def createDirLoop.simps mkdir_def)
  next
    case no: False
    then have "\<not> fst (mkdir p s)" by (auto simp: mkdir_def)
    with False have "createDirLoop p s = None" using createDirLoop_returns[of p s] by fastforce
    with False no show ?thesis by (simp add: createDir_def)
  qed
qed

text \<open>What the creation of a directory gives, when nothing but a directory is at its path.\<close>

lemma createDir_dir:
  assumes "can_open s" and "is_dir (dir_name p) s" and "files s p = None \<or> is_dir p s" and "dir_name p \<noteq> p"
  obtains s' where "createDir p s = Some s'" "is_dir p s'" "can_open s'"
    "\<And>q. is_dir q s \<Longrightarrow> is_dir q s'" "\<And>q. q \<noteq> p \<Longrightarrow> files s q = None \<Longrightarrow> files s' q = None"
proof (cases "files s p = None")
  case True
  let ?s' = "s\<lparr>files := link p (DirNode [''.'', ''..'']) (files s)\<rparr>"
  from assms(2) obtain es where es: "files s (dir_name p) = Some (DirNode es)" by (auto simp: is_dir_iff)
  have "createDir p s = Some ?s'" using True assms by (simp add: createDir_outcome opens_def)
  moreover have "is_dir p ?s'" using es assms(4) by (auto simp: is_dir_iff link_def)
  moreover have "can_open ?s'" using assms(1) by (simp add: can_open_def)
  moreover have "is_dir q ?s'" if "is_dir q s" for q using that es True by (auto simp: is_dir_iff link_def)
  moreover have "files ?s' q = None" if "q \<noteq> p" "files s q = None" for q
    using that es by (auto simp: link_def)
  ultimately show thesis by (rule that)
next
  case False
  with assms(1) have "createDir p s = Some s" by (simp add: createDir_def opens_def)
  with False assms(1,3) show thesis by (intro that[of s]) auto
qed

section \<open>Lemmas: joining\<close>

lemma multinodeip_path: "dir_name gm_multinodeip = ''.''" "gm_multinodeip \<noteq> ''.''"
  using path_parts[of "''multinodeip''" "''.''"] by (simp_all add: gm_multinodeip_def)

lemma cluster_path: "dir_name (gm_multinodeip @ ''/cluster'' @ to_string k) = gm_multinodeip"
proof -
  have "CHR ''/'' \<notin> set (''cluster'' @ to_string k)"
    using to_string_free[of "CHR ''/''" k] by (simp add: not_digit_separators)
  from path_parts(2)[OF this, of gm_multinodeip] show ?thesis by simp
qed

lemma longer_path: "(dir @ ''/'' @ name) \<noteq> dir"
  by simp

text \<open>Writing a new file into a directory makes the directory list it.\<close>

lemma write_listed:
  assumes "can_open s" and "is_dir dir s" and "CHR ''/'' \<notin> set name" and "files s (dir @ ''/'' @ name) = None"
    and "\<not> is_dot name"
  obtains s' where "write_file (dir @ ''/'' @ name) [] s = (True, s')" "name \<in> set (loadAddrInDir dir s')"
proof -
  note parts = path_parts[OF assms(3), of dir]
  from assms(2) obtain es where es: "files s dir = Some (DirNode es)" by (auto simp: is_dir_iff)
  let ?s' = "s\<lparr>files := link (dir @ ''/'' @ name) (FileNode []) (files s)\<rparr>"
  have "write_file (dir @ ''/'' @ name) [] s = (True, ?s')"
    using assms(1,2,4) unfolding write_file_def parts by simp
  moreover have "link (dir @ ''/'' @ name) (FileNode []) (files s) dir = Some (DirNode (es @ [name]))"
    unfolding link_def parts using es by simp
  then have "name \<in> set (loadAddrInDir dir ?s')"
    using assms(1,5) by (simp add: loadAddrInDir_def open_dir_def can_open_def)
  ultimately show thesis by (rule that)
qed

definition absent_or_dir :: "string \<Rightarrow> os \<Rightarrow> bool" where
  "absent_or_dir p s \<longleftrightarrow> files s p = None \<or> is_dir p s"

lemma createDir_step:
  assumes "can_open s" and "is_dir (dir_name p) s" and "absent_or_dir p s" and "dir_name p \<noteq> p"
  obtains s' where "createDir p s = Some s'" "is_dir p s'" "can_open s'"
    "\<And>q. absent_or_dir q s \<Longrightarrow> absent_or_dir q s'" "\<And>q. q \<noteq> p \<Longrightarrow> files s q = None \<Longrightarrow> files s' q = None"
proof -
  obtain s' where s': "createDir p s = Some s'" "is_dir p s'" "can_open s'"
    "\<And>q. is_dir q s \<Longrightarrow> is_dir q s'" "\<And>q. q \<noteq> p \<Longrightarrow> files s q = None \<Longrightarrow> files s' q = None"
    using createDir_dir[OF assms(1,2) _ assms(4)] assms(3) by (auto simp: absent_or_dir_def)
  have "absent_or_dir q s'" if "absent_or_dir q s" for q
    using that s' by (cases "q = p") (auto simp: absent_or_dir_def)
  with s' show thesis by (intro that[of s']) assumption+
qed

lemma join_member:
  assumes os: "can_open (gm_os g)" "is_dir ''.'' (gm_os g)"
    and dir: "dir = gm_multinodeip @ ''/cluster'' @ to_string k"
    and role: "gm_rank g < gm_groupNumber g * gm_requiredGroupSize g"
      "is_int32 (gm_groupNumber g * gm_requiredGroupSize g)"
      "server_role (gm_rank g) (gm_groupNumber g) (gm_groupNumber g * gm_requiredGroupSize g) = (Some d, status)"
      "CHR ''/'' \<notin> set d"
    and absent: "absent_or_dir gm_multinodeip (gm_os g)" "absent_or_dir dir (gm_os g)"
      "absent_or_dir (dir @ ''/'' @ d) (gm_os g)"
    and addr: "addr = ip @ '':'' @ port" "CHR ''/'' \<notin> set addr" "files (gm_os g) (dir @ ''/'' @ d @ ''/'' @ addr) = None"
      "length (dir @ ''/'' @ d @ ''/'' @ addr) < 100"
  shows "\<exists>g'. recordIPortIntoClusterDir ip ipstr port dir g = Some (Inr (ip, g'))
    \<and> SERVERSTATUS g' = status \<and> addr \<in> set (loadAddrInDir (dir @ ''/'' @ d) (gm_os g'))"
proof -
  let ?final = "dir @ ''/'' @ d" and ?file = "dir @ ''/'' @ d @ ''/'' @ addr"
  note dirs = cluster_path[of k, folded dir] path_parts(2)[OF role(4), of dir]
  have ne: "dir_name gm_multinodeip \<noteq> gm_multinodeip" "dir_name dir \<noteq> dir" "dir_name ?final \<noteq> ?final"
    unfolding multinodeip_path dirs using multinodeip_path(2) dir by simp_all
  have fne: "?file \<noteq> gm_multinodeip" "?file \<noteq> dir" "?file \<noteq> ?final" using dir by simp_all
  obtain s1 where s1: "createDir gm_multinodeip (gm_os g) = Some s1" "is_dir gm_multinodeip s1" "can_open s1"
      "absent_or_dir dir s1" "absent_or_dir ?final s1" "files s1 ?file = None"
    using createDir_step[of "gm_os g" gm_multinodeip] os absent ne(1) addr(3) fne(1) multinodeip_path(1) by metis
  obtain s2 where s2: "createDir dir s1 = Some s2" "is_dir dir s2" "can_open s2"
      "absent_or_dir ?final s2" "files s2 ?file = None"
    using createDir_step[of s1 dir] s1 ne(2) fne(2) dirs(1) by metis
  obtain s3 where s3: "createDir ?final s2 = Some s3" "is_dir ?final s3" "can_open s3" "files s3 ?file = None"
    using createDir_step[of s2 ?final] s2 ne(3) fne(3) dirs(2) by metis
  have "\<not> is_dot addr" by (auto simp: addr(1) is_dot_def append_eq_Cons_conv)
  then obtain s4 where s4: "write_file ?file [] s3 = (True, s4)" "addr \<in> set (loadAddrInDir ?final s4)"
    using write_listed[of s3 ?final addr] s3 addr(2) by auto
  have "recordIPortIntoClusterDir ip ipstr port dir g =
      Some (Inr (ip, g\<lparr>SERVERSTATUS := status, gm_os := s4\<rparr>))"
    using role s1(1) s2(1) s3(1) s4(1) addr(1,4)
    by (simp add: recordIPortIntoClusterDir_def Let_def sprintf100_def)
  with s4(2) show ?thesis by simp
qed

section \<open>Lemmas: the free pool\<close>

lemma take_free_all: "needNum \<le> fileNum \<Longrightarrow> take_free needNum fileNum es = filter (\<lambda>e. \<not> is_dot e) es"
  by (induction es arbitrary: fileNum) auto

lemma take_free_some:
  "fileNum < needNum \<Longrightarrow> take_free needNum fileNum es = take (nat (needNum - fileNum)) (filter (\<lambda>e. \<not> is_dot e) es)"
proof (induction es arbitrary: fileNum)
  case (Cons e es)
  show ?case
  proof (cases "is_dot e \<or> fileNum + 1 = needNum")
    case True
    with Cons show ?thesis by (auto simp: take_Cons' nat_diff_distrib)
  next
    case False
    with Cons.prems have "fileNum + 1 < needNum" "nat (needNum - fileNum) = Suc (nat (needNum - (fileNum + 1)))"
      by auto
    with False Cons.IH[of "fileNum + 1"] show ?thesis by simp
  qed
qed simp

section \<open>Lemmas: addresses\<close>

lemma prefix_ipv4: "find_int (''ipv4:'' @ u) ''ipv4:'' = 0"
  using str_find_prefix[of "''ipv4:''" u] by (simp add: find_int_def)

lemma erase_ipv4: "str_erase (''ipv4:'' @ u) 0 5 = Inr u"
  by (simp add: str_erase_def)

section \<open>Properties\<close>

text \<open>The ranks of one group: an arithmetic progression.\<close>

lemma group_ranks:
  assumes "0 < groups" and "0 \<le> k" and "k < groups"
  shows "{r. 0 \<le> r \<and> r < groups * gsize \<and> c_rem r groups = Inr k} = (\<lambda>j. k + groups * j) ` {0..<gsize}"
proof (rule set_eqI, rule iffI)
  fix r assume "r \<in> {r. 0 \<le> r \<and> r < groups * gsize \<and> c_rem r groups = Inr k}"
  then have r: "0 \<le> r" "r < groups * gsize" "r mod groups = k"
    using assms(1) by (auto simp: c_rem_nonneg)
  then have "r = k + groups * (r div groups)" by (metis mod_mult_div_eq add.commute)
  moreover have "0 \<le> r div groups" using r assms(1) by (simp add: pos_imp_zdiv_nonneg_iff)
  moreover have "groups * (r div groups) < groups * gsize"
    using r(2) assms(2) calculation(1) by linarith
  then have "r div groups < gsize" using assms(1) by simp
  ultimately show "r \<in> (\<lambda>j. k + groups * j) ` {0..<gsize}" by (intro image_eqI[of _ _ "r div groups"]) auto
next
  fix r assume "r \<in> (\<lambda>j. k + groups * j) ` {0..<gsize}"
  then obtain j where j: "r = k + groups * j" "0 \<le> j" "j < gsize" unfolding image_iff by (meson atLeastLessThan_iff)
  have "k + groups * j < groups * (j + 1)" using assms(3) by (simp add: algebra_simps)
  also have "\<dots> \<le> groups * gsize" using j assms(1) by (intro mult_left_mono) auto
  finally show "r \<in> {r. 0 \<le> r \<and> r < groups * gsize \<and> c_rem r groups = Inr k}"
    using j assms by (simp add: c_rem_nonneg)
qed

text \<open>C30: the groups are balanced. With \<open>groups\<close> groups of \<open>gsize\<close> servers, the ranks below
  \<open>groups * gsize\<close> that \<open>getClusterDir\<close> sends to one group are exactly \<open>gsize\<close> many; one of them becomes
  the coordinator, its rank being the number of the group, and the others become workers. The ranks from
  \<open>groups * gsize\<close> on go to the free pool, that rank included. The comment in the source says otherwise in two
  places: it sends only ranks greater than \<open>groups * gsize\<close> to the free pool, and calls the rank equal to the number
  of groups a coordinator, where the code makes it the second server of group 0, or a free one.\<close>

theorem groups_balanced:
  assumes "0 < groups" and "0 < gsize" and "gm_groupNumber g = groups" and "0 \<le> k" and "k < groups"
  defines "members \<equiv> {r. 0 \<le> r \<and> r < groups * gsize \<and> c_rem r groups = Inr k}"
  shows "card members = nat gsize
    \<and> {r \<in> members. snd (server_role r groups (groups * gsize)) = status_coor} = {k}
    \<and> (\<forall>r \<in> members - {k}. snd (server_role r groups (groups * gsize)) = status_worker)
    \<and> (\<forall>r \<in> members. \<exists>g'. getClusterDir r g = Inr (gm_multinodeip @ ''/cluster'' @ to_string k, g'))
    \<and> (\<forall>r \<ge> groups * gsize. server_role r groups (groups * gsize) = (None, status_free))"
proof -
  have mem: "members = (\<lambda>j. k + groups * j) ` {0..<gsize}"
    unfolding members_def by (rule group_ranks[OF assms(1,4,5)])
  have "inj_on (\<lambda>j. k + groups * j) {0..<gsize}" using assms(1) by (simp add: inj_on_def)
  then have "card members = nat gsize" by (simp add: mem card_image)
  moreover have role: "snd (server_role r groups (groups * gsize)) =
      (if r = k then status_coor else status_worker)" if "r \<in> members" for r
  proof -
    from that obtain j where j: "r = k + groups * j" "0 \<le> j" "j < gsize" unfolding mem image_iff by (meson atLeastLessThan_iff)
    have "r < groups \<longleftrightarrow> j = 0"
    proof
      assume "r < groups"
      then have "groups * j < groups * 1" using j(1) assms(4) by simp
      then show "j = 0" using assms(1) j(2) by simp
    qed (simp add: j assms(5))
    moreover have "r < groups * gsize" using that by (simp add: members_def)
    moreover have "r = k \<longleftrightarrow> j = 0" using j(1) assms(1) by simp
    ultimately show ?thesis by (auto simp: server_role_def)
  qed
  moreover have "k \<in> members" using assms(2) by (auto simp: mem intro!: image_eqI[of _ _ 0])
  then have "{r \<in> members. snd (server_role r groups (groups * gsize)) = status_coor} = {k}"
    using role by (auto simp: status_coor_def status_worker_def split: if_splits)
  moreover have "\<exists>g'. getClusterDir r g = Inr (gm_multinodeip @ ''/cluster'' @ to_string k, g')" if "r \<in> members" for r
    using that by (simp add: getClusterDir_def members_def assms(3) Let_def)
  moreover have "server_role r groups (groups * gsize) = (None, status_free)" if "groups * gsize \<le> r" for r
  proof -
    have "groups * 1 \<le> groups * gsize" using assms(1,2) by (intro mult_left_mono) auto
    with that show ?thesis by (simp add: server_role_def)
  qed
  ultimately show ?thesis by simp
qed

theorem groups_balanced_witness:
  "card {r. 0 \<le> r \<and> r < 4 * 3 \<and> c_rem r 4 = Inr (1 :: int)} = 3"
  using groups_balanced[of 4 3 "\<lparr>gm_requiredGroupSize = 3, gm_groupNumber = 4, gm_rank = 0, SERVERSTATUS = [],
     GM_CLUSTERDIR = [], workerAddrMap = [], coordinatorAddrSet = [], loadCoordinatorMap = [],
     gm_os = \<lparr>files = (\<lambda>_. None), fds = [], fdLimit = 0\<rparr>\<rparr>" 1] by simp

text \<open>Taking servers from the free pool. For a positive number at most that many are taken, the
  first of the listing; for zero or a negative number the whole pool is taken; and when the pool
  directory cannot be opened the null stream is closed.\<close>

theorem getFreeNodeList_takes:
  "(\<forall>es. open_dir gm_FreePool s = Some es \<longrightarrow>
     (\<exists>s'. getFreeNodeList needNum s =
        Inr (if 0 < needNum then take (nat needNum) (loadAddrInDir gm_FreePool s) else loadAddrInDir gm_FreePool s, s')))
   \<and> (open_dir gm_FreePool s = None \<longrightarrow> getFreeNodeList needNum s = Inl (Undefined Null_pointer))"
  by (auto simp: getFreeNodeList_def loadAddrInDir_def take_free_all take_free_some Let_def)

theorem getFreeNodeList_takes_witness:
  "\<exists>s'. getFreeNodeList 1 \<lparr>files = [gm_FreePool \<mapsto> DirNode [''.'', ''..'', ''h1'', ''h2'']], fds = [0], fdLimit = 9\<rparr>
     = Inr ([''h1''], s')"
  using getFreeNodeList_takes[of "\<lparr>files = [gm_FreePool \<mapsto> DirNode [''.'', ''..'', ''h1'', ''h2'']], fds = [0], fdLimit = 9\<rparr>" 1]
  by (simp add: open_dir_def can_open_def loadAddrInDir_def is_dot_def)

text \<open>The address of a gRPC peer, \<open>ipv4:host:port\<close>, is cut into host and port exactly; a peer of
  another kind raises \<open>out_of_range\<close>.\<close>

theorem peer_roundtrip:
  "(CHR '':'' \<notin> set ip \<longrightarrow> parseIP (''ipv4:'' @ ip @ '':'' @ port) = Inr ip
      \<and> parsePort (''ipv4:'' @ ip @ '':'' @ port) = Inr port)
   \<and> (str_find ''ipv4:'' u = None \<longrightarrow> parseIP u = Inl Out_of_range \<and> parsePort u = Inl Out_of_range)"
proof (intro conjI impI)
  assume ip: "CHR '':'' \<notin> set ip"
  then have f: "find_int (ip @ '':'' @ port) '':'' = int (length ip)" using find_int_char[OF ip, of port] by simp
  show "parseIP (''ipv4:'' @ ip @ '':'' @ port) = Inr ip"
    unfolding parseIP_def Let_def prefix_ipv4 erase_ipv4 bindR_Inr f by (simp add: str_erase_def)
  show "parsePort (''ipv4:'' @ ip @ '':'' @ port) = Inr port"
    unfolding parsePort_def Let_def prefix_ipv4 erase_ipv4 bindR_Inr f
    by (simp add: str_erase_def nat_add_distrib)
qed (simp_all add: parseIP_def parsePort_def find_int_def str_erase_def)

theorem peer_roundtrip_witness:
  "parseIP ''ipv4:127.0.0.1:5051'' = Inr ''127.0.0.1'' \<and> parsePort ''ipv4:127.0.0.1:5051'' = Inr ''5051''
    \<and> parseIP [] = Inl Out_of_range"
  using peer_roundtrip[of "''127.0.0.1''" "''5051''" "[]"] by simp

text \<open>The member list of a group is read once. After the first call of \<open>updateWorkerAddrMap\<close> for a
  group, later calls lock, list and unlock but keep the cached list, so a server that joins later
  never appears in it.\<close>

theorem worker_list_read_once:
  assumes "updateWorkerAddrMap dir g = Some g1" and "updateWorkerAddrMap dir g2 = Some g3"
    and "loadCoordinatorMap g2 = loadCoordinatorMap g1"
  shows "workerAddrMap g3 = workerAddrMap g2 \<and> loadCoordinatorMap g3 = loadCoordinatorMap g2"
proof -
  have "map_of (loadCoordinatorMap g1) dir = Some True"
    using assms(1) by (auto simp: updateWorkerAddrMap_def map_at_def Let_def split: option.splits if_splits)
  with assms(2,3) show ?thesis
    by (auto simp: updateWorkerAddrMap_def map_at_def Let_def split: option.splits if_splits)
qed

theorem worker_list_read_once_witness:
  "\<exists>g1 g3. updateWorkerAddrMap ''g'' \<lparr>gm_requiredGroupSize = 1, gm_groupNumber = 1, gm_rank = 0, SERVERSTATUS = [],
       GM_CLUSTERDIR = [], workerAddrMap = [], coordinatorAddrSet = [], loadCoordinatorMap = [],
       gm_os = \<lparr>files = [''g'' \<mapsto> DirNode [''.'', ''..'']], fds = [0], fdLimit = 9\<rparr>\<rparr> = Some g1
     \<and> updateWorkerAddrMap ''g'' g1 = Some g3 \<and> workerAddrMap g3 = workerAddrMap g1"
proof -
  let ?s = "\<lparr>files = [''g'' \<mapsto> DirNode [''.'', ''..'']], fds = [0], fdLimit = 9\<rparr>"
  let ?g = "\<lparr>gm_requiredGroupSize = 1, gm_groupNumber = 1, gm_rank = 0, SERVERSTATUS = [],
       GM_CLUSTERDIR = [], workerAddrMap = [], coordinatorAddrSet = [], loadCoordinatorMap = [], gm_os = ?s\<rparr>"
  obtain s1 where s1: "getLock ''g'' ''g'' ?s = Some s1"
    by (simp add: getLock_outcome can_open_def is_dir_def lock_path_def lockFileName_def)
  from lock_cycle[OF _ s1] obtain s2 where s2: "getLock ''g'' ''g'' (releaseLock ''g'' s1) = Some s2"
    by (auto simp: getLock_outcome can_open_def)
  obtain g1 where g1: "updateWorkerAddrMap ''g'' ?g = Some g1" and os: "gm_os g1 = releaseLock ''g'' s1"
    using s1 by (simp add: updateWorkerAddrMap_def Let_def)
  have "updateWorkerAddrMap ''g'' g1 \<noteq> None" using s2 os by (auto simp: updateWorkerAddrMap_def Let_def)
  then obtain g3 where g3: "updateWorkerAddrMap ''g'' g1 = Some g3" by blast
  from worker_list_read_once[OF g1 g3] g1 g3 show ?thesis by blast
qed

text \<open>Events are spread over all groups. The event \<open>name_i\<close> goes to the directory of group
  \<open>i mod groups\<close>; an event without a number after its first underscore raises \<open>invalid_argument\<close>.\<close>

theorem event_placement:
  assumes "0 < gm_groupNumber g"
  shows "(CHR ''_'' \<notin> set name \<and> 0 \<le> i \<and> is_int32 i \<longrightarrow>
      getClusterDirFromEventMsg (name @ ''_'' @ to_string i) g =
        Inr (''./multinodeip/cluster'' @ to_string (i mod gm_groupNumber g)))
    \<and> (CHR ''_'' \<notin> set name \<and> stoi rest = Inl Invalid_argument \<longrightarrow>
      getClusterDirFromEventMsg (name @ ''_'' @ rest) g = Inl Invalid_argument)"
proof -
  have cut: "str_erase (name @ ''_'' @ u) 0 (nat (find_int (name @ ''_'' @ u) ''_'' + 1)) = Inr u"
    if "CHR ''_'' \<notin> set name" for u
    using find_int_char[OF that, of u] by (simp add: str_erase_def nat_add_distrib)
  show ?thesis
    using cut[of "to_string i"] cut[of rest] assms
    by (auto simp: getClusterDirFromEventMsg_def Let_def stoi_to_string getClusterDirFromEvent_def
        c_rem_nonneg gm_multinodeip_def)
qed

theorem event_placement_witness:
  "getClusterDirFromEventMsg (''ev'' @ ''_'' @ to_string 5) \<lparr>gm_requiredGroupSize = 1, gm_groupNumber = 3, gm_rank = 0,
     SERVERSTATUS = [], GM_CLUSTERDIR = [], workerAddrMap = [], coordinatorAddrSet = [], loadCoordinatorMap = [],
     gm_os = \<lparr>files = (\<lambda>_. None), fds = [], fdLimit = 0\<rparr>\<rparr> = Inr (''./multinodeip/cluster'' @ to_string 2)"
  using event_placement[of "\<lparr>gm_requiredGroupSize = 1, gm_groupNumber = 3, gm_rank = 0,
     SERVERSTATUS = [], GM_CLUSTERDIR = [], workerAddrMap = [], coordinatorAddrSet = [], loadCoordinatorMap = [],
     gm_os = \<lparr>files = (\<lambda>_. None), fds = [], fdLimit = 0\<rparr>\<rparr>" "''ev''" 5 "[]"]
  by (simp add: is_int32_def INT_MIN_def INT_MAX_def)

text \<open>A member that joins becomes visible. When the directories on its way are missing or are
  directories, the address is new and the file name fits the buffer of 100 bytes,
  \<open>recordIPortIntoClusterDir\<close> returns, sets the status of the rank and the directory of the role then
  lists the address.\<close>

theorem join_visible:
  assumes "can_open (gm_os g)" and "is_dir ''.'' (gm_os g)" and "dir = gm_multinodeip @ ''/cluster'' @ to_string k"
    and "gm_rank g < gm_groupNumber g * gm_requiredGroupSize g" and "is_int32 (gm_groupNumber g * gm_requiredGroupSize g)"
    and "server_role (gm_rank g) (gm_groupNumber g) (gm_groupNumber g * gm_requiredGroupSize g) = (Some d, status)"
    and "absent_or_dir gm_multinodeip (gm_os g)" and "absent_or_dir dir (gm_os g)"
    and "absent_or_dir (dir @ ''/'' @ d) (gm_os g)"
    and "CHR ''/'' \<notin> set (ip @ '':'' @ port)" and "files (gm_os g) (dir @ ''/'' @ d @ ''/'' @ ip @ '':'' @ port) = None"
    and "length (dir @ ''/'' @ d @ ''/'' @ ip @ '':'' @ port) < 100"
  shows "\<exists>g'. recordIPortIntoClusterDir ip ipstr port dir g = Some (Inr (ip, g'))
    \<and> SERVERSTATUS g' = status \<and> ip @ '':'' @ port \<in> set (loadAddrInDir (dir @ ''/'' @ d) (gm_os g'))"
proof -
  have "d = gm_coordinatorDir \<or> d = gm_workerDir" using assms(6) by (auto simp: server_role_def split: if_splits)
  then have "CHR ''/'' \<notin> set d" by (auto simp: gm_coordinatorDir_def gm_workerDir_def)
  from join_member[OF assms(1-6) this assms(7-9) refl assms(10-12)] show ?thesis .
qed

theorem join_visible_witness:
  "\<exists>g'. recordIPortIntoClusterDir ''h'' [] ''80'' (gm_multinodeip @ ''/cluster'' @ to_string 0)
      \<lparr>gm_requiredGroupSize = 2, gm_groupNumber = 1, gm_rank = 1, SERVERSTATUS = [], GM_CLUSTERDIR = [],
       workerAddrMap = [], coordinatorAddrSet = [], loadCoordinatorMap = [],
       gm_os = \<lparr>files = [''.'' \<mapsto> DirNode [''.'', ''..'']], fds = [0], fdLimit = 9\<rparr>\<rparr> = Some (Inr (''h'', g'))
    \<and> ''h:80'' \<in> set (loadAddrInDir (gm_multinodeip @ ''/cluster'' @ to_string 0 @ ''/worker'') (gm_os g'))"
proof -
  let ?g = "\<lparr>gm_requiredGroupSize = 2, gm_groupNumber = 1, gm_rank = 1, SERVERSTATUS = [], GM_CLUSTERDIR = [],
       workerAddrMap = [], coordinatorAddrSet = [], loadCoordinatorMap = [],
       gm_os = \<lparr>files = [''.'' \<mapsto> DirNode [''.'', ''..'']], fds = [0], fdLimit = 9\<rparr>\<rparr>"
  have "to_string 0 = ''0''" by code_simp
  then show ?thesis
    using join_visible[of ?g "gm_multinodeip @ ''/cluster'' @ to_string 0" 0 "''worker''" "''worker''" "''h''" "''80''" "[]"]
    by (simp add: can_open_def is_dir_def server_role_def status_worker_def gm_workerDir_def is_int32_def
        INT_MIN_def INT_MAX_def absent_or_dir_def gm_multinodeip_def) blast
qed

end
