(* ===== verification/PubSubClient.thy ===== *)
theory PubSubClient
  imports GroupManager
begin

text \<open>
  The client side of the service, \<open>src/src/publishclient/pubsubclient.cc\<close>: the stubs that turn a call
  into a request and a status into a return value, and the tables of clients a process keeps. A
  \<open>GreeterClient\<close> is its target address. The remote end, reached through gRPC, is the parameter
  \<open>net\<close>: for an address and a request it is the reply, or \<open>None\<close> when the status is not OK.
\<close>

section \<open>Messages\<close>

record PubSubRequest =
  pubsubmessage :: "string list"
  clientid :: string
  source :: string
  metadata :: string
  matchtype :: string
  notifyserver :: string

datatype rpc =
    RpcHello string
  | RpcSubscribe PubSubRequest
  | RpcPublish PubSubRequest
  | RpcSubNum "string list"
  | RpcRecordSub string string int            \<comment> \<open>subevent, serveraddr, subnum\<close>
  | RpcRedistribute string string string int  \<comment> \<open>subevent, srcaddr, destaddr, diff\<close>
  | RpcUpdateCluster string
  | RpcNotify string string                   \<comment> \<open>clientid, metadata\<close>

datatype reply = ReturnMessage string | ClientNumber int

type_synonym net = "string \<Rightarrow> rpc \<Rightarrow> reply option"

section \<open>Stubs\<close>

text \<open>What a stub returns: the message of the reply, or the text \<open>RPC failed\<close>.\<close>

definition message_of :: "reply option \<Rightarrow> string" where
  "message_of r = (case r of Some (ReturnMessage m) \<Rightarrow> m | Some (ClientNumber _) \<Rightarrow> [] | None \<Rightarrow> ''RPC failed'')"

definition NotifyBack :: "net \<Rightarrow> string \<Rightarrow> string \<Rightarrow> string \<Rightarrow> string" where
  "NotifyBack net stub clientId meta = message_of (net stub (RpcNotify clientId meta))"

definition SayHello_stub :: "net \<Rightarrow> string \<Rightarrow> string \<Rightarrow> string" where
  "SayHello_stub net stub user = message_of (net stub (RpcHello user))"

definition subscribe_request ::
  "string list \<Rightarrow> string \<Rightarrow> string \<Rightarrow> string \<Rightarrow> string \<Rightarrow> string \<Rightarrow> PubSubRequest" where
  "subscribe_request eventSubList clientID notifyAddr src matchType meta =
     \<lparr>pubsubmessage = eventSubList, clientid = clientID, source = src, metadata = meta,
      matchtype = matchType, notifyserver = notifyAddr\<rparr>"

definition Subscribe_stub ::
  "net \<Rightarrow> string \<Rightarrow> string list \<Rightarrow> string \<Rightarrow> string \<Rightarrow> string \<Rightarrow> string \<Rightarrow> string \<Rightarrow> string" where
  "Subscribe_stub net stub eventSubList clientID notifyAddr src matchType meta =
     message_of (net stub (RpcSubscribe (subscribe_request eventSubList clientID notifyAddr src matchType meta)))"

text \<open>The fields the publishing stub does not set are empty strings.\<close>

definition publish_request :: "string list \<Rightarrow> string \<Rightarrow> string \<Rightarrow> string \<Rightarrow> PubSubRequest" where
  "publish_request eventList src meta matchType =
     \<lparr>pubsubmessage = eventList, clientid = [], source = src, metadata = meta,
      matchtype = matchType, notifyserver = []\<rparr>"

definition Publish_stub :: "net \<Rightarrow> string \<Rightarrow> string list \<Rightarrow> string \<Rightarrow> string \<Rightarrow> string \<Rightarrow> string" where
  "Publish_stub net stub eventList src meta matchType =
     message_of (net stub (RpcPublish (publish_request eventList src meta matchType)))"

definition GetSubscribedNumber_stub :: "net \<Rightarrow> string \<Rightarrow> string list \<Rightarrow> int" where
  "GetSubscribedNumber_stub net stub eventList =
     (case net stub (RpcSubNum eventList) of
        Some (ClientNumber n) \<Rightarrow> n | Some (ReturnMessage _) \<Rightarrow> 0 | None \<Rightarrow> - 1)"

definition RecordSub_stub :: "net \<Rightarrow> string \<Rightarrow> string \<Rightarrow> string \<Rightarrow> int \<Rightarrow> string" where
  "RecordSub_stub net stub subevent serverAddr subNum =
     message_of (net stub (RpcRecordSub subevent serverAddr subNum))"

definition RedistributeSub_stub :: "net \<Rightarrow> string \<Rightarrow> string \<Rightarrow> string \<Rightarrow> string \<Rightarrow> int \<Rightarrow> string" where
  "RedistributeSub_stub net stub subevent srcAddr dstAddr diffNum =
     message_of (net stub (RpcRedistribute subevent srcAddr dstAddr diffNum))"

definition UpdateCluster_stub :: "net \<Rightarrow> string \<Rightarrow> string \<Rightarrow> string" where
  "UpdateCluster_stub net stub newClusterDir = message_of (net stub (RpcUpdateCluster newClusterDir))"

section \<open>Tables of clients\<close>

record clients =
  workerClients :: "(string, (string, string) std_map) std_map"
  coordinatorClients :: "string list"

definition updateCoordinatorClients :: "string \<Rightarrow> os \<Rightarrow> clients \<Rightarrow> clients" where
  "updateCoordinatorClients groupDir s c =
     c\<lparr>coordinatorClients := coordinatorClients c @ loadAddrInDir (groupDir @ ''/'' @ gm_coordinatorDir) s\<rparr>"

text \<open>The address is looked up among the group directories, the outer keys.\<close>

definition addWorkerClient :: "string \<Rightarrow> string \<Rightarrow> clients \<Rightarrow> clients" where
  "addWorkerClient groupDir addr c =
     (if map_of (workerClients c) addr \<noteq> None then c
      else c\<lparr>workerClients :=
               map_put groupDir (map_put addr addr (map_at [] groupDir (workerClients c))) (workerClients c)\<rparr>)"

definition updateWorkerClients :: "string \<Rightarrow> gm \<Rightarrow> clients \<Rightarrow> gm \<times> clients" where
  "updateWorkerClients groupDir g c =
     (g\<lparr>workerAddrMap := map_touch [] groupDir (workerAddrMap g)\<rparr>,
      fold (addWorkerClient groupDir) (map_at [] groupDir (workerAddrMap g)) c)"

definition initClients :: "string \<Rightarrow> gm \<Rightarrow> clients \<Rightarrow> (gm \<times> clients) option" where
  "initClients clusterDir g c =
     (case updateWorkerAddrMap clusterDir g of
        None \<Rightarrow> None
      | Some g1 \<Rightarrow>
          let (g2, c2) = updateWorkerClients clusterDir g1 c
          in Some (g2, updateCoordinatorClients clusterDir (gm_os g2) c2))"

text \<open>Result: the client, or \<open>None\<close> for the null pointer; the whole is \<open>None\<close> when the lock of the
  group is never obtained.\<close>

definition getClientFromEvent ::
  "int \<Rightarrow> string \<Rightarrow> gm \<Rightarrow> clients \<Rightarrow> (string option \<times> gm \<times> clients) res option" where
  "getClientFromEvent random eventString g c =
     (case getClusterDirFromEventMsg eventString g of
        Inl e \<Rightarrow> Some (Inl e)
      | Inr clusterDir \<Rightarrow>
          Option.bind (if map_of (workerClients c) clusterDir = None then initClients clusterDir g c else Some (g, c))
            (\<lambda>(g1, c1).
               let c2 = c1\<lparr>workerClients := map_touch [] clusterDir (workerClients c1)\<rparr>;
                   cs = map_at [] clusterDir (workerClients c2)
               in if length cs = 0 then Some (Inr (None, g1, c2))
                  else Some (bindR (getServerIdFromAddr random (int (length cs))) (\<lambda>serverId.
                         Inr (if 0 \<le> serverId \<and> nat serverId < length cs then Some (snd (cs ! nat serverId)) else None,
                              g1, c2)))))"

section \<open>Lemmas\<close>

lemma addWorkerClients_look:
  assumes "\<forall>a \<in> set addrs. map_of (workerClients c) a = None \<and> a \<noteq> dir"
  shows "map_of (map_at [] dir (workerClients (fold (addWorkerClient dir) addrs c))) =
      (\<lambda>a. if a \<in> set addrs then Some a else map_of (map_at [] dir (workerClients c)) a)
    \<and> coordinatorClients (fold (addWorkerClient dir) addrs c) = coordinatorClients c"
  using assms
proof (induction addrs arbitrary: c)
  case (Cons x xs)
  let ?c = "addWorkerClient dir x c"
  have step: "workerClients ?c = map_put dir (map_put x x (map_at [] dir (workerClients c))) (workerClients c)"
    "coordinatorClients ?c = coordinatorClients c"
    using Cons.prems by (simp_all add: addWorkerClient_def)
  have "\<forall>a \<in> set xs. map_of (workerClients ?c) a = None \<and> a \<noteq> dir" using Cons.prems by (auto simp: step)
  from Cons.IH[OF this] show ?case by (auto simp: step fun_eq_iff)
qed (simp add: map_at_def)

lemma addWorkerClients_wf:
  assumes "wf_map (map_at [] dir (workerClients c))"
  shows "wf_map (map_at [] dir (workerClients (fold (addWorkerClient dir) addrs c)))"
  using assms
proof (induction addrs arbitrary: c)
  case (Cons x xs)
  then show ?case by (simp add: addWorkerClient_def)
qed simp

section \<open>Properties\<close>

text \<open>Clients of a group. After \<open>updateWorkerClients\<close> the table of the group has exactly one client
  per cached address, to that address, besides those it had, in address order; the addresses must
  not be names of groups, which the code looks them up under.\<close>

theorem updateWorkerClients_complete:
  assumes "\<forall>a \<in> set (map_at [] dir (workerAddrMap g)). map_of (workerClients c) a = None \<and> a \<noteq> dir"
    and "updateWorkerClients dir g c = (g', c')" and "wf_map (map_at [] dir (workerClients c))"
  shows "map_of (map_at [] dir (workerClients c')) =
      (\<lambda>a. if a \<in> set (map_at [] dir (workerAddrMap g)) then Some a else map_of (map_at [] dir (workerClients c)) a)
    \<and> wf_map (map_at [] dir (workerClients c'))"
  using addWorkerClients_look[OF assms(1)] addWorkerClients_wf[OF assms(3)] assms(2)
  by (auto simp: updateWorkerClients_def)

theorem updateWorkerClients_complete_witness:
  "map_of (map_at [] ''g'' (workerClients (snd (updateWorkerClients ''g''
     \<lparr>gm_requiredGroupSize = 1, gm_groupNumber = 1, gm_rank = 0, SERVERSTATUS = [], GM_CLUSTERDIR = [],
      workerAddrMap = [(''g'', [''h:1'', ''h:2''])], coordinatorAddrSet = [], loadCoordinatorMap = [],
      gm_os = \<lparr>files = (\<lambda>_. None), fds = [], fdLimit = 0\<rparr>\<rparr>
     \<lparr>workerClients = [], coordinatorClients = []\<rparr>)))) ''h:2'' = Some ''h:2''"
  using updateWorkerClients_complete[of "''g''"
     "\<lparr>gm_requiredGroupSize = 1, gm_groupNumber = 1, gm_rank = 0, SERVERSTATUS = [], GM_CLUSTERDIR = [],
      workerAddrMap = [(''g'', [''h:1'', ''h:2''])], coordinatorAddrSet = [], loadCoordinatorMap = [],
      gm_os = \<lparr>files = (\<lambda>_. None), fds = [], fdLimit = 0\<rparr>\<rparr>" "\<lparr>workerClients = [], coordinatorClients = []\<rparr>",
     OF _ prod.collapse[symmetric]]
  by (simp add: map_at_def)

end
