(* ===== verification/Double.thy ===== *)
theory Double
  imports Prelude Complex_Main "HOL-Library.Log_Nat"
begin

text \<open>
  The \<open>double\<close> arithmetic of the coordinator. A value is a rational; an operation is the exact result
  rounded to 53 significant bits, ties to even. The magnitudes that occur (sums of at most \<open>2^31\<close>
  32-bit counts, and their averages) are far from the limits of the exponent, so overflow to
  infinity and gradual underflow are not part of the model. What the clients rely on is stated as
  the locale \<open>double_round\<close> and discharged for the rounding function.
\<close>

section \<open>Rounding\<close>

definition exponent_of :: "rat \<Rightarrow> int" where
  "exponent_of x =
     (let (p, q) = quotient_of \<bar>x\<bar>; k = bitlen p - bitlen q
      in if (2 :: rat) powi k \<le> \<bar>x\<bar> then k else k - 1)"

definition nearest_even :: "rat \<Rightarrow> int" where
  "nearest_even r =
     (let f = \<lfloor>r\<rfloor>; d = r - of_int f
      in if d < 1 / 2 then f else if d > 1 / 2 then f + 1 else if even f then f else f + 1)"

definition fl :: "rat \<Rightarrow> rat" where
  "fl x = (if x = 0 then 0
           else let u = (2 :: rat) powi (exponent_of x - 52) in of_int (nearest_even (x / u)) * u)"

section \<open>The contract of rounded arithmetic\<close>

locale double_round =
  fixes rnd :: "rat \<Rightarrow> rat"
  assumes rnd_int: "\<bar>n\<bar> < 2 ^ 53 \<Longrightarrow> rnd (of_int n) = of_int n"
    and rnd_err: "\<bar>rnd x - x\<bar> \<le> \<bar>x\<bar> / 2 ^ 53"
begin

text \<open>The ceiling of a rounded quotient of integers is the ceiling of the quotient.\<close>

lemma ceiling_quotient:
  assumes "\<bar>s\<bar> < 2 ^ 53" and "0 < n"
  shows "\<lceil>rnd (of_int s / of_int n)\<rceil> = \<lceil>(of_int s / of_int n :: rat)\<rceil>"
proof -
  let ?q = "of_int s / of_int n :: rat"
  let ?c = "\<lceil>?q\<rceil>"
  have n: "(0 :: rat) < of_int n" using assms(2) by simp
  have "\<bar>?q\<bar> / 2 ^ 53 < 1 / of_int n"
  proof -
    have "\<bar>of_int s :: rat\<bar> < 2 ^ 53" using assms(1) by (metis of_int_abs of_int_less_iff of_int_numeral of_int_power)
    then show ?thesis using n by (simp add: field_simps abs_divide)
  qed
  then have err: "\<bar>rnd ?q - ?q\<bar> < 1 / of_int n" using rnd_err[of ?q] by linarith
  have "of_int s \<le> (of_int ?c :: rat) * of_int n"
    using le_of_int_ceiling[of ?q] n by (metis pos_divide_le_eq)
  then have up: "s \<le> ?c * n" by (metis of_int_le_iff of_int_mult)
  have "(of_int ?c - 1 :: rat) * of_int n < of_int s"
    using ceiling_correct[of ?q] n by (metis pos_less_divide_eq)
  then have "(?c - 1) * n < s" by (metis of_int_1 of_int_diff of_int_less_iff of_int_mult)
  then have "(?c - 1) * n + 1 \<le> s" by simp
  then have "(of_int ((?c - 1) * n + 1) :: rat) \<le> of_int s" by (simp only: of_int_le_iff)
  then have "((of_int ?c - 1) * of_int n + 1) / of_int n \<le> ?q"
    using n by (intro divide_right_mono) auto
  then have low: "(of_int ?c - 1 :: rat) + 1 / of_int n \<le> ?q" using n by (simp add: add_divide_distrib)
  show ?thesis
  proof (cases "s = ?c * n")
    case True
    then have q: "?q = of_int ?c" using n by (metis nonzero_mult_div_cancel_right of_int_mult order_less_irrefl)
    have "\<bar>?c\<bar> \<le> \<bar>?c * n\<bar>" using assms(2) by (simp add: abs_mult mult_le_cancel_left1)
    then have "\<bar>?c\<bar> < 2 ^ 53" using assms(1) True by simp
    then have "rnd ?q = ?q" using rnd_int[of ?c] q by simp
    then show ?thesis by simp
  next
    case False
    with up have "s + 1 \<le> ?c * n" by simp
    then have "(of_int (s + 1) :: rat) \<le> of_int (?c * n)" by (simp only: of_int_le_iff)
    then have "(of_int s + 1) / of_int n \<le> (of_int ?c :: rat)"
      using n by (subst pos_divide_le_eq) auto
    then have "?q + 1 / of_int n \<le> of_int ?c" by (simp add: add_divide_distrib)
    then have "rnd ?q \<le> of_int ?c" "of_int ?c - 1 < rnd ?q" using err low by linarith+
    then show ?thesis by (simp add: ceiling_eq_iff)
  qed
qed

text \<open>A running sum of integers is exact while the sum of the magnitudes stays below \<open>2^53\<close>.\<close>

lemma sum_exact:
  assumes "\<bar>a\<bar> + (\<Sum>x\<leftarrow>xs. \<bar>x\<bar>) < 2 ^ 53"
  shows "fold (\<lambda>x acc. rnd (acc + of_int x)) xs (of_int a) = of_int (a + sum_list xs)"
  using assms
proof (induction xs arbitrary: a)
  case (Cons x xs)
  have "0 \<le> (\<Sum>x\<leftarrow>xs. \<bar>x\<bar>)" by (rule sum_list_nonneg) auto
  with Cons.prems have ax: "\<bar>a + x\<bar> < 2 ^ 53" "\<bar>a + x\<bar> + (\<Sum>x\<leftarrow>xs. \<bar>x\<bar>) < 2 ^ 53" by simp_all
  then have "rnd (of_int a + of_int x) = of_int (a + x)" using rnd_int[of "a + x"] by simp
  then show ?case using Cons.IH[OF ax(2)] by (simp add: add.assoc)
qed simp

end

section \<open>The rounding function fulfils the contract\<close>

lemma nearest_even_err: "\<bar>of_int (nearest_even r) - r\<bar> \<le> 1 / 2"
proof -
  define d where "d = r - of_int \<lfloor>r\<rfloor>"
  have d: "0 \<le> d" "d < 1" unfolding d_def by linarith+
  have r: "r = of_int \<lfloor>r\<rfloor> + d" by (simp add: d_def)
  then have "of_int (nearest_even r) - r = (if d < 1 / 2 \<or> d = 1 / 2 \<and> even \<lfloor>r\<rfloor> then - d else 1 - d)"
    unfolding nearest_even_def Let_def d_def by auto
  with d show ?thesis by auto
qed

lemma nearest_even_int [simp]: "nearest_even (of_int n) = n"
  by (simp add: nearest_even_def)

lemma bitlen_rat:
  assumes "0 < n"
  shows "(2 :: rat) powi (bitlen n - 1) \<le> of_int n" and "of_int n < (2 :: rat) powi bitlen n"
proof -
  define b where "b = nat (bitlen n)"
  have "1 \<le> bitlen n" using assms bitlen_nonneg[of n] bitlen_eq_zero_iff[of n] by linarith
  then have b: "bitlen n = int b" "bitlen n - 1 = int (b - 1)" "1 \<le> b" by (simp_all add: b_def)
  have "2 ^ (b - 1) \<le> n" "n < 2 ^ b"
    using bitlen_bounds[OF assms] by (simp_all add: b(2) flip: b_def)
  then have "(of_int (2 ^ (b - 1)) :: rat) \<le> of_int n" "(of_int n :: rat) < of_int (2 ^ b)"
    by (simp_all only: of_int_le_iff of_int_less_iff)
  then show "(2 :: rat) powi (bitlen n - 1) \<le> of_int n" and "of_int n < (2 :: rat) powi bitlen n"
    unfolding b(2) unfolding b(1) by (simp_all only: power_int_of_nat of_int_power of_int_numeral)
qed

lemma exponent_of_le: "x \<noteq> 0 \<Longrightarrow> (2 :: rat) powi exponent_of x \<le> \<bar>x\<bar>"
proof -
  assume "x \<noteq> 0"
  obtain p q where pq: "quotient_of \<bar>x\<bar> = (p, q)" by (cases "quotient_of \<bar>x\<bar>")
  have q: "0 < q" and x: "\<bar>x\<bar> = of_int p / of_int q"
    using quotient_of_denom_pos[OF pq] quotient_of_div[OF pq] by simp_all
  have "0 < of_int p / (of_int q :: rat)" using \<open>x \<noteq> 0\<close> by (simp flip: x)
  with q have p: "0 < p" by (simp add: zero_less_divide_iff)
  have "(2 :: rat) powi (bitlen p - bitlen q - 1) = 2 powi (bitlen p - 1) / 2 powi bitlen q"
    by (simp add: power_int_diff)
  also have "\<dots> \<le> of_int p / of_int q"
    using bitlen_rat[OF p] bitlen_rat[OF q] p q by (intro frac_le) auto
  finally show "2 powi exponent_of x \<le> \<bar>x\<bar>"
    by (simp add: exponent_of_def pq Let_def flip: x)
qed

lemma fl_err: "\<bar>fl x - x\<bar> \<le> \<bar>x\<bar> / 2 ^ 53"
proof (cases "x = 0")
  case False
  let ?u = "(2 :: rat) powi (exponent_of x - 52)"
  have u: "0 < ?u" by simp
  have "\<bar>fl x - x\<bar> = \<bar>of_int (nearest_even (x / ?u)) - x / ?u\<bar> * ?u"
  proof -
    have "fl x - x = (of_int (nearest_even (x / ?u)) - x / ?u) * ?u"
      using False by (simp add: fl_def Let_def left_diff_distrib)
    then show ?thesis by (simp only: abs_mult abs_of_pos[OF u])
  qed
  also have "\<dots> \<le> 1 / 2 * ?u" using nearest_even_err u by (intro mult_right_mono) auto
  also have "\<dots> = 2 powi exponent_of x / 2 ^ 53"
    by (simp add: power_int_diff)
  also have "\<dots> \<le> \<bar>x\<bar> / 2 ^ 53" using exponent_of_le[OF False] by (intro divide_right_mono) auto
  finally show ?thesis .
qed (simp add: fl_def)

lemma fl_int: "\<bar>n\<bar> < 2 ^ 53 \<Longrightarrow> fl (of_int n) = of_int n"
proof (cases "n = 0")
  case False
  assume n: "\<bar>n\<bar> < 2 ^ 53"
  let ?e = "exponent_of (of_int n)"
  have "(2 :: rat) powi ?e \<le> of_int \<bar>n\<bar>" using exponent_of_le[of "of_int n"] False by simp
  also have "\<dots> < 2 ^ 53" using n by (metis of_int_less_iff of_int_numeral of_int_power)
  finally have "(2 :: rat) powi ?e < 2 powi 53" by simp
  then have e: "?e \<le> 52" using power_int_increasing[of 53 ?e "2 :: rat"] by (cases "?e < 53") auto
  define k where "k = nat (52 - ?e)"
  have u: "(2 :: rat) powi (?e - 52) = 1 / 2 ^ k"
    using e by (simp add: k_def power_int_def nat_diff_distrib field_simps)
  have "of_int n / ((2 :: rat) powi (?e - 52)) = of_int (n * 2 ^ k)" by (simp add: u)
  then show ?thesis using False by (simp add: fl_def Let_def u nearest_even_int[of "n * 2 ^ k", simplified])
qed (simp add: fl_def)

interpretation dbl: double_round fl
  by unfold_locales (rule fl_int fl_err, assumption?)+

end
