(* ===== verification/Coordinator.thy ===== *)
theory Coordinator
  imports Double StdString StdContainers "HOL-Library.Multiset"
begin

text \<open>
  The load bookkeeping of the group coordinator, \<open>src/src/utils/coordinator\<close>: \<open>eventRecordMap\<close> holds,
  per event, the number of subscriptions each server of the group reported; the coordinator averages
  them, sizes the group and plans which server gives how many subscriptions to which.
  \<open>std::sort\<close> leaves the order of equal elements open, so it is a parameter \<open>sorter\<close> of the planner with
  the contract \<open>std_sort\<close>.
\<close>

section \<open>State and operations\<close>

record Plan =
  srcAddr :: string
  destAddr :: string
  moveSubscription :: string
  moveNumber :: int

record SubMeta =
  serverAddr :: string
  subNumber :: int

type_synonym recordMap = "(string, (string, int) std_map) std_map"

definition getAverage :: "string \<Rightarrow> recordMap \<Rightarrow> rat" where
  "getAverage event eventRecordMap =
     (case map_of eventRecordMap event of
        None \<Rightarrow> 0
      | Some subNumForNode \<Rightarrow>
          let serverNodesize = length subNumForNode
          in if serverNodesize = 0 then 0
             else let total = fold (\<lambda>p acc. fl (acc + of_int (snd p))) subNumForNode 0
                  in fl (total / of_nat serverNodesize) * 1)"

definition redistributeStatusMap :: "string \<Rightarrow> string \<Rightarrow> int \<Rightarrow> recordMap \<Rightarrow> recordMap res" where
  "redistributeStatusMap event addr num m =
     (let inner = map_at [] event m
      in bindR (chk_int (map_at 0 addr inner + num)) (\<lambda>v. Inr (map_put event (map_put addr v inner) m)))"

definition updateStatusMap :: "string \<Rightarrow> string \<Rightarrow> int \<Rightarrow> recordMap \<Rightarrow> recordMap" where
  "updateStatusMap event addr num m =
     (case map_of m event of
        None \<Rightarrow> map_put event (map_put addr num []) m
      | Some inner \<Rightarrow>
          (let m1 = map_put event (map_touch 0 addr inner) m
           in if num > map_at 0 addr inner then map_put event (map_put addr num inner) m1 else m1))"

definition calculateNewServerNum :: "int \<Rightarrow> rat \<Rightarrow> int \<Rightarrow> int res" where
  "calculateNewServerNum overLoadThreshold avg currSubNum =
     (if overLoadThreshold = 0 then Inl (Undefined Division_by_zero)
      else chk_int \<lfloor>fl (fl (fl (avg * of_int currSubNum) / of_int overLoadThreshold) - of_int currSubNum)\<rfloor>)"

definition fakeGetServerList :: "int \<Rightarrow> string list" where
  "fakeGetServerList num = map (\<lambda>i. ''fakeServer_'' @ to_string i) [0..num - 1]"

definition AddNewServer :: "string \<Rightarrow> string list \<Rightarrow> recordMap \<Rightarrow> recordMap" where
  "AddNewServer event addrs m =
     fold (\<lambda>addr m. map_put event (map_put addr 0 (map_at [] event m)) m) addrs m"

definition SortByMeta :: "SubMeta \<Rightarrow> SubMeta \<Rightarrow> bool" where
  "SortByMeta sbm1 sbm2 \<longleftrightarrow> subNumber sbm1 > subNumber sbm2"

definition generatePlan :: "string \<Rightarrow> string \<Rightarrow> string \<Rightarrow> int \<Rightarrow> Plan" where
  "generatePlan event src dest num =
     \<lparr>srcAddr = src, destAddr = dest, moveSubscription = event, moveNumber = num\<rparr>"

definition fakeRedistributeByPlan :: "Plan list \<Rightarrow> recordMap \<Rightarrow> recordMap res" where
  "fakeRedistributeByPlan planList m =
     foldR (\<lambda>plan m.
        bindR (chk_int (- moveNumber plan)) (\<lambda>d.
        bindR (redistributeStatusMap (moveSubscription plan) (srcAddr plan) d m) (\<lambda>m1.
          redistributeStatusMap (moveSubscription plan) (destAddr plan) (moveNumber plan) m1))) planList m"

text \<open>The loop of the planner over the sorted list, with its two cursors.\<close>

function planLoop :: "SubMeta list \<Rightarrow> string \<Rightarrow> int \<Rightarrow> nat \<Rightarrow> nat \<Rightarrow> Plan list \<Rightarrow> Plan list res" where
  "planLoop l event newAvg p1 p2 planList =
     (if p2 < length l then
        bindR (vec_at l p2) (\<lambda>b.
        if subNumber b \<ge> newAvg then planLoop l event newAvg p1 (Suc p2) planList
        else
          bindR (vec_at l p1) (\<lambda>a.
          bindR (chk_int (subNumber a - newAvg)) (\<lambda>supply.
          bindR (chk_int (newAvg - subNumber b)) (\<lambda>needNum.
            if supply \<ge> needNum
            then planLoop l event newAvg p1 (Suc p2)
                   (planList @ [generatePlan event (serverAddr a) (serverAddr b) needNum])
            else planLoop l event newAvg (Suc p1) p2
                   (planList @ [generatePlan event (serverAddr a) (serverAddr b) supply])))))
      else Inr planList)"
  by pat_completeness auto

lemma vec_at_bound: "vec_at xs i = Inr x \<Longrightarrow> i < length xs \<and> x = xs ! i"
  by (simp add: vec_at_def split: if_splits)

termination planLoop
  by (relation "measure (\<lambda>(l, _, _, p1, p2, _). (length l - p1) + (length l - p2))")
     (auto dest: vec_at_bound)

declare planLoop.simps [simp del]

text \<open>\<open>eventRecordMap[imbEvent]\<close> creates a missing entry, so the map is returned too.\<close>

definition generatePlanForEvent ::
  "(SubMeta list \<Rightarrow> SubMeta list) \<Rightarrow> string \<Rightarrow> recordMap \<Rightarrow> (Plan list \<times> recordMap) res" where
  "generatePlanForEvent sorter imbEvent m0 =
     (let m = map_touch [] imbEvent m0;
          innerMap = map_at [] imbEvent m;
          avg = getAverage imbEvent m;
          subMetaList = map (\<lambda>(saddr, num). \<lparr>serverAddr = saddr, subNumber = num\<rparr>) innerMap
      in if length subMetaList \<le> 1 then Inr ([], m)
         else bindR (chk_int \<lceil>avg\<rceil>) (\<lambda>newAvg.
                bindR (planLoop (sorter subMetaList) imbEvent newAvg 0 1 [])
                  (\<lambda>planList. Inr (planList, m))))"

section \<open>The contract of the sort\<close>

locale std_sort =
  fixes sorter :: "SubMeta list \<Rightarrow> SubMeta list"
  assumes sort_perm: "mset (sorter l) = mset l"
    and sort_order: "sorted_wrt (\<lambda>a b. \<not> SortByMeta b a) (sorter l)"
begin

lemma sort_length [simp]: "length (sorter l) = length l"
  by (metis sort_perm size_mset)

lemma sort_set: "set (sorter l) = set l"
  by (metis sort_perm set_mset_mset)

lemma sort_desc: "i \<le> j \<Longrightarrow> j < length l \<Longrightarrow> subNumber (sorter l ! j) \<le> subNumber (sorter l ! i)"
  using sorted_wrt_nth_less[OF sort_order, of i j l]
  by (cases "i = j") (auto simp: SortByMeta_def not_less)

lemma sort_first: "x \<in> set l \<Longrightarrow> subNumber x \<le> subNumber (sorter l ! 0)"
  by (metis in_set_conv_nth le0 sort_desc sort_length sort_set)

lemma sort_last: "x \<in> set l \<Longrightarrow> subNumber (sorter l ! (length l - 1)) \<le> subNumber x"
proof -
  assume "x \<in> set l"
  then obtain i where "i < length l" "x = sorter l ! i"
    by (metis in_set_conv_nth sort_length sort_set)
  then show ?thesis using sort_desc[of i "length l - 1" l] by simp
qed

end

text \<open>The library sort on the negated count is one such sort.\<close>

definition by_count :: "SubMeta list \<Rightarrow> SubMeta list" where
  "by_count l = sort_key (\<lambda>b. - subNumber b) l"

interpretation srt: std_sort by_count
proof
  fix l :: "SubMeta list"
  show "mset (by_count l) = mset l" by (simp add: by_count_def)
  have "sorted_wrt (\<lambda>a b. - subNumber a \<le> - subNumber b) (by_count l)"
    using sorted_sort_key[of "\<lambda>b. - subNumber b" l] by (simp add: by_count_def sorted_map)
  then show "sorted_wrt (\<lambda>a b. \<not> SortByMeta b a) (by_count l)"
    by (simp add: SortByMeta_def not_less)
qed

section \<open>Lemmas: the average\<close>

definition total_of :: "(string, int) std_map \<Rightarrow> int" where
  "total_of inner = sum_list (map snd inner)"

text \<open>The average rounded up, in exact arithmetic.\<close>

definition avg_up :: "(string, int) std_map \<Rightarrow> int" where
  "avg_up inner = \<lceil>(of_int (total_of inner) / of_nat (length inner) :: rat)\<rceil>"

text \<open>Counts as the servers report them, and few enough that the sum is exact in a double.\<close>

definition counts_ok :: "(string, int) std_map \<Rightarrow> bool" where
  "counts_ok inner \<longleftrightarrow> list_all (\<lambda>p. 0 \<le> snd p \<and> snd p \<le> INT_MAX) inner \<and> length inner \<le> 2 ^ 22"

lemma total_bounds:
  assumes "counts_ok inner"
  shows "0 \<le> total_of inner" and "total_of inner \<le> int (length inner) * INT_MAX"
    and "(\<Sum>x\<leftarrow>map snd inner. \<bar>x\<bar>) = total_of inner"
proof -
  have all: "\<forall>x \<in> set (map snd inner). 0 \<le> x \<and> x \<le> INT_MAX"
    using assms by (auto simp: counts_ok_def list_all_iff)
  have gen: "0 \<le> sum_list xs \<and> sum_list xs \<le> int (length xs) * INT_MAX \<and> (\<Sum>x\<leftarrow>xs. \<bar>x\<bar>) = sum_list xs"
    if "\<forall>x \<in> set xs. 0 \<le> x \<and> x \<le> INT_MAX" for xs :: "int list"
    using that by (induction xs) (auto simp: algebra_simps)
  show "0 \<le> total_of inner" "total_of inner \<le> int (length inner) * INT_MAX"
      "(\<Sum>x\<leftarrow>map snd inner. \<bar>x\<bar>) = total_of inner"
    using gen[OF all] by (simp_all add: total_of_def)
qed

lemma total_small: "counts_ok inner \<Longrightarrow> total_of inner < 2 ^ 53"
proof -
  assume ok: "counts_ok inner"
  then have "int (length inner) \<le> 2 ^ 22" by (simp add: counts_ok_def)
  then have "int (length inner) * INT_MAX \<le> 2 ^ 22 * INT_MAX" by (rule mult_right_mono) (simp add: INT_MAX_def)
  with total_bounds(2)[OF ok] show ?thesis by (simp add: INT_MAX_def)
qed

lemma getAverage_up:
  assumes "map_of m event = Some inner" and "inner \<noteq> []" and ok: "counts_ok inner"
  shows "\<lceil>getAverage event m\<rceil> = avg_up inner"
proof -
  have "fold (\<lambda>p acc. fl (acc + of_int (snd p))) inner 0 =
      fold (\<lambda>x acc. fl (acc + of_int x)) (map snd inner) (of_int 0)"
    by (simp add: fold_map comp_def)
  also have "\<dots> = of_int (total_of inner)"
    using dbl.sum_exact[of 0 "map snd inner"] total_bounds(3)[OF ok] total_small[OF ok]
    by (simp add: total_of_def)
  finally have "getAverage event m = fl (of_int (total_of inner) / of_int (int (length inner)))"
    using assms by (simp add: getAverage_def Let_def)
  then show ?thesis
    using dbl.ceiling_quotient[of "total_of inner" "int (length inner)"] total_bounds(1)[OF ok]
      total_small[OF ok] assms(2)
    by (simp add: avg_up_def)
qed

lemma avg_up_bounds:
  assumes "inner \<noteq> []" and ok: "counts_ok inner"
  shows "0 \<le> avg_up inner \<and> avg_up inner \<le> INT_MAX"
proof -
  have len: "(0 :: rat) < of_nat (length inner)" using assms(1) by simp
  have "(of_int (total_of inner) :: rat) \<le> of_int (INT_MAX * int (length inner))"
    using total_bounds(2)[OF ok] by (subst of_int_le_iff) (simp add: mult.commute)
  then have "of_int (total_of inner) / of_nat (length inner) \<le> (of_int INT_MAX :: rat)"
    using len by (simp add: pos_divide_le_eq)
  moreover have "(0 :: rat) \<le> of_int (total_of inner) / of_nat (length inner)"
    using total_bounds(1)[OF ok] by simp
  ultimately show ?thesis
    unfolding avg_up_def by (metis ceiling_le_iff zero_le_ceiling order_less_le_trans neg_less_0_iff_less zero_less_one)
qed

section \<open>Lemmas: the planner\<close>

definition in_range :: "int \<Rightarrow> SubMeta list \<Rightarrow> bool" where
  "in_range A l \<longleftrightarrow> 0 \<le> A \<and> A \<le> INT_MAX \<and> (\<forall>b \<in> set l. 0 \<le> subNumber b \<and> subNumber b \<le> INT_MAX)"

lemma in_range_diff:
  "in_range A l \<Longrightarrow> b \<in> set l \<Longrightarrow> is_int32 (subNumber b - A) \<and> is_int32 (A - subNumber b)"
  by (auto simp: in_range_def is_int32_def INT_MIN_def INT_MAX_def)

text \<open>One round of the loop.\<close>

lemma planLoop_step:
  assumes "in_range A l" and "p2 < length l" and "p1 < length l"
  shows "planLoop l ev A p1 p2 acc =
     (if subNumber (l ! p2) \<ge> A then planLoop l ev A p1 (Suc p2) acc
      else if subNumber (l ! p1) - A \<ge> A - subNumber (l ! p2)
      then planLoop l ev A p1 (Suc p2)
        (acc @ [generatePlan ev (serverAddr (l ! p1)) (serverAddr (l ! p2)) (A - subNumber (l ! p2))])
      else planLoop l ev A (Suc p1) p2
        (acc @ [generatePlan ev (serverAddr (l ! p1)) (serverAddr (l ! p2)) (subNumber (l ! p1) - A)]))"
  using in_range_diff[OF assms(1)] assms(2,3) by (subst planLoop.simps) simp

text \<open>A need that the first cursor cannot cover sends it past the end: the supplies behind it are
  smaller still.\<close>

lemma planLoop_stuck:
  assumes "in_range A l" and "p2 < length l" and "subNumber (l ! p2) < A"
    and "\<And>i. p1 \<le> i \<Longrightarrow> i < length l \<Longrightarrow> subNumber (l ! i) - A < A - subNumber (l ! p2)"
  shows "planLoop l ev A p1 p2 acc = Inl (Undefined Vector_index)"
  using assms(4)
proof (induction "length l - p1" arbitrary: p1 acc)
  case 0
  then show ?case using assms(2,3) by (subst planLoop.simps) simp
next
  case (Suc n)
  then have p1: "p1 < length l" by simp
  have "planLoop l ev A p1 p2 acc = planLoop l ev A (Suc p1) p2
      (acc @ [generatePlan ev (serverAddr (l ! p1)) (serverAddr (l ! p2)) (subNumber (l ! p1) - A)])"
    using planLoop_step[OF assms(1,2) p1, of ev acc] assms(3) Suc.prems[of p1] p1 by simp
  then show ?case using Suc.hyps(1)[of "Suc p1"] Suc.hyps(2) Suc.prems by simp
qed

definition plans_from :: "string \<Rightarrow> int \<Rightarrow> SubMeta \<Rightarrow> SubMeta list \<Rightarrow> Plan list" where
  "plans_from ev A a bs =
     map (\<lambda>b. generatePlan ev (serverAddr a) (serverAddr b) (A - subNumber b)) (filter (\<lambda>b. subNumber b < A) bs)"

lemma planLoop_outcome:
  assumes "in_range A l" and "l \<noteq> []" and desc: "\<And>i. i < length l \<Longrightarrow> subNumber (l ! i) \<le> subNumber (l ! 0)"
  shows "planLoop l ev A 0 p2 acc =
     (if \<forall>b \<in> set (drop p2 l). subNumber b \<ge> A \<or> 2 * A \<le> subNumber (l ! 0) + subNumber b
      then Inr (acc @ plans_from ev A (l ! 0) (drop p2 l))
      else Inl (Undefined Vector_index))"
proof (induction "length l - p2" arbitrary: p2 acc)
  case 0
  then show ?case by (subst planLoop.simps) (simp add: plans_from_def)
next
  case (Suc n)
  then have p2: "p2 < length l" by simp
  have d: "drop p2 l = l ! p2 # drop (Suc p2) l" using p2 by (rule Cons_nth_drop_Suc[symmetric])
  have n: "n = length l - Suc p2" using Suc.hyps(2) by simp
  note step = planLoop_step[OF assms(1) p2, of 0 ev acc] and IH = Suc.hyps(1)[OF n]
  have l0: "0 < length l" using assms(2) by simp
  consider "A \<le> subNumber (l ! p2)" | "subNumber (l ! p2) < A" "2 * A \<le> subNumber (l ! 0) + subNumber (l ! p2)"
    | "subNumber (l ! p2) < A" "\<not> 2 * A \<le> subNumber (l ! 0) + subNumber (l ! p2)" by linarith
  then show ?case
  proof cases
    case 1
    then show ?thesis using step[OF l0] IH by (simp add: d plans_from_def)
  next
    case 2
    then show ?thesis using step[OF l0] IH by (simp add: d plans_from_def)
  next
    case 3
    have "subNumber (l ! i) - A < A - subNumber (l ! p2)" if "i < length l" for i
      using desc[OF that] 3 by linarith
    then have "planLoop l ev A 0 p2 acc = Inl (Undefined Vector_index)"
      using 3 by (intro planLoop_stuck[OF assms(1) p2]) auto
    with 3 show ?thesis by (simp add: d)
  qed
qed

definition metas :: "(string, int) std_map \<Rightarrow> SubMeta list" where
  "metas inner = map (\<lambda>(saddr, num). \<lparr>serverAddr = saddr, subNumber = num\<rparr>) inner"

lemma length_metas [simp]: "length (metas inner) = length inner"
  by (simp add: metas_def)

lemma metas_counts: "subNumber ` set (metas inner) = snd ` set inner"
  by (force simp: metas_def image_def)

definition max_count :: "(string, int) std_map \<Rightarrow> int" where
  "max_count inner = Max (snd ` set inner)"

definition min_count :: "(string, int) std_map \<Rightarrow> int" where
  "min_count inner = Min (snd ` set inner)"

context std_sort
begin

lemma sort_ends:
  assumes "inner \<noteq> []"
  shows "subNumber (sorter (metas inner) ! 0) = max_count inner"
    and "subNumber (sorter (metas inner) ! (length inner - 1)) = min_count inner"
proof -
  let ?l = "sorter (metas inner)"
  have len: "length (metas inner) = length inner" by (simp add: metas_def)
  have "?l ! i \<in> set (metas inner)" if "i < length inner" for i
    using that len by (metis nth_mem sort_length sort_set)
  then have mem: "subNumber (?l ! i) \<in> snd ` set inner" if "i < length inner" for i
    using that metas_counts[of inner] by blast
  have "x \<le> subNumber (?l ! 0)" if "x \<in> snd ` set inner" for x
    using that sort_first[of _ "metas inner"] metas_counts[of inner] by (metis image_iff)
  with mem[of 0] assms show "subNumber (?l ! 0) = max_count inner"
    unfolding max_count_def by (intro Max_eqI[symmetric]) auto
  have "subNumber (?l ! (length inner - 1)) \<le> x" if "x \<in> snd ` set inner" for x
    using that sort_last[of _ "metas inner"] metas_counts[of inner] len by (metis image_iff)
  with mem[of "length inner - 1"] assms show "subNumber (?l ! (length inner - 1)) = min_count inner"
    unfolding min_count_def by (intro Min_eqI[symmetric]) auto
qed

lemma generatePlan_outcome:
  assumes m: "map_of m ev = Some inner" and len: "2 \<le> length inner" and ok: "counts_ok inner"
  shows "generatePlanForEvent sorter ev m =
     (if 2 * avg_up inner \<le> max_count inner + min_count inner
      then Inr (plans_from ev (avg_up inner) (sorter (metas inner) ! 0) (drop 1 (sorter (metas inner))), m)
      else Inl (Undefined Vector_index))"
proof -
  let ?l = "sorter (metas inner)" and ?A = "avg_up inner"
  have ne: "inner \<noteq> []" using len by auto
  have ll: "length ?l = length inner" by (simp add: metas_def)
  have rng: "in_range ?A ?l"
    using avg_up_bounds[OF ne ok] ok metas_counts[of inner]
    by (force simp: in_range_def sort_set counts_ok_def list_all_iff)
  have A32: "is_int32 ?A"
    using avg_up_bounds[OF ne ok] by (simp add: is_int32_def INT_MIN_def)
  have desc: "subNumber (?l ! i) \<le> subNumber (?l ! 0)" if "i < length ?l" for i
    using sort_desc[of 0 i "metas inner"] that by simp
  have last: "?l ! (length inner - 1) \<in> set (drop 1 ?l)"
  proof -
    have "drop 1 ?l ! (length inner - 2) = ?l ! (length inner - 1)"
      using len ll by (simp add: nth_drop numeral_2_eq_2 Suc_diff_Suc)
    then show ?thesis using len ll by (metis nth_mem length_drop One_nat_def Suc_1 diff_less_mono2 lessI less_le_trans)
  qed
  have low: "min_count inner \<le> subNumber b" if "b \<in> set ?l" for b
    using that sort_last[of b "metas inner"] sort_ends(2)[OF ne] by (simp add: sort_set metas_def)
  have "(\<forall>b \<in> set (drop 1 ?l). subNumber b \<ge> ?A \<or> 2 * ?A \<le> subNumber (?l ! 0) + subNumber b) \<longleftrightarrow>
      2 * ?A \<le> max_count inner + min_count inner"
  proof
    assume "\<forall>b \<in> set (drop 1 ?l). subNumber b \<ge> ?A \<or> 2 * ?A \<le> subNumber (?l ! 0) + subNumber b"
    then have "min_count inner \<ge> ?A \<or> 2 * ?A \<le> max_count inner + min_count inner"
      using last sort_ends[OF ne] by fastforce
    moreover have "min_count inner \<le> max_count inner"
      using desc[of "length inner - 1"] sort_ends[OF ne] len ll by simp
    ultimately show "2 * ?A \<le> max_count inner + min_count inner" by linarith
  next
    assume "2 * ?A \<le> max_count inner + min_count inner"
    then show "\<forall>b \<in> set (drop 1 ?l). subNumber b \<ge> ?A \<or> 2 * ?A \<le> subNumber (?l ! 0) + subNumber b"
      using low in_set_dropD sort_ends(1)[OF ne] by fastforce
  qed
  moreover have "?l \<noteq> []" using ll ne by (metis length_0_conv)
  ultimately show ?thesis
    using planLoop_outcome[OF rng _ desc, of ev 1 "[]"] m len ok A32 ne
    by (simp add: generatePlanForEvent_def map_at_def getAverage_up metas_def[symmetric] Let_def)
qed

end

section \<open>Lemmas: the status map\<close>

definition recorded :: "string \<Rightarrow> string \<Rightarrow> recordMap \<Rightarrow> int" where
  "recorded ev addr m = map_at 0 addr (map_at [] ev m)"

lemma recorded_update:
  assumes "0 \<le> num"
  shows "recorded ev' addr' (updateStatusMap ev addr num m) =
     (if ev' = ev \<and> addr' = addr then max (recorded ev addr m) num else recorded ev' addr' m)"
  using assms
  by (auto simp: recorded_def updateStatusMap_def map_at_def Let_def map_touch_def max_def
      split: option.splits)

definition reports :: "(string \<times> string \<times> int) list \<Rightarrow> recordMap \<Rightarrow> recordMap" where
  "reports rs m = fold (\<lambda>(ev, addr, num). updateStatusMap ev addr num) rs m"

lemma recorded_reports:
  assumes "\<forall>(ev, addr, num) \<in> set rs. 0 \<le> num"
  shows "recorded ev addr (reports rs m) =
     Max (insert (recorded ev addr m) {num. (ev, addr, num) \<in> set rs})"
  using assms
proof (induction rs arbitrary: m)
  case Nil
  then show ?case by (simp add: reports_def)
next
  case (Cons r rs)
  obtain e a n where r: "r = (e, a, n)" by (cases r) auto
  let ?S = "{num. (ev, addr, num) \<in> set rs}"
  have "?S = (\<lambda>(_, _, num). num) ` (set rs \<inter> {r. fst r = ev \<and> fst (snd r) = addr})"
    by (force simp: image_def)
  then have fin: "finite ?S" by simp
  have IH: "recorded ev addr (reports (r # rs) m) =
      Max (insert (recorded ev addr (updateStatusMap e a n m)) ?S)"
    using Cons by (simp add: r reports_def)
  show ?case
  proof (cases "e = ev \<and> a = addr")
    case True
    then have "{num. (ev, addr, num) \<in> set (r # rs)} = insert n ?S" by (auto simp: r)
    moreover have "Max (insert (max (recorded ev addr m) n) ?S) = Max (insert (recorded ev addr m) (insert n ?S))"
      using fin by (cases "?S = {}") (simp_all add: max.assoc)
    ultimately show ?thesis using IH Cons.prems True by (simp add: r recorded_update)
  next
    case False
    then have "{num. (ev, addr, num) \<in> set (r # rs)} = ?S" by (auto simp: r)
    with IH Cons.prems False show ?thesis by (auto simp: r recorded_update)
  qed
qed

lemma total_put:
  "wf_map inner \<Longrightarrow> total_of (map_put k v inner) = total_of inner - map_at 0 k inner + v"
proof (induction inner)
  case Nil
  then show ?case by (simp add: total_of_def map_at_def)
next
  case (Cons p inner)
  have "k < fst p \<Longrightarrow> map_of inner k = None"
    using Cons.prems by (fastforce simp: wf_map_Cons map_of_None_keys)
  with Cons show ?case by (auto simp: total_of_def map_at_def wf_map_Cons)
qed

definition wf_records :: "recordMap \<Rightarrow> bool" where
  "wf_records m \<longleftrightarrow> wf_map m \<and> (\<forall>ev. wf_map (map_at [] ev m))"

lemma map_at_fun_upd: "map_at d ev' (map_put ev v m) = (if ev' = ev then v else map_at d ev' m)"
  by simp

lemma redistributeStatusMap_total:
  assumes "redistributeStatusMap ev addr n m = Inr m'" and "wf_records m"
  shows "wf_records m' \<and> total_of (map_at [] ev' m') = total_of (map_at [] ev' m) + (if ev' = ev then n else 0)
    \<and> recorded ev' addr' m' = recorded ev' addr' m + (if ev' = ev \<and> addr' = addr then n else 0)"
proof -
  have m': "m' = map_put ev (map_put addr (map_at 0 addr (map_at [] ev m) + n) (map_at [] ev m)) m"
    using assms(1) by (auto simp: redistributeStatusMap_def bindR_eq_Inr chk_int_def Let_def split: if_splits)
  show ?thesis
    using assms(2) by (auto simp: m' wf_records_def map_at_fun_upd total_put recorded_def)
qed

lemma fakeRedistribute_total:
  assumes "fakeRedistributeByPlan ps m = Inr m'" and "wf_records m"
  shows "wf_records m' \<and> total_of (map_at [] ev m') = total_of (map_at [] ev m)"
proof -
  let ?P = "\<lambda>m'. wf_records m' \<and> total_of (map_at [] ev m') = total_of (map_at [] ev m)"
  have "?P t'" if "?P t" and step: "bindR (chk_int (- moveNumber p)) (\<lambda>d.
        bindR (redistributeStatusMap (moveSubscription p) (srcAddr p) d t) (\<lambda>m1.
          redistributeStatusMap (moveSubscription p) (destAddr p) (moveNumber p) m1)) = Inr t'" for t t' p
  proof -
    from step obtain u where u: "redistributeStatusMap (moveSubscription p) (srcAddr p) (- moveNumber p) t = Inr u"
      "redistributeStatusMap (moveSubscription p) (destAddr p) (moveNumber p) u = Inr t'"
      by (auto simp: bindR_eq_Inr chk_int_def split: if_splits)
    show ?thesis
      using redistributeStatusMap_total[OF u(1), of ev] redistributeStatusMap_total[OF u(2), of ev] \<open>?P t\<close>
      by (auto split: if_splits)
  qed
  then show ?thesis
    using foldR_inv[where P = ?P, OF assms(1)[unfolded fakeRedistributeByPlan_def]] assms(2) by blast
qed

section \<open>Properties\<close>

text \<open>C28: the planner returns only for mild imbalance. For two or more servers and any conforming
  sort, \<open>generatePlanForEvent\<close> returns exactly when the largest and the smallest count together reach
  twice the rounded-up average; otherwise its first cursor runs past the end of the vector.\<close>

theorem generatePlan_returns_iff:
  assumes "std_sort sorter" and "map_of m ev = Some inner" and "2 \<le> length inner" and "counts_ok inner"
  shows "(returns (generatePlanForEvent sorter ev m) \<longleftrightarrow> 2 * avg_up inner \<le> max_count inner + min_count inner)
    \<and> (\<not> 2 * avg_up inner \<le> max_count inner + min_count inner \<longrightarrow>
         generatePlanForEvent sorter ev m = Inl (Undefined Vector_index))"
  using std_sort.generatePlan_outcome[OF assms] by simp

theorem generatePlan_returns_iff_witness:
  "generatePlanForEvent by_count ''e'' [(''e'', [(''s1'', 3), (''s2'', 2)])] = Inl (Undefined Vector_index)"
proof -
  let ?i = "[(''s1'', 3), (''s2'', 2)] :: (string, int) std_map"
  have "avg_up ?i = 3" "max_count ?i = 3" "min_count ?i = 2" by code_simp+
  moreover have "counts_ok ?i" by (simp add: counts_ok_def INT_MAX_def)
  ultimately show ?thesis
    using generatePlan_returns_iff[OF srt.std_sort_axioms, of "[(''e'', ?i)]" "''e''" ?i] by simp
qed

text \<open>C29: what a plan says. When the planner returns, every server below the rounded-up average gets
  one plan that fills it up to the average, all of them from the most loaded server, and the record
  map is unchanged.\<close>

theorem generatePlan_content:
  assumes "std_sort sorter" and "map_of m ev = Some inner" and "2 \<le> length inner" and "counts_ok inner"
    and "generatePlanForEvent sorter ev m = Inr (plans, m')"
  shows "m' = m \<and> (\<exists>l. mset l = mset (metas inner) \<and> subNumber (hd l) = max_count inner \<and>
      plans = plans_from ev (avg_up inner) (hd l) (tl l))"
proof -
  let ?l = "sorter (metas inner)"
  have plans: "plans = plans_from ev (avg_up inner) (?l ! 0) (drop 1 ?l) \<and> m' = m"
    using std_sort.generatePlan_outcome[OF assms(1-4)] assms(5) by (simp split: if_splits)
  have "length ?l = length inner" using std_sort.sort_length[OF assms(1)] by simp
  with assms(3) have ne: "?l \<noteq> []" "inner \<noteq> []" by auto
  have "mset ?l = mset (metas inner)" by (rule std_sort.sort_perm[OF assms(1)])
  moreover have "subNumber (hd ?l) = max_count inner"
    using std_sort.sort_ends(1)[OF assms(1) ne(2)] ne(1) by (simp add: hd_conv_nth)
  moreover have "plans = plans_from ev (avg_up inner) (hd ?l) (tl ?l)"
    using plans ne(1) by (simp add: hd_conv_nth drop_Suc)
  ultimately show ?thesis using plans by blast
qed

theorem generatePlan_content_witness:
  "\<exists>l. mset l = mset (metas [(''s1'', 5), (''s2'', 1)]) \<and> subNumber (hd l) = 5 \<and>
     generatePlanForEvent by_count ''e'' [(''e'', [(''s1'', 5), (''s2'', 1)])] =
       Inr (plans_from ''e'' 3 (hd l) (tl l), [(''e'', [(''s1'', 5), (''s2'', 1)])])"
proof -
  let ?i = "[(''s1'', 5), (''s2'', 1)] :: (string, int) std_map"
  have ev: "avg_up ?i = 3" "max_count ?i = 5" "min_count ?i = 1" by code_simp+
  have ok: "counts_ok ?i" by (simp add: counts_ok_def INT_MAX_def)
  have "returns (generatePlanForEvent by_count ''e'' [(''e'', ?i)])"
    using srt.generatePlan_outcome[of "[(''e'', ?i)]" "''e''" ?i] ev ok by simp
  then obtain plans m' where p: "generatePlanForEvent by_count ''e'' [(''e'', ?i)] = Inr (plans, m')"
    by (auto simp: returns_iff)
  show ?thesis
    using generatePlan_content[OF srt.std_sort_axioms _ _ ok p] p unfolding ev by auto
qed

text \<open>The planner overdraws. The supply of the source is not reduced by the plans already made,
  so with loads 3, 3, 0, 0, 0, 0 it plans to move four subscriptions away from a server that has
  three, and carrying the plans out on the record leaves that server with a negative count.\<close>

theorem generatePlan_overdraws:
  "let m = [(''e'', [(''s1'', 3), (''s2'', 3), (''s3'', 0), (''s4'', 0), (''s5'', 0), (''s6'', 0)])]
   in case generatePlanForEvent by_count ''e'' m of
        Inl _ \<Rightarrow> False
      | Inr (plans, m') \<Rightarrow>
          list_all (\<lambda>p. srcAddr p = ''s1'') plans \<and> sum_list (map moveNumber plans) = 4
          \<and> (case fakeRedistributeByPlan plans m' of
               Inl _ \<Rightarrow> False | Inr m2 \<Rightarrow> recorded ''e'' ''s1'' m2 = - 1)"
proof -
  let ?i = "[(''s1'', 3), (''s2'', 3), (''s3'', 0), (''s4'', 0), (''s5'', 0), (''s6'', 0)] :: (string, int) std_map"
  have ev: "avg_up ?i = 1" "max_count ?i = 3" "min_count ?i = 0" by code_simp+
  have ok: "counts_ok ?i" by (simp add: counts_ok_def INT_MAX_def)
  have l: "by_count (metas ?i) = metas ?i" by code_simp
  have "generatePlanForEvent by_count ''e'' [(''e'', ?i)] =
      Inr (plans_from ''e'' 1 (metas ?i ! 0) (drop 1 (metas ?i)), [(''e'', ?i)])"
    using srt.generatePlan_outcome[of "[(''e'', ?i)]" "''e''" ?i] ok unfolding ev l by simp
  moreover have "list_all (\<lambda>p. srcAddr p = ''s1'') (plans_from ''e'' 1 (metas ?i ! 0) (drop 1 (metas ?i)))"
    "sum_list (map moveNumber (plans_from ''e'' 1 (metas ?i ! 0) (drop 1 (metas ?i)))) = 4"
    by code_simp+
  moreover have "(case fakeRedistributeByPlan (plans_from ''e'' 1 (metas ?i ! 0) (drop 1 (metas ?i))) [(''e'', ?i)] of
      Inl _ \<Rightarrow> False | Inr m2 \<Rightarrow> recorded ''e'' ''s1'' m2 = - 1)"
    by code_simp
  ultimately show ?thesis by (simp only: Let_def sum.case prod.case)
qed

text \<open>Reports can arrive in any order. The status map holds, for each event and server, the
  largest count reported so far (zero when there was none).\<close>

theorem updateStatusMap_maximum:
  assumes "\<forall>(ev, addr, num) \<in> set rs. 0 \<le> num"
  shows "recorded ev addr (reports rs []) = Max (insert 0 {num. (ev, addr, num) \<in> set rs})"
  using recorded_reports[OF assms, of ev addr "[]"] by (simp add: recorded_def map_at_def)

theorem updateStatusMap_maximum_witness:
  "recorded ''e'' ''s'' (reports [(''e'', ''s'', 4), (''e'', ''t'', 9), (''e'', ''s'', 2)] []) = 4"
proof -
  have "{num. (''e'', ''s'', num) \<in> set [(''e'', ''s'', 4), (''e'', ''t'', 9), (''e'', ''s'', 2)]} = {4, 2 :: int}"
    by auto
  then show ?thesis
    using updateStatusMap_maximum[of "[(''e'', ''s'', 4), (''e'', ''t'', 9), (''e'', ''s'', 2)]" "''e''" "''s''"]
    by simp
qed

text \<open>Carrying out plans on the record moves subscriptions and never creates or loses any: the
  total per event is unchanged, whatever the plans are.\<close>

theorem fakeRedistribute_conserves:
  assumes "fakeRedistributeByPlan plans m = Inr m'" and "wf_records m"
  shows "total_of (map_at [] ev m') = total_of (map_at [] ev m)"
  using fakeRedistribute_total[OF assms] by simp

theorem fakeRedistribute_conserves_witness:
  "\<exists>m'. fakeRedistributeByPlan [generatePlan ''e'' ''s1'' ''s2'' 2] [(''e'', [(''s1'', 5), (''s2'', 1)])] = Inr m'
     \<and> total_of (map_at [] ''e'' m') = 6"
proof -
  let ?m = "[(''e'', [(''s1'', 5), (''s2'', 1)])] :: recordMap"
  have "returns (fakeRedistributeByPlan [generatePlan ''e'' ''s1'' ''s2'' 2] ?m)" by code_simp
  then obtain m' where m': "fakeRedistributeByPlan [generatePlan ''e'' ''s1'' ''s2'' 2] ?m = Inr m'"
    by (auto simp: returns_iff)
  have "wf_map [(''s1'', 5 :: int), (''s2'', 1)]" by code_simp
  then have "wf_records ?m" by (auto simp: wf_records_def map_at_def wf_map_Cons)
  from fakeRedistribute_conserves[OF m' this, of "''e''"] m' show ?thesis
    by (simp add: total_of_def map_at_def)
qed

text \<open>C37: the average of the coordinator, computed in doubles and rounded up, is the exact average
  rounded up, for up to \<open>2^22\<close> servers with nonnegative 32-bit counts.\<close>

theorem getAverage_exact:
  assumes "map_of m event = Some inner" and "inner \<noteq> []" and "counts_ok inner"
  shows "\<lceil>getAverage event m\<rceil> = \<lceil>(of_int (sum_list (map snd inner)) / of_nat (length inner) :: rat)\<rceil>"
  using getAverage_up[OF assms] by (simp add: avg_up_def total_of_def)

theorem getAverage_exact_witness: "\<lceil>getAverage ''e'' [(''e'', [(''a'', 1), (''b'', 0), (''c'', 0)])]\<rceil> = 1"
proof -
  have "counts_ok [(''a'', 1), (''b'', 0), (''c'', 0)]" by (simp add: counts_ok_def INT_MAX_def)
  moreover have "\<lceil>(of_int 1 / of_nat 3 :: rat)\<rceil> = 1" by code_simp
  ultimately show ?thesis
    using getAverage_exact[of "[(''e'', [(''a'', 1), (''b'', 0), (''c'', 0)])]" "''e''" "[(''a'', 1), (''b'', 0), (''c'', 0)]"]
    by simp
qed

end
