(* ===== verification/WorkflowServer.thy ===== *)
theory WorkflowServer
  imports PubSubSpec PubSubClient Coordinator
begin

text \<open>
  The server process, \<open>src/src/server/workflowserver.cc\<close>. Its state joins the registry, the group
  membership, the client tables and the load record with the queues between its threads: the tasks
  handed to the thread pool, the notifications waiting to be sent, and the detached broadcast
  threads. A request handler is one atomic operation; tasks, notification rounds and broadcasts are
  operations of their own, so that the step relation interleaves them. A call to another server is
  appended to \<open>sent\<close> and its answer comes from the parameter \<open>net\<close>. Time stamps, averages of response
  times and log output are left out.
\<close>

section \<open>State\<close>

definition sourceIngroup :: string where "sourceIngroup = ''SERVERINGROUP''"
definition sourceBetweengroup :: string where "sourceBetweengroup = ''SERVERBTGROUP''"
definition sourceClient :: string where "sourceClient = ''CLIENT''"

record NotifyInfo =
  naddr :: string
  metaInfo :: string
  nclientid :: string

text \<open>A detached broadcast thread.\<close>

datatype bcast = MultiServer "string list" string | MultiGroup "string list" string

record server =
  reg :: pubsub
  grp :: gm
  cli :: clients
  eventRecordMap :: recordMap
  ServerAddr :: string
  propagateSub :: bool
  propagatePub :: bool
  pool :: "addr list"                \<comment> \<open>arguments of the queued \<open>checkNotify\<close> tasks\<close>
  notifyQueue :: "NotifyInfo list"
  threads :: "bcast list"
  sent :: "(string \<times> rpc) list"
  commands :: "string list"          \<comment> \<open>what was passed to \<open>system\<close>\<close>

definition send :: "string \<Rightarrow> rpc \<Rightarrow> server \<Rightarrow> server" where
  "send addr r s = s\<lparr>sent := sent s @ [(addr, r)]\<rparr>"

section \<open>Broadcasting\<close>

definition publishMultiGroup :: "string list \<Rightarrow> string \<Rightarrow> server \<Rightarrow> server" where
  "publishMultiGroup evs meta s =
     fold (\<lambda>coordNator s.
        if coordNator \<noteq> ServerAddr s
        then send coordNator (RpcPublish (publish_request evs sourceBetweengroup meta ''NAME'')) s else s)
       (coordinatorAddrSet (grp s)) s"

fun publishWorkers :: "net \<Rightarrow> string list \<Rightarrow> string \<Rightarrow> string list \<Rightarrow> server \<Rightarrow> server" where
  "publishWorkers net evs meta [] s = s"
| "publishWorkers net evs meta (tempaddr # ws) s =
     (if ServerAddr s \<noteq> tempaddr
      then let s' = send tempaddr (RpcPublish (publish_request evs sourceIngroup meta ''NAME'')) s
           in if Publish_stub net tempaddr evs sourceIngroup meta ''NAME'' \<noteq> ''OK'' then s'
              else publishWorkers net evs meta ws s'
      else publishWorkers net evs meta ws s)"

definition publishMultiServer :: "net \<Rightarrow> string list \<Rightarrow> string \<Rightarrow> server \<Rightarrow> server" where
  "publishMultiServer net evs meta s =
     publishWorkers net evs meta (loadAddrInDir (GM_CLUSTERDIR (grp s) @ ''/'' @ gm_workerDir) (gm_os (grp s))) s"

section \<open>Notification\<close>

definition checkNotify :: "addr \<Rightarrow> server \<Rightarrow> server res" where
  "checkNotify psw s =
     bindR (deref (reg s) psw) (\<lambda>w.
       if \<not> iftrigure w then Inr s
       else
         let ninfo = \<lparr>naddr = peerURL w, metaInfo = pubMetadata w, nclientid = clientID w\<rparr>;
             s1 = s\<lparr>reg := poke psw (w\<lparr>iftrigure := False\<rparr>) (reg s), notifyQueue := notifyQueue s @ [ninfo]\<rparr>
         in if matchType w = ''NAME''
            then bindR (deletePubEvent psw (reg s1)) (\<lambda>r. Inr (s1\<lparr>reg := r\<rparr>))
            else Inr s1)"

definition startTask :: "string \<Rightarrow> string \<Rightarrow> string \<Rightarrow> server \<Rightarrow> server res" where
  "startTask peer metadatats clientidstr s =
     (let command = ''srun --mpi=pmix_v2 --mem-per-cpu=1000 -n 8 ./anastartbyevent'' @ '' '' @ metadatats
      in if length command < 200 then Inr (s\<lparr>commands := commands s @ [command]\<rparr>)
         else Inl (Undefined Buffer_overflow))"

definition notifyback :: "string \<Rightarrow> string \<Rightarrow> string \<Rightarrow> server \<Rightarrow> server" where
  "notifyback peer meta clientidstr s = send peer (RpcNotify clientidstr meta) s"

text \<open>One round of the loop of \<open>getElementFromNotifyQ\<close>: at most 512 elements.\<close>

fun notifyRound :: "nat \<Rightarrow> server \<Rightarrow> server res" where
  "notifyRound 0 s = Inr s"
| "notifyRound (Suc n) s =
     (case list_pop (notifyQueue s) of
        None \<Rightarrow> Inr s
      | Some (ninfo, q) \<Rightarrow>
          bindR (startTask (naddr ninfo) (metaInfo ninfo) (nclientid ninfo) s) (\<lambda>s1.
            notifyRound n (s1\<lparr>notifyQueue := q\<rparr>)))"

definition getElementFromNotifyQ :: "server \<Rightarrow> server res" where
  "getElementFromNotifyQ s = (let n = length (notifyQueue s) in notifyRound (if n < 512 then n else 512) s)"

definition startNotify :: "string \<Rightarrow> server \<Rightarrow> server" where
  "startNotify eventwithoutNum s =
     s\<lparr>reg := (reg s)\<lparr>subtoClient := map_touch [] eventwithoutNum (subtoClient (reg s))\<rparr>,
      pool := fold (\<lambda>e q. list_push (snd e) q) (map_at [] eventwithoutNum (subtoClient (reg s))) (pool s)\<rparr>"

section \<open>Request handlers\<close>

definition SayHello :: "string \<Rightarrow> string" where
  "SayHello name = ''Hello:'' @ name"

definition GetSubscribedNumber :: "string list \<Rightarrow> server \<Rightarrow> int" where
  "GetSubscribedNumber evs s = getSubscribedClientsNumber evs (reg s)"

text \<open>The loop that reports to the coordinator: it looks each event up as it was sent, number
  included.\<close>

definition reportSubs :: "string \<Rightarrow> string list \<Rightarrow> server \<Rightarrow> server" where
  "reportSubs coordinatorClient evs s =
     fold (\<lambda>eventStr s.
        case map_of (subtoClient (reg s)) eventStr of
          None \<Rightarrow> s
        | Some m \<Rightarrow> send coordinatorClient (RpcRecordSub eventStr (ServerAddr s) (int (length m))) s) evs s"

definition propagateSubscription :: "string list \<Rightarrow> string \<Rightarrow> string \<Rightarrow> server \<Rightarrow> server res option" where
  "propagateSubscription evs clientId notifyAddr s =
     (case getClusterDirFromEventMsg (if evs = [] then [] else last evs) (grp s) of
        Inl e \<Rightarrow> Some (Inl e)
      | Inr clusterDir \<Rightarrow>
          Option.bind (if map_of (workerClients (cli s)) clusterDir = None
                       then map_option (\<lambda>(g, c). s\<lparr>grp := g, cli := c\<rparr>) (initClients clusterDir (grp s) (cli s))
                       else Some s)
            (\<lambda>s1. let s2 = s1\<lparr>cli := (cli s1)\<lparr>workerClients := map_touch [] clusterDir (workerClients (cli s1))\<rparr>\<rparr>
                  in Some (Inr (fold (\<lambda>(key, greeter) s.
                       if key \<noteq> ServerAddr s
                       then send greeter (RpcSubscribe (subscribe_request evs clientId notifyAddr sourceIngroup
                              ''NAME'' ''testMeta'')) s
                       else s) (map_at [] clusterDir (workerClients (cli s2))) s2))))"

text \<open>The reply is the message set so far; it is empty when the handler returns early.\<close>

definition Subscribe :: "string \<Rightarrow> PubSubRequest \<Rightarrow> server \<Rightarrow> (string \<times> server) res option" where
  "Subscribe peer request s =
     (case bindR (parseIP peer) (\<lambda>_. parsePort peer) of
        Inl e \<Rightarrow> Some (Inl e)
      | Inr _ \<Rightarrow>
          if clientid request = [] then Some (Inr ([], s))
          else
            let evs = pubsubmessage request
            in case bindR (pubsubSubscribe evs (clientid request) (notifyserver request) (matchtype request)
                             (metadata request) (reg s))
                      (\<lambda>r. bindR (vec_at evs 0) (\<lambda>_. Inr r)) of
                 Inl e \<Rightarrow> Some (Inl e)
               | Inr r \<Rightarrow>
                   let s1 = s\<lparr>reg := r\<rparr>;
                       s2 = (if coordinatorClients (cli s1) = []
                             then let (g, c) = updateWorkerClients (GM_CLUSTERDIR (grp s1)) (grp s1) (cli s1)
                                  in s1\<lparr>grp := g, cli := updateCoordinatorClients (GM_CLUSTERDIR g) (gm_os g) c\<rparr>
                             else s1)
                   in case coordinatorClients (cli s2) of
                        [] \<Rightarrow> Some (Inr (''SUBSCRIBED'', s2))
                      | coordinatorClient # _ \<Rightarrow>
                          let s3 = reportSubs coordinatorClient evs s2
                          in if propagateSub s3 \<and> source request = sourceClient
                             then map_option (\<lambda>m. bindR m (\<lambda>s4. Inr (''SUBSCRIBED'', s4)))
                                    (propagateSubscription evs (clientid request) (notifyserver request) s3)
                             else Some (Inr (''SUBSCRIBED'', s3)))"

text \<open>The loop of \<open>RedistributeSub\<close> over the subscribers left to visit: the body erases the current
  element and steps to the next, and the loop header then steps once more. Result: the moved
  subscriptions, the erased client ids and the wrappers' heap.\<close>

fun redistLoop ::
  "int \<Rightarrow> int \<Rightarrow> (string \<times> addr) list \<Rightarrow> string \<Rightarrow> pubsub \<Rightarrow> SimplepubsubWrapper list \<Rightarrow>
   (SimplepubsubWrapper list \<times> pubsub) res" where
  "redistLoop diff cnt [] eventStr r spsw = Inr (spsw, r)"
| "redistLoop diff cnt ((clientid', psw) # rest) eventStr r spsw =
     bindR (deref r psw) (\<lambda>w.
       let spsw' = spsw @ [getSimplepubsubWrapper w];
           r' = r\<lparr>heap := (heap r)(psw := None),
                  subtoClient := map_put eventStr (map_erase clientid' (map_at [] eventStr (subtoClient r)))
                    (subtoClient r)\<rparr>
       in bindR (chk_int (cnt + 1)) (\<lambda>cnt'.
            if cnt' = diff then Inr (spsw', r')
            else case rest of
                   [] \<Rightarrow> Inl (Undefined Bad_iterator)
                 | _ # rest' \<Rightarrow> redistLoop diff cnt' rest' eventStr r' spsw'))"

definition RedistributeSub :: "string \<Rightarrow> string \<Rightarrow> string \<Rightarrow> int \<Rightarrow> server \<Rightarrow> server res" where
  "RedistributeSub eventStr srcAddr' dstAddr diff s =
     (case map_of (subtoClient (reg s)) eventStr of
        None \<Rightarrow> Inr s
      | Some m \<Rightarrow>
          bindR (redistLoop diff 0 m eventStr (reg s) []) (\<lambda>(spsw, r).
            Inr (fold (\<lambda>p s. send dstAddr (RpcSubscribe (subscribe_request (eventList p) (sClientID p) (sPeerURL p)
                     sourceIngroup ''NAME'' ''testMeta'')) s) spsw (s\<lparr>reg := r\<rparr>))))"

text \<open>The events of a publication are walked with one variable, so after the loop it holds the last.\<close>

definition startBroadcasts :: "string \<Rightarrow> string \<Rightarrow> string list \<Rightarrow> string \<Rightarrow> server \<Rightarrow> server" where
  "startBroadcasts src eventStr evs meta s =
     (let s1 = (if propagatePub s \<and> src = sourceClient then s\<lparr>threads := threads s @ [MultiServer evs meta]\<rparr> else s)
      in if SERVERSTATUS (grp s1) = status_coor
         then let s2 = (if src = sourceIngroup \<or> src = sourceClient
                        then s1\<lparr>threads := threads s1 @ [MultiGroup evs meta]\<rparr> else s1)
              in if src = sourceBetweengroup \<and> map_of (eventRecordMap s2) eventStr \<noteq> None
                 then s2\<lparr>threads := threads s2 @ [MultiServer evs meta]\<rparr> else s2
         else s1)"

definition Publish :: "PubSubRequest \<Rightarrow> server \<Rightarrow> (string \<times> server) res" where
  "Publish request s =
     (let matchType' = (if matchtype request = [] then ''NAME'' else matchtype request);
          evs = pubsubmessage request;
          eventStr = (if evs = [] then [] else last evs)
      in bindR (pubsubPublish evs matchType' (metadata request) (reg s)) (\<lambda>r.
           let s1 = startBroadcasts (source request) eventStr evs (metadata request) (s\<lparr>reg := r\<rparr>);
               s2 = (if length evs > 0
                     then case map_of (getIndexMap (reg s1)) eventStr of
                            None \<Rightarrow> s1 | Some indexEventSet \<Rightarrow> fold startNotify indexEventSet s1
                     else s1)
           in Inr (''OK'', s2)))"

definition RecordSub :: "string \<Rightarrow> string \<Rightarrow> int \<Rightarrow> server \<Rightarrow> string \<times> server" where
  "RecordSub subevent serveraddr subnum s =
     (''OK'', s\<lparr>eventRecordMap := updateStatusMap subevent serveraddr subnum (eventRecordMap s)\<rparr>)"

definition UpdateCluster :: "string \<Rightarrow> server \<Rightarrow> string \<times> server" where
  "UpdateCluster clusterDir s =
     (let g = (grp s)\<lparr>GM_CLUSTERDIR := clusterDir\<rparr>
      in (''OK'', s\<lparr>grp := g, cli := updateCoordinatorClients clusterDir (gm_os g) (cli s)\<rparr>))"

section \<open>Start and load balancing\<close>

text \<open>The test subscriptions a server makes for itself when it starts.\<close>

definition RunServer_subscribe :: "int \<Rightarrow> server \<Rightarrow> server res" where
  "RunServer_subscribe trigureNum s =
     foldR (\<lambda>i s. bindR (pubsubSubscribe [''INTERESTINGTOPIC1''] (''testclientId'' @ to_string i) ''testNotifyAddr''
              ''NAME'' ''testMeta'' (reg s)) (\<lambda>r. Inr (s\<lparr>reg := r\<rparr>)))
       [0..trigureNum - 1] s"

definition RedistributeByPlan :: "Plan list \<Rightarrow> server \<Rightarrow> server" where
  "RedistributeByPlan planList s =
     fold (\<lambda>plan s.
        let s1 = send (srcAddr plan)
                   (RpcRedistribute (moveSubscription plan) (srcAddr plan) (destAddr plan) (moveNumber plan)) s;
            r = (reg s1)\<lparr>subtoClient := map_touch [] (moveSubscription plan) (subtoClient (reg s1))\<rparr>;
            newSubTime = int (length (map_at [] (moveSubscription plan) (subtoClient r)))
        in s1\<lparr>reg := r,
              eventRecordMap := map_put (moveSubscription plan)
                (map_put (srcAddr plan) newSubTime (map_at [] (moveSubscription plan) (eventRecordMap s1)))
                (eventRecordMap s1)\<rparr>) planList s"

text \<open>One overloaded event: size the group, invite servers of the pool, plan, redistribute, attach.\<close>

definition rebalanceEvent ::
  "(SubMeta list \<Rightarrow> SubMeta list) \<Rightarrow> int \<Rightarrow> string \<Rightarrow> int \<times> server \<Rightarrow> (int \<times> server) res option" where
  "rebalanceEvent sorter overLoadThreshold imbEvent p =
     (let (serverNumber, s) = p;
          m = map_touch [] imbEvent (eventRecordMap s);
          avg = getAverage imbEvent m
      in case bindR (calculateNewServerNum overLoadThreshold avg (int (length (map_at [] imbEvent m)))) (\<lambda>addNumber.
                bindR (getFreeNodeList (max serverNumber addNumber) (gm_os (grp s))) (\<lambda>(serverAddrList, o1).
                let s1 = s\<lparr>eventRecordMap := m, grp := (grp s)\<lparr>gm_os := o1\<rparr>\<rparr>;
                    s2 = fold (\<lambda>serAddr s.
                           let s' = send serAddr (RpcUpdateCluster (GM_CLUSTERDIR (grp s))) s
                           in s'\<lparr>eventRecordMap := updateStatusMap imbEvent serAddr 0 (eventRecordMap s')\<rparr>)
                         serverAddrList s1
                in bindR (generatePlanForEvent sorter imbEvent (eventRecordMap s2)) (\<lambda>(planList, m2).
                     Inr (max serverNumber addNumber, serverAddrList,
                          RedistributeByPlan planList (s2\<lparr>eventRecordMap := m2\<rparr>))))) of
           Inl e \<Rightarrow> Some (Inl e)
         | Inr (serverNumber', serverAddrList, s3) \<Rightarrow>
             map_option (\<lambda>r. bindR r (\<lambda>o2. Inr (serverNumber', s3\<lparr>grp := (grp s3)\<lparr>gm_os := o2\<rparr>\<rparr>)))
               (fold (\<lambda>newAddr r. Option.bind r (\<lambda>x. case x of Inl e \<Rightarrow> Some (Inl e)
                       | Inr o2 \<Rightarrow> map_option (\<lambda>y. bindR y (\<lambda>(_, o3). Inr o3))
                                     (nodeAttach (GM_CLUSTERDIR (grp s3)) newAddr o2)))
                  serverAddrList (Some (Inr (gm_os (grp s3))))))"

definition checkOverload ::
  "(SubMeta list \<Rightarrow> SubMeta list) \<Rightarrow> int \<Rightarrow> server \<Rightarrow> server res option" where
  "checkOverload sorter overLoadThreshold s =
     (let imBalancedEventVector =
            filter (\<lambda>event. getAverage event (eventRecordMap s) > of_int overLoadThreshold) (keys (eventRecordMap s))
      in map_option (\<lambda>r. bindR r (\<lambda>(_, s'). Inr s'))
           (fold (\<lambda>imbEvent r. Option.bind r (\<lambda>x. case x of Inl e \<Rightarrow> Some (Inl e)
                    | Inr p \<Rightarrow> rebalanceEvent sorter overLoadThreshold imbEvent p))
              imBalancedEventVector (Some (Inr (1, s)))))"

section \<open>Lemmas: redistribution\<close>

text \<open>The elements at even positions, the ones the loop visits.\<close>

fun evens :: "'a list \<Rightarrow> 'a list" where
  "evens [] = []"
| "evens [x] = [x]"
| "evens (x # y # xs) = x # evens xs"

lemma evens_subset: "set (evens xs) \<subseteq> set xs"
  by (induction xs rule: evens.induct) auto

lemma evens_distinct: "distinct (map f xs) \<Longrightarrow> distinct (map f (evens xs))"
proof (induction xs rule: evens.induct)
  case (3 x y xs)
  then show ?case using evens_subset[of xs] by auto
qed auto

lemma length_evens: "length (evens xs) = (length xs + 1) div 2"
  by (induction xs rule: evens.induct) auto

text \<open>Taking a list of subscribers of one event out of the registry.\<close>

definition drop_clients :: "string \<Rightarrow> (string \<times> addr) list \<Rightarrow> pubsub \<Rightarrow> pubsub" where
  "drop_clients ev xs r = fold (\<lambda>x r. r\<lparr>heap := (heap r)(snd x := None),
      subtoClient := map_put ev (map_erase (fst x) (map_at [] ev (subtoClient r))) (subtoClient r)\<rparr>) xs r"

lemma drop_clients_Cons:
  "drop_clients ev ((c, a) # xs) r = drop_clients ev xs (r\<lparr>heap := (heap r)(a := None),
      subtoClient := map_put ev (map_erase c (map_at [] ev (subtoClient r))) (subtoClient r)\<rparr>)"
  by (simp add: drop_clients_def)

text \<open>How many subscribers the loop visits: it stops at the asked number, and otherwise runs to the
  end, which is a normal end only for an even number of subscribers.\<close>

lemma redistLoop_outcome:
  assumes "\<And>x. x \<in> set xs \<Longrightarrow> heap r (snd x) = Some (W x)" and "distinct (map snd xs)"
    and "is_int32 diff" and "0 \<le> cnt" and "cnt + int (length xs) \<le> INT_MAX"
  shows "redistLoop diff cnt xs ev r acc =
    (if cnt < diff \<and> diff - cnt \<le> int (length (evens xs))
     then Inr (acc @ map (\<lambda>x. getSimplepubsubWrapper (W x)) (take (nat (diff - cnt)) (evens xs)),
               drop_clients ev (take (nat (diff - cnt)) (evens xs)) r)
     else if even (length xs)
     then Inr (acc @ map (\<lambda>x. getSimplepubsubWrapper (W x)) (evens xs), drop_clients ev (evens xs) r)
     else Inl (Undefined Bad_iterator))"
  using assms
proof (induction xs arbitrary: cnt r acc rule: evens.induct)
  case 1
  then show ?case by (simp add: drop_clients_def)
next
  case (2 x)
  obtain c a where x: "x = (c, a)" by (cases x)
  have "is_int32 (cnt + 1)" using 2 by (simp add: is_int32_def INT_MIN_def)
  moreover have "heap r a = Some (W x)" using "2.prems"(1)[of x] x by simp
  ultimately show ?case using 2 by (auto simp: x deref_def drop_clients_Cons drop_clients_def)
next
  case (3 x y xs)
  obtain c a where x: "x = (c, a)" by (cases x)
  let ?r = "r\<lparr>heap := (heap r)(a := None),
      subtoClient := map_put ev (map_erase c (map_at [] ev (subtoClient r))) (subtoClient r)\<rparr>"
  have i: "is_int32 (cnt + 1)" using 3 by (simp add: is_int32_def INT_MIN_def)
  have w: "heap r a = Some (W x)" using "3.prems"(1)[of x] x by simp
  have IH: "cnt + 1 \<noteq> diff \<Longrightarrow> redistLoop diff (cnt + 1) xs ev ?r (acc @ [getSimplepubsubWrapper (W x)]) =
    (if cnt + 1 < diff \<and> diff - (cnt + 1) \<le> int (length (evens xs))
     then Inr ((acc @ [getSimplepubsubWrapper (W x)]) @
                 map (\<lambda>x. getSimplepubsubWrapper (W x)) (take (nat (diff - (cnt + 1))) (evens xs)),
               drop_clients ev (take (nat (diff - (cnt + 1))) (evens xs)) ?r)
     else if even (length xs)
     then Inr ((acc @ [getSimplepubsubWrapper (W x)]) @ map (\<lambda>x. getSimplepubsubWrapper (W x)) (evens xs),
               drop_clients ev (evens xs) ?r)
     else Inl (Undefined Bad_iterator))"
  proof (rule "3.IH")
    fix z assume "z \<in> set xs"
    moreover from this have "snd z \<noteq> a" using "3.prems"(2) x by force
    ultimately show "heap ?r (snd z) = Some (W z)" using "3.prems"(1)[of z] by simp
  qed (use "3.prems" in auto)
  show ?case
  proof (cases "cnt + 1 = diff")
    case True
    then have "nat (diff - cnt) = Suc 0" by simp
    with True show ?thesis using w i by (simp add: x deref_def drop_clients_Cons drop_clients_def)
  next
    case False
    then have loop: "redistLoop diff cnt (x # y # xs) ev r acc =
        redistLoop diff (cnt + 1) xs ev ?r (acc @ [getSimplepubsubWrapper (W x)])"
      using w i by (simp add: x deref_def)
    show ?thesis
    proof (cases "cnt < diff")
      case True
      then have "nat (diff - cnt) = Suc (nat (diff - (cnt + 1)))" using False by simp
      with True False show ?thesis unfolding loop IH[OF False] by (auto simp: x drop_clients_Cons)
    next
      case no: False
      then show ?thesis unfolding loop IH[OF False] by (auto simp: x drop_clients_Cons)
    qed
  qed
qed

lemma drop_clients_sub:
  assumes "distinct (map fst xs)"
  shows "map_of (map_at [] ev (subtoClient (drop_clients ev xs r))) =
      (\<lambda>c. if c \<in> fst ` set xs then None else map_of (map_at [] ev (subtoClient r)) c)
    \<and> (\<forall>e. e \<noteq> ev \<longrightarrow> map_of (subtoClient (drop_clients ev xs r)) e = map_of (subtoClient r) e)
    \<and> (heap (drop_clients ev xs r) = (\<lambda>a. if a \<in> snd ` set xs then None else heap r a))"
  using assms
proof (induction xs arbitrary: r)
  case Nil
  then show ?case by (simp add: drop_clients_def)
next
  case (Cons x xs)
  obtain c a where x: "x = (c, a)" by (cases x)
  from Cons show ?case by (auto simp: x drop_clients_Cons fun_eq_iff)
qed

lemma fold_send: "fold (\<lambda>p s. send (f p) (g p) s) ps s = s\<lparr>sent := sent s @ map (\<lambda>p. (f p, g p)) ps\<rparr>"
  by (induction ps arbitrary: s) (simp_all add: send_def)

text \<open>The subscription sent to the new server: the events without their numbers, matched by name,
  with a fixed metadata string.\<close>

definition moved_request :: "pubsubWrapper \<Rightarrow> rpc" where
  "moved_request w = RpcSubscribe (subscribe_request (keys (requiredeventMap w)) (clientID w) (peerURL w)
     sourceIngroup ''NAME'' ''testMeta'')"

text \<open>How many subscribers are moved when \<open>diff\<close> are asked for and there are \<open>n\<close>.\<close>

definition moved_count :: "int \<Rightarrow> nat \<Rightarrow> nat" where
  "moved_count diff n = (if 1 \<le> diff \<and> diff \<le> int ((n + 1) div 2) then nat diff else n div 2)"

lemma RedistributeSub_outcome:
  assumes inv: "pubsub_inv (reg s)" and m: "map_of (subtoClient (reg s)) ev = Some m"
    and diff: "is_int32 diff" and len: "int (length m) \<le> INT_MAX"
  defines "xs \<equiv> take (moved_count diff (length m)) (evens m)"
  shows "RedistributeSub ev src dst diff s =
    (if 1 \<le> diff \<and> diff \<le> int ((length m + 1) div 2) \<or> even (length m)
     then Inr (s\<lparr>reg := drop_clients ev xs (reg s),
                 sent := sent s @ map (\<lambda>x. (dst, moved_request (the (heap (reg s) (snd x))))) xs\<rparr>)
     else Inl (Undefined Bad_iterator))"
proof -
  note ent = inner_entries[OF inv m]
  have "\<exists>w. heap (reg s) (snd x) = Some w" if "x \<in> set m" for x
    using that ent(1)[of "fst x" "snd x"] inv_live[OF inv, of ev "fst x" "snd x"] by auto
  then have live: "heap (reg s) (snd x) = Some (the (heap (reg s) (snd x)))" if "x \<in> set m" for x
    using that by auto
  have loop: "redistLoop diff 0 m ev (reg s) [] =
    (if 1 \<le> diff \<and> diff \<le> int ((length m + 1) div 2) \<or> even (length m)
     then Inr (map (\<lambda>x. getSimplepubsubWrapper (the (heap (reg s) (snd x)))) xs, drop_clients ev xs (reg s))
     else Inl (Undefined Bad_iterator))"
  proof -
    have "even (length m) \<Longrightarrow> take (length m div 2) (evens m) = evens m"
      by (rule take_all) (simp add: length_evens)
    then show ?thesis
      using redistLoop_outcome[OF live ent(2) diff, of 0 ev "[]"] len
      by (auto simp: xs_def moved_count_def length_evens)
  qed
  show ?thesis
  proof (cases "1 \<le> diff \<and> diff \<le> int ((length m + 1) div 2) \<or> even (length m)")
    case True
    from loop[unfolded if_P[OF True]] show ?thesis unfolding if_P[OF True]
      by (simp add: RedistributeSub_def m fold_send moved_request_def getSimplepubsubWrapper_def comp_def)
  next
    case False
    from loop[unfolded if_not_P[OF False]] show ?thesis unfolding if_not_P[OF False]
      by (simp add: RedistributeSub_def m)
  qed
qed

section \<open>Lemmas: notification\<close>

text \<open>What \<open>checkNotify\<close> does to a wrapper, and the notification it queues.\<close>

definition settled :: "pubsubWrapper \<Rightarrow> pubsubWrapper" where
  "settled w = (if \<not> iftrigure w then w
     else if matchType w = ''NAME'' then w\<lparr>iftrigure := False, publishedEvent := []\<rparr> else w\<lparr>iftrigure := False\<rparr>)"

definition info_of :: "pubsubWrapper \<Rightarrow> NotifyInfo" where
  "info_of w = \<lparr>naddr = peerURL w, metaInfo = pubMetadata w, nclientid = clientID w\<rparr>"

lemma checkNotify_outcome:
  "checkNotify a s = (case heap (reg s) a of
      None \<Rightarrow> Inl (Undefined Dangling_pointer)
    | Some w \<Rightarrow> Inr (s\<lparr>reg := poke a (settled w) (reg s),
        notifyQueue := notifyQueue s @ (if iftrigure w then [info_of w] else [])\<rparr>))"
proof (cases "heap (reg s) a")
  case None
  then show ?thesis by (simp add: checkNotify_def deref_def)
next
  case (Some w)
  show ?thesis
  proof (cases "iftrigure w")
    case False
    with Some show ?thesis by (simp add: checkNotify_def deref_def settled_def)
  next
    case True
    with Some show ?thesis
      by (simp add: checkNotify_def deref_def settled_def deletePubEvent_def info_of_def Let_def poke_def)
  qed
qed

lemma settled_keeps:
  "clientID (settled w) = clientID w" "requiredeventMap (settled w) = requiredeventMap w" "\<not> iftrigure (settled w)"
  "peerURL (settled w) = peerURL w" "wf_map (publishedEvent w) \<Longrightarrow> wf_map (publishedEvent (settled w))"
  by (simp_all add: settled_def)

lemma settled_inv: "pubsub_inv r \<Longrightarrow> pubsub_inv (touch settled A r)"
  by (rule touch_inv) (simp_all add: settled_keeps)

lemma checkNotify_inv: "pubsub_inv (reg s) \<Longrightarrow> checkNotify a s = Inr s' \<Longrightarrow> pubsub_inv (reg s')"
  by (auto simp: checkNotify_outcome poke_touch settled_inv split: option.splits)

text \<open>The pool works off its queue.\<close>

definition run_pool :: "server \<Rightarrow> server res" where
  "run_pool s = bindR (foldR checkNotify (pool s) s) (\<lambda>s'. Inr (s'\<lparr>pool := []\<rparr>))"

lemma run_tasks:
  assumes "\<And>a. a \<in> set q \<Longrightarrow> heap (reg s) a = Some (W a)" and "distinct q"
  shows "foldR checkNotify q s = Inr (s\<lparr>reg := touch settled (set q) (reg s),
      notifyQueue := notifyQueue s @ map (\<lambda>a. info_of (W a)) (filter (\<lambda>a. iftrigure (W a)) q)\<rparr>)"
  using assms
proof (induction q arbitrary: s)
  case Nil
  then show ?case by simp
next
  case (Cons a q)
  let ?s = "s\<lparr>reg := poke a (settled (W a)) (reg s),
      notifyQueue := notifyQueue s @ (if iftrigure (W a) then [info_of (W a)] else [])\<rparr>"
  have "heap (reg ?s) b = Some (W b)" if "b \<in> set q" for b
    using that Cons.prems by auto
  from Cons.IH[OF this] Cons.prems(2) have "foldR checkNotify q ?s =
      Inr (?s\<lparr>reg := touch settled (set q) (reg ?s),
        notifyQueue := notifyQueue ?s @ map (\<lambda>a. info_of (W a)) (filter (\<lambda>a. iftrigure (W a)) q)\<rparr>)" by simp
  moreover have "touch settled (set q) (poke a (settled (W a)) (reg s)) = touch settled (set (a # q)) (reg s)"
    using Cons.prems by (simp add: poke_touch touch_touch)
  moreover have "checkNotify a s = Inr ?s" using Cons.prems(1)[of a] by (simp add: checkNotify_outcome)
  ultimately show ?case by simp
qed

text \<open>The tasks for the subscribers filed under some index events.\<close>

definition tasks_for :: "string list \<Rightarrow> pubsub \<Rightarrow> addr list" where
  "tasks_for ixs r = concat (map (\<lambda>ix. map snd (map_at [] ix (subtoClient r))) ixs)"

lemma startNotify_present:
  assumes "map_of (subtoClient (reg s)) ix = Some m"
  shows "startNotify ix s = s\<lparr>pool := pool s @ map snd m\<rparr>"
proof -
  have "fold (\<lambda>e q. list_push (snd e) q) m (pool s) = fold list_push (map snd m) (pool s)"
    by (simp add: fold_map comp_def)
  then show ?thesis
    using deque.elems_pushes[of "map snd m" "pool s"] assms by (simp add: startNotify_def map_at_def)
qed

lemma startNotify_fold:
  "set ixs \<subseteq> dom (map_of (subtoClient (reg s))) \<Longrightarrow>
    fold startNotify ixs s = s\<lparr>pool := pool s @ tasks_for ixs (reg s)\<rparr>"
proof (induction ixs arbitrary: s)
  case Nil
  then show ?case by (simp add: tasks_for_def)
next
  case (Cons ix ixs)
  then obtain m where m: "map_of (subtoClient (reg s)) ix = Some m" by auto
  with Cons show ?case by (simp add: startNotify_present tasks_for_def map_at_def)
qed

lemma tasks_for_set:
  assumes inv: "pubsub_inv r" and sub: "set ixs \<subseteq> dom (map_of (subtoClient r))"
  shows "set (tasks_for ixs r) = filed r (set ixs)"
proof -
  have "set (map snd (map_at [] ix (subtoClient r))) = filed r {ix}" if "ix \<in> set ixs" for ix
  proof -
    from that sub obtain m where m: "map_of (subtoClient r) ix = Some m" by auto
    then show ?thesis using inner_filed[OF inv m] by (simp add: map_at_def)
  qed
  then show ?thesis by (auto simp: tasks_for_def filed_def)
qed

lemma tasks_for_distinct:
  "pubsub_inv r \<Longrightarrow> set ixs \<subseteq> dom (map_of (subtoClient r)) \<Longrightarrow> distinct ixs \<Longrightarrow> distinct (tasks_for ixs r)"
proof (induction ixs)
  case Nil
  then show ?case by (simp add: tasks_for_def)
next
  case (Cons ix ixs)
  then obtain m where m: "map_of (subtoClient r) ix = Some m" by auto
  have "filed r {ix} \<inter> filed r (set ixs) = {}"
    using Cons.prems by (intro filed_disjoint) auto
  then have "snd ` set m \<inter> set (tasks_for ixs r) = {}"
    using Cons.prems inner_filed[OF Cons.prems(1) m] tasks_for_set[of r ixs] by auto
  with Cons inner_entries(2)[OF Cons.prems(1) m] m show ?case
    by (auto simp: tasks_for_def map_at_def)
qed

lemma filed_live: "pubsub_inv r \<Longrightarrow> a \<in> filed r I \<Longrightarrow> \<exists>w. heap r a = Some w"
  using inv_live by (fastforce simp: filed_def)

lemma index_list:
  assumes inv: "pubsub_inv r"
  shows "set (map_at [] e (getIndexMap r)) = index_of r e" "distinct (map_at [] e (getIndexMap r))"
    "index_of r e \<subseteq> dom (map_of (subtoClient r))"
  using inv_wf_ixs[OF inv, of e] inv_index[OF inv, of e] wf_set_distinct
  by (auto simp: index_of_def map_at_def split: option.splits)

text \<open>The fields a broadcast decision leaves alone.\<close>

lemma startBroadcasts_keeps [simp]:
  "reg (startBroadcasts src e evs meta s) = reg s" "pool (startBroadcasts src e evs meta s) = pool s"
  "notifyQueue (startBroadcasts src e evs meta s) = notifyQueue s"
  "ServerAddr (startBroadcasts src e evs meta s) = ServerAddr s" "grp (startBroadcasts src e evs meta s) = grp s"
  "sent (startBroadcasts src e evs meta s) = sent s"
  by (simp_all add: startBroadcasts_def Let_def)

lemma Publish_outcome:
  assumes inv: "pubsub_inv (reg s)" and pub: "Publish req s = Inr (msg, s')" and evs: "pubsubmessage req \<noteq> []"
  shows "pubsubPublish (pubsubmessage req) (if matchtype req = [] then ''NAME'' else matchtype req)
      (metadata req) (reg s) = Inr (reg s')"
    and "pubsub_inv (reg s')" and "msg = ''OK''" and "notifyQueue s' = notifyQueue s"
    and "pool s' = pool s @ tasks_for (map_at [] (last (pubsubmessage req)) (getIndexMap (reg s'))) (reg s')"
proof -
  let ?mt = "if matchtype req = [] then ''NAME'' else matchtype req" and ?e = "last (pubsubmessage req)"
  from pub obtain r where r: "pubsubPublish (pubsubmessage req) ?mt (metadata req) (reg s) = Inr r"
    by (auto simp: Publish_def Let_def bindR_eq_Inr)
  let ?s1 = "startBroadcasts (source req) ?e (pubsubmessage req) (metadata req) (s\<lparr>reg := r\<rparr>)"
  have rinv: "pubsub_inv r" using publish_refines_aux[OF r inv] by simp
  have s': "msg = ''OK''" "s' = (case map_of (getIndexMap r) ?e of None \<Rightarrow> ?s1 | Some ixs \<Rightarrow> fold startNotify ixs ?s1)"
    using pub r evs by (auto simp: Publish_def Let_def)
  have "s' = ?s1\<lparr>pool := pool s @ tasks_for (map_at [] ?e (getIndexMap r)) r\<rparr>"
  proof (cases "map_of (getIndexMap r) ?e")
    case None
    then show ?thesis using s'(2) by (simp add: tasks_for_def map_at_def)
  next
    case (Some ixs)
    with index_list[OF rinv, of ?e] have "set ixs \<subseteq> dom (map_of (subtoClient (reg ?s1)))" by (simp add: map_at_def)
    from startNotify_fold[OF this] Some show ?thesis using s'(2) by (simp add: map_at_def)
  qed
  then show "pubsubPublish (pubsubmessage req) ?mt (metadata req) (reg s) = Inr (reg s')"
    "pubsub_inv (reg s')" "msg = ''OK''" "notifyQueue s' = notifyQueue s"
    "pool s' = pool s @ tasks_for (map_at [] ?e (getIndexMap (reg s'))) (reg s')"
    using r rinv s'(1) by simp_all
qed

text \<open>A publication on an idle pool, and its tasks run to the end.\<close>

lemma publish_settles:
  assumes "pubsub_inv (reg s)" and "pool s = []" and "pubsubmessage req \<noteq> []" and "Publish req s = Inr (msg, s1)"
  defines "e \<equiv> last (pubsubmessage req)"
  shows "\<exists>s2. run_pool s1 = Inr s2
    \<and> notifyQueue s2 = notifyQueue s @ map info_of (filter iftrigure (map (\<lambda>a. the (heap (reg s1) a)) (pool s1)))
    \<and> set (pool s1) = filed (reg s1) (index_of (reg s1) e) \<and> distinct (pool s1)
    \<and> (\<forall>ix \<in> index_of (reg s1) e. \<forall>cl w. view (reg s2) (ix, cl) = Some w \<longrightarrow> \<not> iftrigure w)"
proof -
  note out = Publish_outcome[OF assms(1,4,3), folded e_def]
  note ixl = index_list[OF out(2), of e]
  have pool: "pool s1 = tasks_for (map_at [] e (getIndexMap (reg s1))) (reg s1)" using out(5) assms(2) by simp
  have set: "set (pool s1) = filed (reg s1) (index_of (reg s1) e)" and dist: "distinct (pool s1)"
    unfolding pool using tasks_for_set[OF out(2)] tasks_for_distinct[OF out(2)] ixl by simp_all
  let ?W = "\<lambda>a. the (heap (reg s1) a)"
  have live: "heap (reg s1) a = Some (?W a)" if "a \<in> set (pool s1)" for a
    using that filed_live[OF out(2)] set by fastforce
  let ?s2 = "s1\<lparr>reg := touch settled (set (pool s1)) (reg s1), pool := [],
      notifyQueue := notifyQueue s1 @ map (\<lambda>a. info_of (?W a)) (filter (\<lambda>a. iftrigure (?W a)) (pool s1))\<rparr>"
  have "run_pool s1 = Inr ?s2" using run_tasks[OF live dist] by (simp add: run_pool_def)
  moreover have "notifyQueue ?s2 = notifyQueue s @ map info_of (filter iftrigure (map ?W (pool s1)))"
    using out(4) by (simp add: filter_map comp_def)
  moreover have "\<not> iftrigure w" if "ix \<in> index_of (reg s1) e" "view (reg ?s2) (ix, cl) = Some w" for ix cl w
  proof -
    from that(2) obtain a where a: "lookup2 (reg s1) ix cl = Some a" "heap (reg ?s2) a = Some w"
      by (auto simp: view_def split: option.splits)
    with that(1) have "a \<in> set (pool s1)" by (auto simp: set filed_def)
    with a(2) live show ?thesis by (auto simp: settled_keeps)
  qed
  ultimately show ?thesis using set dist by blast
qed

section \<open>Runs of a server\<close>

lemma publish_heap_dom:
  assumes "pubsubPublish evs mt meta r = Inr r'" and "pubsub_inv r"
  shows "dom (heap r') = dom (heap r)"
  using assms unfolding pubsubPublish_def
proof (induction evs arbitrary: r)
  case Nil
  then show ?case by simp
next
  case (Cons e es)
  obtain t where t: "t = touch (received mt meta e) (filed r (index_of r e)) r"
    "publishEvents es mt meta t = Inr r'"
    using publishEvents_Cons[OF Cons.prems(2,1)] .
  have "dom (heap t) = dom (heap r)" by (auto simp: t split: if_splits)
  moreover have "pubsub_inv t" using Cons.prems(2) by (simp add: t(1) received_inv)
  ultimately show ?case using Cons.IH[OF t(2)] by simp
qed

lemma subscribe_heap_dom:
  assumes "pubsubSubscribe evs c a mt meta r = Inr r'"
  shows "dom (heap r) \<subseteq> dom (heap r')"
proof (cases "evs = []")
  case True
  with assms show ?thesis by (auto simp: pubsubSubscribe_def addNewClient_def alloc_def Let_def)
next
  case False
  with assms show ?thesis by (auto simp: pubsubSubscribe_outcome bindR_eq_Inr enroll_heap)
qed

text \<open>The steps of a server that serves subscriptions and publications, in any order: handlers, the
  tasks of the pool, rounds of the notification thread and broadcast threads.\<close>

inductive serving :: "net \<Rightarrow> server \<Rightarrow> server \<Rightarrow> bool" for net where
  serve_subscribe: "Subscribe peer req s = Some (Inr (msg, s')) \<Longrightarrow> serving net s s'"
| serve_publish: "Publish req s = Inr (msg, s') \<Longrightarrow> serving net s s'"
| serve_record: "serving net s (snd (RecordSub ev a n s))"
| serve_update: "serving net s (snd (UpdateCluster dir s))"
| serve_task: "list_pop (pool s) = Some (a, q) \<Longrightarrow> checkNotify a (s\<lparr>pool := q\<rparr>) = Inr s' \<Longrightarrow> serving net s s'"
| serve_notify: "getElementFromNotifyQ s = Inr s' \<Longrightarrow> serving net s s'"
| serve_group: "threads s = MultiGroup evs meta # ts \<Longrightarrow>
    serving net s (publishMultiGroup evs meta (s\<lparr>threads := ts\<rparr>))"
| serve_workers: "threads s = MultiServer evs meta # ts \<Longrightarrow>
    serving net s (publishMultiServer net evs meta (s\<lparr>threads := ts\<rparr>))"

inductive_cases servingE: "serving net s s'"

definition server_inv :: "server \<Rightarrow> bool" where
  "server_inv s \<longleftrightarrow> pubsub_inv (reg s) \<and> set (pool s) \<subseteq> dom (heap (reg s))"

text \<open>The operations that leave registry and pool alone.\<close>

lemma send_keeps [simp]: "reg (send a r s) = reg s" "pool (send a r s) = pool s"
  "ServerAddr (send a r s) = ServerAddr s" "grp (send a r s) = grp s" "cli (send a r s) = cli s"
  by (simp_all add: send_def)

lemma publishMultiGroup_keeps: "reg (publishMultiGroup evs meta s) = reg s \<and> pool (publishMultiGroup evs meta s) = pool s"
proof -
  have "reg (fold (\<lambda>c s. if c \<noteq> ServerAddr s then send c (f c) s else s) xs s) = reg s \<and>
      pool (fold (\<lambda>c s. if c \<noteq> ServerAddr s then send c (f c) s else s) xs s) = pool s" for f xs
    by (induction xs arbitrary: s) auto
  then show ?thesis by (simp add: publishMultiGroup_def)
qed

lemma publishMultiServer_keeps: "reg (publishMultiServer net evs meta s) = reg s \<and> pool (publishMultiServer net evs meta s) = pool s"
proof -
  have "reg (publishWorkers net evs meta ws s) = reg s \<and> pool (publishWorkers net evs meta ws s) = pool s" for ws
    by (induction net evs meta ws s rule: publishWorkers.induct) (auto simp: Let_def)
  then show ?thesis by (simp add: publishMultiServer_def)
qed

lemma notifyRound_keeps: "notifyRound n s = Inr s' \<Longrightarrow> reg s' = reg s \<and> pool s' = pool s"
  by (induction n s rule: notifyRound.induct)
     (auto simp: bindR_eq_Inr startTask_def Let_def split: option.splits if_splits)

lemma getElementFromNotifyQ_keeps: "getElementFromNotifyQ s = Inr s' \<Longrightarrow> reg s' = reg s \<and> pool s' = pool s"
  unfolding getElementFromNotifyQ_def Let_def by (rule notifyRound_keeps)

lemma reportSubs_keeps: "reg (reportSubs c evs s) = reg s \<and> pool (reportSubs c evs s) = pool s"
proof -
  have "reg (fold (\<lambda>e s. case map_of (subtoClient (reg s)) e of None \<Rightarrow> s
      | Some m \<Rightarrow> send c (RpcRecordSub e (ServerAddr s) (int (length m))) s) evs s) = reg s \<and>
    pool (fold (\<lambda>e s. case map_of (subtoClient (reg s)) e of None \<Rightarrow> s
      | Some m \<Rightarrow> send c (RpcRecordSub e (ServerAddr s) (int (length m))) s) evs s) = pool s"
    by (induction evs arbitrary: s) (auto split: option.split)
  then show ?thesis by (simp add: reportSubs_def)
qed

lemma propagateSubscription_keeps:
  "propagateSubscription evs c a s = Some (Inr s') \<Longrightarrow> reg s' = reg s \<and> pool s' = pool s"
proof -
  have fold: "reg (fold (\<lambda>(key, greeter) s. if key \<noteq> ServerAddr s then send greeter (f key) s else s) xs t) = reg t \<and>
      pool (fold (\<lambda>(key, greeter) s. if key \<noteq> ServerAddr s then send greeter (f key) s else s) xs t) = pool t" for f xs t
    by (induction xs arbitrary: t) auto
  show "propagateSubscription evs c a s = Some (Inr s') \<Longrightarrow> reg s' = reg s \<and> pool s' = pool s"
    unfolding propagateSubscription_def Let_def
    by (auto split: sum.splits option.splits if_splits simp: Option.bind_eq_Some_conv fold)
qed

text \<open>What a subscription request does after the registry took it: find the coordinator, report,
  propagate. None of it touches registry or pool.\<close>

definition refreshCoordinators :: "server \<Rightarrow> server" where
  "refreshCoordinators s1 =
     (if coordinatorClients (cli s1) = []
      then let (g, c) = updateWorkerClients (GM_CLUSTERDIR (grp s1)) (grp s1) (cli s1)
           in s1\<lparr>grp := g, cli := updateCoordinatorClients (GM_CLUSTERDIR g) (gm_os g) c\<rparr>
      else s1)"

lemma refreshCoordinators_keeps: "reg (refreshCoordinators s) = reg s \<and> pool (refreshCoordinators s) = pool s
    \<and> ServerAddr (refreshCoordinators s) = ServerAddr s \<and> sent (refreshCoordinators s) = sent s
    \<and> propagateSub (refreshCoordinators s) = propagateSub s"
  by (simp add: refreshCoordinators_def split: prod.split)

definition afterSubscribe :: "PubSubRequest \<Rightarrow> server \<Rightarrow> (string \<times> server) res option" where
  "afterSubscribe req s1 =
     (let s2 = refreshCoordinators s1
      in case coordinatorClients (cli s2) of
           [] \<Rightarrow> Some (Inr (''SUBSCRIBED'', s2))
         | coordinatorClient # _ \<Rightarrow>
             let s3 = reportSubs coordinatorClient (pubsubmessage req) s2
             in if propagateSub s3 \<and> source req = sourceClient
                then map_option (\<lambda>m. bindR m (\<lambda>s4. Inr (''SUBSCRIBED'', s4)))
                       (propagateSubscription (pubsubmessage req) (clientid req) (notifyserver req) s3)
                else Some (Inr (''SUBSCRIBED'', s3)))"

lemma Subscribe_cases:
  "Subscribe peer req s =
     (case bindR (parseIP peer) (\<lambda>_. parsePort peer) of
        Inl e \<Rightarrow> Some (Inl e)
      | Inr _ \<Rightarrow>
          if clientid req = [] then Some (Inr ([], s))
          else case pubsubSubscribe (pubsubmessage req) (clientid req) (notifyserver req) (matchtype req)
                      (metadata req) (reg s) of
                 Inl e \<Rightarrow> Some (Inl e)
               | Inr r \<Rightarrow> if pubsubmessage req = [] then Some (Inl (Undefined Vector_index))
                         else afterSubscribe req (s\<lparr>reg := r\<rparr>))"
proof -
  have "bindR m (\<lambda>r. bindR (vec_at evs 0) (\<lambda>_. Inr r)) =
      (case m of Inl e \<Rightarrow> Inl e | Inr r \<Rightarrow> if evs = [] then Inl (Undefined Vector_index) else Inr r)"
    for m :: "pubsub res" and evs :: "string list"
    by (cases m; cases evs) auto
  then show ?thesis
    by (auto simp: Subscribe_def afterSubscribe_def refreshCoordinators_def Let_def split: sum.split)
qed

lemma afterSubscribe_keeps:
  assumes "afterSubscribe req s = Some (Inr (msg, s'))"
  shows "reg s' = reg s \<and> pool s' = pool s"
proof (cases "coordinatorClients (cli (refreshCoordinators s))")
  case Nil
  with assms show ?thesis using refreshCoordinators_keeps[of s] by (simp add: afterSubscribe_def Let_def)
next
  case (Cons c cs)
  let ?s3 = "reportSubs c (pubsubmessage req) (refreshCoordinators s)"
  have k: "reg ?s3 = reg s \<and> pool ?s3 = pool s"
    using reportSubs_keeps refreshCoordinators_keeps[of s] by simp
  show ?thesis
  proof (cases "propagateSub ?s3 \<and> source req = sourceClient")
    case False
    with Cons assms k show ?thesis by (auto simp: afterSubscribe_def Let_def split: if_splits)
  next
    case True
    with Cons assms obtain m where "propagateSubscription (pubsubmessage req) (clientid req) (notifyserver req) ?s3 = Some m"
      "bindR m (\<lambda>s4. Inr (''SUBSCRIBED'', s4)) = Inr (msg, s')"
      by (auto simp: afterSubscribe_def Let_def)
    then show ?thesis using propagateSubscription_keeps k by (fastforce simp: bindR_eq_Inr)
  qed
qed

lemma Subscribe_registers:
  assumes "Subscribe peer req s = Some (Inr (msg, s'))"
  shows "pool s' = pool s \<and> (if clientid req = [] then s' = s
     else pubsubSubscribe (pubsubmessage req) (clientid req) (notifyserver req) (matchtype req) (metadata req) (reg s)
       = Inr (reg s') \<and> pubsubmessage req \<noteq> [])"
  using assms afterSubscribe_keeps
  by (fastforce simp: Subscribe_cases split: sum.splits if_splits)

lemma reg_pool_upd: "reg (s\<lparr>pool := q\<rparr>) = reg s"
  by simp

lemma server_inv_step: "server_inv s \<Longrightarrow> serving net s s' \<Longrightarrow> server_inv s'"
proof (erule servingE)
  fix peer req msg assume inv: "server_inv s" and sub: "Subscribe peer req s = Some (Inr (msg, s'))"
  note reg = Subscribe_registers[OF sub]
  show "server_inv s'"
  proof (cases "clientid req = []")
    case True
    with inv reg show ?thesis by (simp add: server_inv_def)
  next
    case False
    with reg have r: "pubsubSubscribe (pubsubmessage req) (clientid req) (notifyserver req) (matchtype req)
        (metadata req) (reg s) = Inr (reg s')" by simp
    show ?thesis
      using inv pubsubSubscribe_inv[OF _ r] subscribe_heap_dom[OF r] reg unfolding server_inv_def
      by (metis order_trans)
  qed
next
  fix req msg assume inv: "server_inv s" and pub: "Publish req s = Inr (msg, s')"
  then have i: "pubsub_inv (reg s)" by (simp add: server_inv_def)
  show "server_inv s'"
  proof (cases "pubsubmessage req = []")
    case True
    with pub inv show ?thesis
      by (auto simp: Publish_def Let_def pubsubPublish_def server_inv_def)
  next
    case False
    note out = Publish_outcome[OF i pub False]
    have "set (tasks_for (map_at [] (last (pubsubmessage req)) (getIndexMap (reg s'))) (reg s')) \<subseteq> dom (heap (reg s'))"
      using tasks_for_set[OF out(2)] index_list[OF out(2)] filed_live[OF out(2)] by auto
    moreover have "dom (heap (reg s')) = dom (heap (reg s))" using publish_heap_dom[OF out(1) i] .
    ultimately show ?thesis using inv out by (auto simp: server_inv_def)
  qed
next
  fix a q assume inv: "server_inv s" and p: "list_pop (pool s) = Some (a, q)"
    and t: "checkNotify a (s\<lparr>pool := q\<rparr>) = Inr s'"
  have "pool s = a # q" using deque.pop_SomeD[OF p] by simp
  moreover have "pool s' = q \<and> dom (heap (reg s)) \<subseteq> dom (heap (reg s'))"
    using t by (auto simp: checkNotify_outcome split: option.splits)
  ultimately have "set (pool s') \<subseteq> set (pool s)" "dom (heap (reg s)) \<subseteq> dom (heap (reg s'))" by auto
  then show "server_inv s'"
    using inv checkNotify_inv[OF _ t] unfolding server_inv_def by (metis dual_order.trans reg_pool_upd)
next
  assume "server_inv s" and "getElementFromNotifyQ s = Inr s'"
  then show "server_inv s'" by (metis getElementFromNotifyQ_keeps server_inv_def)
qed (simp_all add: server_inv_def RecordSub_def UpdateCluster_def Let_def publishMultiGroup_keeps
       publishMultiServer_keeps)

text \<open>A server when it starts: an empty registry and empty queues.\<close>

definition server_start :: "server \<Rightarrow> bool" where
  "server_start s \<longleftrightarrow> reg s = pubsub_start \<and> pool s = [] \<and> notifyQueue s = []"

interpretation srv: inv_system server_start "serving net" server_inv for net
proof
  show "server_inv s" if "server_start s" for s
    using that by (simp add: server_start_def server_inv_def pubsub_inv_start)
qed (rule server_inv_step)

section \<open>Properties\<close>

definition idle_server :: server where
  "idle_server = \<lparr>reg = pubsub_start,
     grp = \<lparr>gm_requiredGroupSize = 1, gm_groupNumber = 1, gm_rank = 0, SERVERSTATUS = status_worker, GM_CLUSTERDIR = ''g'',
       workerAddrMap = [], coordinatorAddrSet = [], loadCoordinatorMap = [],
       gm_os = \<lparr>files = (\<lambda>_. None), fds = [0], fdLimit = 9\<rparr>\<rparr>,
     cli = \<lparr>workerClients = [], coordinatorClients = []\<rparr>, eventRecordMap = [], ServerAddr = ''h:1'',
     propagateSub = False, propagatePub = True, pool = [], notifyQueue = [], threads = [], sent = [], commands = []\<rparr>"

text \<open>A small run used as an example below: one subscription, then one publication.\<close>

definition demo_published :: "server \<Rightarrow> bool" where
  "demo_published s1 \<longleftrightarrow> pool s1 = [] \<and> notifyQueue s1 = [] \<and>
     (case Publish (publish_request [''a''] ''CLIENT'' ''m'' ''NAME'') s1 of
        Inl _ \<Rightarrow> False
      | Inr (_, s2) \<Rightarrow> pool s2 = [0] \<and> (case heap (reg s2) 0 of None \<Rightarrow> False | Some w \<Rightarrow> iftrigure w))"

lemma demo_run:
  obtains m1 s1 m2 s2 where
    "Subscribe ''ipv4:c:9'' (subscribe_request [''a''] ''c1'' ''n'' ''CLIENT'' ''NAME'' []) idle_server = Some (Inr (m1, s1))"
    "pool s1 = []" "pubsub_inv (reg s1)" "notifyQueue s1 = []"
    "Publish (publish_request [''a''] ''CLIENT'' ''m'' ''NAME'') s1 = Inr (m2, s2)" "pool s2 = [0]"
    "reach server_start (serving net) s2"
    "\<exists>w. heap (reg s2) 0 = Some w \<and> iftrigure w"
proof -
  let ?sub = "Subscribe ''ipv4:c:9'' (subscribe_request [''a''] ''c1'' ''n'' ''CLIENT'' ''NAME'' []) idle_server"
  let ?pub = "Publish (publish_request [''a''] ''CLIENT'' ''m'' ''NAME'')"
  have "(case ?sub of Some (Inr (_, s1)) \<Rightarrow> demo_published s1 | _ \<Rightarrow> False)"
    by code_simp
  then obtain m1 s1 where s1: "?sub = Some (Inr (m1, s1))" "demo_published s1"
    by (auto split: option.splits sum.splits)
  then have s1': "?sub = Some (Inr (m1, s1))" "pool s1 = []" "notifyQueue s1 = []" by (simp_all add: demo_published_def)
  from s1(2) obtain m2 s2 where "?pub s1 = Inr (m2, s2)" "pool s2 = [0]" "\<exists>w. heap (reg s2) 0 = Some w \<and> iftrigure w"
    by (cases "?pub s1") (auto simp: demo_published_def split: option.splits)
  note s = s1' this
  have start: "reach server_start (serving net) idle_server"
    by (rule reach_ini) (simp add: server_start_def idle_server_def)
  then have r1: "reach server_start (serving net) s1" using serve_subscribe[OF s(1)] by (rule reach_step)
  then have "reach server_start (serving net) s2" using serve_publish[OF s(4)] by (rule reach_step)
  with s srv.inv_reach[OF r1] show thesis by (intro that[of m1 s1 m2 s2]) (auto simp: server_inv_def)
qed

text \<open>C7: no task of the pool ever uses a deleted subscription, as long as the server only serves
  subscriptions, publications, reports and group changes: in every reachable state the next task of
  the queue runs to its end.\<close>

theorem pool_tasks_safe:
  assumes "reach server_start (serving net) s" and "list_pop (pool s) = Some (a, q)"
  shows "\<exists>s'. checkNotify a (s\<lparr>pool := q\<rparr>) = Inr s'"
proof -
  have "server_inv s" by (rule srv.inv_reach[OF assms(1)])
  moreover have "a \<in> set (pool s)" using deque.pop_SomeD[OF assms(2)] by simp
  ultimately obtain w where "heap (reg s) a = Some w" by (auto simp: server_inv_def)
  then show ?thesis by (simp add: checkNotify_outcome)
qed

theorem pool_tasks_safe_witness:
  "\<exists>s s'. reach server_start (serving (\<lambda>_ _. None)) s \<and> list_pop (pool s) = Some (0, [])
     \<and> checkNotify 0 (s\<lparr>pool := []\<rparr>) = Inr s'"
proof -
  obtain m1 s1 m2 s2 where s: "pool s2 = [0]" "reach server_start (serving (\<lambda>_ _. None)) s2"
    using demo_run[of "\<lambda>_ _. None"] by metis
  then have "list_pop (pool s2) = Some (0, [])" by (simp add: list_pop_def)
  with pool_tasks_safe[OF s(2) this] s(2) show ?thesis by blast
qed

text \<open>C8: a publication notifies each triggered subscriber exactly once. When the pool was idle, after
  a publication all its tasks run to the end; the notification queue gains one entry, with the
  subscriber's address, id and the published metadata, for every subscriber under an index event of
  the last published event whose flag is set, and none for the others; afterwards no flag is set
  there, so running the tasks again adds nothing.\<close>

theorem publish_notifies_once:
  assumes "pubsub_inv (reg s)" and "pool s = []" and "pubsubmessage req \<noteq> []" and "Publish req s = Inr (msg, s1)"
    and "e = last (pubsubmessage req)"
  shows "\<exists>s2. run_pool s1 = Inr s2
    \<and> notifyQueue s2 = notifyQueue s @ map info_of (filter iftrigure (map (\<lambda>a. the (heap (reg s1) a)) (pool s1)))
    \<and> set (pool s1) = filed (reg s1) (index_of (reg s1) e) \<and> distinct (pool s1)
    \<and> (\<forall>ix \<in> index_of (reg s1) e. \<forall>cl w. view (reg s2) (ix, cl) = Some w \<longrightarrow> \<not> iftrigure w)"
  unfolding assms(5) by (rule publish_settles[OF assms(1-4)])

theorem publish_notifies_once_witness:
  "\<exists>s m s1 s2. Publish (publish_request [''a''] ''CLIENT'' ''m'' ''NAME'') s = Inr (m, s1) \<and> run_pool s1 = Inr s2
     \<and> length (notifyQueue s2) = 1"
proof -
  let ?req = "publish_request [''a''] ''CLIENT'' ''m'' ''NAME''"
  obtain m1 s1 m2 s2 w where s: "pool s1 = []" "pubsub_inv (reg s1)" "notifyQueue s1 = []"
      "Publish ?req s1 = Inr (m2, s2)" "pool s2 = [0]" "heap (reg s2) 0 = Some w" "iftrigure w"
    using demo_run[of "\<lambda>_ _. None"] by metis
  have "pubsubmessage ?req \<noteq> []" by (simp add: publish_request_def)
  from publish_notifies_once[OF s(2,1) this s(4)] obtain s3 where "run_pool s2 = Inr s3"
      "notifyQueue s3 = notifyQueue s1 @ map info_of (filter iftrigure (map (\<lambda>a. the (heap (reg s2) a)) (pool s2)))"
    by blast
  with s have "length (notifyQueue s3) = 1" by simp
  with s(4) \<open>run_pool s2 = Inr s3\<close> show ?thesis by blast
qed

text \<open>With redistribution the pool is not safe. A redistribution deletes the wrapper that a queued
  task still points to; the task then reads a deleted object.\<close>

theorem redistribution_use_after_free:
  "case Subscribe ''ipv4:c:9'' (subscribe_request [''a''] ''c1'' ''n'' ''CLIENT'' ''NAME'' []) idle_server of
     Some (Inr (_, s1)) \<Rightarrow>
       (case Publish (publish_request [''a''] ''CLIENT'' ''m'' ''NAME'') s1 of
          Inr (_, s2) \<Rightarrow>
            (case RedistributeSub ''a'' ''h:1'' ''h:2'' 1 s2 of
               Inr s3 \<Rightarrow> (case run_pool s3 of Inl err \<Rightarrow> err = Undefined Dangling_pointer | Inr _ \<Rightarrow> False)
             | Inl _ \<Rightarrow> False)
        | Inl _ \<Rightarrow> False)
   | _ \<Rightarrow> False"
  by code_simp

text \<open>C27: how many subscriptions a redistribution moves. Asked for \<open>diff\<close> of the \<open>n\<close> subscribers of an
  event, the server moves \<open>diff\<close> of them, every second one in client order, when \<open>diff\<close> is at least 1
  and at most half of \<open>n\<close> rounded up; for any other \<open>diff\<close> it moves half of them if \<open>n\<close> is even and
  advances an iterator past the end if \<open>n\<close> is odd. The moved ones are subscribed at the new server
  by name, without their numbers and with other metadata, and all others stay.\<close>

theorem redistribution_moves:
  assumes "pubsub_inv (reg s)" and "map_of (subtoClient (reg s)) ev = Some m"
    and "is_int32 diff" and "int (length m) \<le> INT_MAX"
  defines "xs \<equiv> take (moved_count diff (length m)) (evens m)"
  shows "(returns (RedistributeSub ev src dst diff s) \<longleftrightarrow>
       1 \<le> diff \<and> diff \<le> int ((length m + 1) div 2) \<or> even (length m))
    \<and> (\<forall>s'. RedistributeSub ev src dst diff s = Inr s' \<longrightarrow>
         sent s' = sent s @ map (\<lambda>x. (dst, moved_request (the (heap (reg s) (snd x))))) xs
       \<and> (\<forall>c. lookup2 (reg s') ev c = (if c \<in> fst ` set xs then None else lookup2 (reg s) ev c)))"
proof -
  note out = RedistributeSub_outcome[OF assms(1-4), of src dst, folded xs_def]
  have "distinct (map fst (evens m))"
    using evens_distinct[of fst m] wf_map_distinct[OF inv_wf_inner[OF assms(1,2)]] by (simp add: keys_def)
  then have "distinct (map fst xs)" by (simp add: xs_def take_map[symmetric])
  note sub = drop_clients_sub[OF this, of ev "reg s", THEN conjunct1]
  have look: "lookup2 r ev c = map_of (map_at [] ev (subtoClient r)) c" for r c
    by (simp add: lookup2_def map_at_def split: option.split)
  have "lookup2 (drop_clients ev xs (reg s)) ev c = (if c \<in> fst ` set xs then None else lookup2 (reg s) ev c)" for c
    unfolding look sub by simp
  then show ?thesis using out by auto
qed

theorem redistribution_moves_witness:
  "\<exists>s m. map_of (subtoClient (reg s)) ''a'' = Some m \<and> length m = 1
     \<and> returns (RedistributeSub ''a'' ''h:1'' ''h:2'' 1 s) \<and> \<not> returns (RedistributeSub ''a'' ''h:1'' ''h:2'' 0 s)"
proof -
  let ?r = "enroll ''c1'' ''a'' [(''a'', 1)] (subscribed ''c1'' ''n'' [(''a'', 1)] ''NAME'' []) pubsub_start"
  let ?s = "idle_server\<lparr>reg := ?r\<rparr>"
  have "clientID (subscribed ''c1'' ''n'' [(''a'', 1)] ''NAME'' []) = ''c1''" by (simp add: subscribed_def)
  from enroll_inv[OF pubsub_inv_start this subscribed_wf equalityD1[OF subscribed_dom]]
  have inv: "pubsub_inv (reg ?s)" by simp
  have m: "map_of (subtoClient (reg ?s)) ''a'' = Some [(''c1'', 0)]"
    by (simp add: enroll_def pubsub_start_def map_at_def)
  have "is_int32 1" "is_int32 0" by (simp_all add: is_int32_def INT_MIN_def INT_MAX_def)
  then have "returns (RedistributeSub ''a'' ''h:1'' ''h:2'' 1 ?s)" "\<not> returns (RedistributeSub ''a'' ''h:1'' ''h:2'' 0 ?s)"
    using redistribution_moves[OF inv m, of 1 "''h:1''" "''h:2''"]
      redistribution_moves[OF inv m, of 0 "''h:1''" "''h:2''"] by (simp_all add: INT_MAX_def)
  with m show ?thesis by (intro exI[of _ ?s]) auto
qed

text \<open>Only the last event of a publication is followed up. A subscriber of the first of two events
  published together is triggered, but no task is queued for it: the notification waits until the
  same event is published again, and by then the counter has passed the required number.\<close>

theorem only_last_event_notified:
  "case Subscribe ''ipv4:c:9'' (subscribe_request [''a''] ''c1'' ''n'' ''CLIENT'' ''NAME'' []) idle_server of
     Some (Inr (_, s1)) \<Rightarrow>
       (case Publish (publish_request [''a'', ''b''] ''CLIENT'' ''m'' ''NAME'') s1 of
          Inr (_, s2) \<Rightarrow> pool s2 = [] \<and> (case view (reg s2) (''a'', ''c1'') of Some w \<Rightarrow> iftrigure w | None \<Rightarrow> False)
        | Inl _ \<Rightarrow> False)
   | _ \<Rightarrow> False"
  by code_simp

text \<open>A subscription with a number is invisible to the coordinator. The report loop looks the event
  string up with its number, while the registry files it without: the server reports a plain
  event and reports nothing for the same event with a number.\<close>

theorem numbered_events_not_reported:
  "(case Subscribe ''ipv4:c:9'' (subscribe_request [''a''] ''c1'' ''n'' ''CLIENT'' ''NAME'' [])
          (idle_server\<lparr>cli := \<lparr>workerClients = [], coordinatorClients = [''h:0'']\<rparr>\<rparr>) of
      Some (Inr (_, s1)) \<Rightarrow> sent s1 = [(''h:0'', RpcRecordSub ''a'' ''h:1'' 1)] | _ \<Rightarrow> False)
   \<and> (case Subscribe ''ipv4:c:9'' (subscribe_request [''a:2''] ''c1'' ''n'' ''CLIENT'' ''NAME'' [])
          (idle_server\<lparr>cli := \<lparr>workerClients = [], coordinatorClients = [''h:0'']\<rparr>\<rparr>) of
      Some (Inr (_, s1)) \<Rightarrow> sent s1 = [] | _ \<Rightarrow> False)"
  by (intro conjI; code_simp)

end
