(* ===== verification/Cluster.thy ===== *)
theory Cluster
  imports WorkflowServer
begin

text \<open>
  Several server processes together: how a publication spreads. A cluster is a map from addresses to
  servers and the publications under way between them. A step delivers one publication to the handler
  \<open>Publish\<close> of its destination, or lets one detached broadcast thread of a server run. Membership does
  not change during a broadcast, and the network is reliable: every call is answered \<open>OK\<close>, which is
  what the handler replies when it returns. What a publication leads to is computed in a commutative
  monoid once and used twice, with multisets for what is delivered and with numbers for how long it
  takes.
\<close>

section \<open>Clusters and their steps\<close>

type_synonym letter = "string \<times> PubSubRequest"

record cluster =
  node :: "string \<rightharpoonup> server"
  mail :: "letter list"
  delivered :: "letter list"

definition reliable :: net where
  "reliable addr r = Some (ReturnMessage ''OK'')"

definition run_thread :: "bcast \<Rightarrow> server \<Rightarrow> server" where
  "run_thread t s = (case t of MultiServer evs meta \<Rightarrow> publishMultiServer reliable evs meta s
                             | MultiGroup evs meta \<Rightarrow> publishMultiGroup evs meta s)"

fun letter_of :: "string \<times> rpc \<Rightarrow> letter option" where
  "letter_of (a, RpcPublish req) = Some (a, req)"
| "letter_of _ = None"

inductive cluster_step :: "cluster \<Rightarrow> cluster \<Rightarrow> bool" where
  deliver: "mail c = xs @ (a, req) # ys \<Longrightarrow> node c a = Some s \<Longrightarrow> Publish req s = Inr (msg, s') \<Longrightarrow>
    cluster_step c (c\<lparr>node := (node c)(a \<mapsto> s'), mail := xs @ ys, delivered := delivered c @ [(a, req)]\<rparr>)"
| broadcast: "node c a = Some s \<Longrightarrow> threads s = xs @ t # ys \<Longrightarrow>
    s' = run_thread t (s\<lparr>threads := xs @ ys, sent := []\<rparr>) \<Longrightarrow>
    cluster_step c (c\<lparr>node := (node c)(a \<mapsto> s'\<lparr>sent := sent s @ sent s'\<rparr>),
                      mail := mail c @ List.map_filter letter_of (sent s')\<rparr>)"

inductive_cases cluster_stepE: "cluster_step c c'"

definition quiet :: "cluster \<Rightarrow> bool" where
  "quiet c \<longleftrightarrow> mail c = [] \<and> (\<forall>s \<in> ran (node c). threads s = [])"

section \<open>What a thread sends\<close>

definition members :: "server \<Rightarrow> string list" where
  "members s = filter (\<lambda>b. b \<noteq> ServerAddr s) (loadAddrInDir (GM_CLUSTERDIR (grp s) @ ''/'' @ gm_workerDir) (gm_os (grp s)))"

definition peers :: "server \<Rightarrow> string list" where
  "peers s = filter (\<lambda>b. b \<noteq> ServerAddr s) (coordinatorAddrSet (grp s))"

definition ingroup :: "string list \<Rightarrow> string \<Rightarrow> PubSubRequest" where
  "ingroup evs meta = publish_request evs sourceIngroup meta ''NAME''"

definition between :: "string list \<Rightarrow> string \<Rightarrow> PubSubRequest" where
  "between evs meta = publish_request evs sourceBetweengroup meta ''NAME''"

fun outgoing :: "server \<Rightarrow> bcast \<Rightarrow> letter list" where
  "outgoing s (MultiServer evs meta) = map (\<lambda>b. (b, ingroup evs meta)) (members s)"
| "outgoing s (MultiGroup evs meta) = map (\<lambda>b. (b, between evs meta)) (peers s)"

lemma publishWorkers_reliable:
  "publishWorkers reliable evs meta ws s =
    s\<lparr>sent := sent s @ map (\<lambda>b. (b, RpcPublish (ingroup evs meta))) (filter (\<lambda>b. b \<noteq> ServerAddr s) ws)\<rparr>"
  by (induction ws arbitrary: s)
    (auto simp: Publish_stub_def reliable_def message_of_def send_def ingroup_def Let_def)

lemma publishMultiGroup_sends:
  "publishMultiGroup evs meta s = s\<lparr>sent := sent s @ map (\<lambda>b. (b, RpcPublish (between evs meta))) (peers s)\<rparr>"
proof -
  have "fold (\<lambda>b s. if b \<noteq> ServerAddr s then send b (RpcPublish (publish_request evs sourceBetweengroup meta ''NAME'')) s else s) cs s
      = s\<lparr>sent := sent s @ map (\<lambda>b. (b, RpcPublish (between evs meta))) (filter (\<lambda>b. b \<noteq> ServerAddr s) cs)\<rparr>" for cs
    by (induction cs arbitrary: s) (auto simp: send_def between_def)
  then show ?thesis by (simp add: publishMultiGroup_def peers_def)
qed

lemma run_thread_outcome:
  "run_thread t s = s\<lparr>sent := sent s @ map (\<lambda>(b, req). (b, RpcPublish req)) (outgoing s t)\<rparr>"
  by (cases t) (simp_all add: run_thread_def publishMultiServer_def publishWorkers_reliable publishMultiGroup_sends
      members_def peers_def comp_def)

lemma letters [simp]: "List.map_filter letter_of (map (\<lambda>(b, req). (b, RpcPublish req)) ls) = ls"
  by (induction ls) (auto simp: map_filter_simps)

section \<open>The part of a server that a broadcast reads\<close>

definition static :: "server \<Rightarrow> server" where
  "static s = s\<lparr>reg := pubsub_start, pool := [], notifyQueue := [], threads := [], sent := [], commands := []\<rparr>"

definition conf :: "cluster \<Rightarrow> string \<rightharpoonup> server" where
  "conf c a = map_option static (node c a)"

text \<open>The threads the handler starts for a request.\<close>

definition spawned :: "server \<Rightarrow> PubSubRequest \<Rightarrow> bcast list" where
  "spawned s req = threads (startBroadcasts (source req) (if pubsubmessage req = [] then [] else last (pubsubmessage req))
     (pubsubmessage req) (metadata req) (s\<lparr>threads := []\<rparr>))"

lemma startBroadcasts_threads:
  "threads (startBroadcasts src e evs meta s) = threads s @
     (if propagatePub s \<and> src = sourceClient then [MultiServer evs meta] else []) @
     (if SERVERSTATUS (grp s) = status_coor
      then (if src = sourceIngroup \<or> src = sourceClient then [MultiGroup evs meta] else []) @
           (if src = sourceBetweengroup \<and> map_of (eventRecordMap s) e \<noteq> None then [MultiServer evs meta] else [])
      else [])"
  by (cases "map_of (eventRecordMap s) e") (simp_all add: startBroadcasts_def Let_def)

lemma startBroadcasts_static: "static (startBroadcasts src e evs meta s) = static s"
  by (simp add: startBroadcasts_def Let_def static_def)

lemma static_reads [simp]:
  "members (static s) = members s" "peers (static s) = peers s"
  "spawned (static s) req = spawned s req"
  by (simp_all add: static_def members_def peers_def spawned_def startBroadcasts_threads)

lemma outgoing_static [simp]: "outgoing (static s) t = outgoing s t"
  by (cases t) simp_all

lemma startNotify_static [simp]: "static (startNotify ix s) = static s" "threads (startNotify ix s) = threads s"
  by (simp_all add: startNotify_def static_def)

lemma startNotify_fold_static [simp]:
  "static (fold startNotify ixs s) = static s" "threads (fold startNotify ixs s) = threads s"
  by (induction ixs arbitrary: s) simp_all

lemma Publish_threads:
  assumes "Publish req s = Inr (msg, s')"
  shows "static s' = static s" "threads s' = threads s @ spawned s req"
proof -
  let ?e = "if pubsubmessage req = [] then [] else last (pubsubmessage req)"
  let ?b = "\<lambda>r. startBroadcasts (source req) ?e (pubsubmessage req) (metadata req) (s\<lparr>reg := r\<rparr>)"
  have b: "static (?b r) = static s" "threads (?b r) = threads s @ spawned s req" for r
    by (simp_all add: startBroadcasts_static spawned_def startBroadcasts_threads) (simp add: static_def)
  from assms obtain r where "static s' = static (?b r)" "threads s' = threads (?b r)"
    by (auto simp: Publish_def Let_def bindR_eq_Inr split: option.splits if_splits)
  with b show "static s' = static s" "threads s' = threads s @ spawned s req" by simp_all
qed


section \<open>Everything a publication leads to\<close>

text \<open>With a value \<open>m l\<close> for each delivery and \<open>k\<close> for each run of a thread: the value of what a letter
  and a thread still lead to. Letters within a group start no thread when no member of a group is a
  coordinator, so two levels are enough.\<close>

definition value_in :: "(letter \<Rightarrow> 'a::cancel_comm_monoid_add) \<Rightarrow> 'a \<Rightarrow> server \<Rightarrow> bcast \<Rightarrow> 'a" where
  "value_in m k s t = (case t of MultiServer evs meta \<Rightarrow> k + sum_list (map m (outgoing s t)) | MultiGroup _ _ \<Rightarrow> 0)"

definition value_between :: "(letter \<Rightarrow> 'a::cancel_comm_monoid_add) \<Rightarrow> 'a \<Rightarrow> (string \<rightharpoonup> server) \<Rightarrow> letter \<Rightarrow> 'a" where
  "value_between m k cf l = m l + (case cf (fst l) of None \<Rightarrow> 0
     | Some s \<Rightarrow> sum_list (map (value_in m k s) (spawned s (snd l))))"

definition value_thread :: "(letter \<Rightarrow> 'a::cancel_comm_monoid_add) \<Rightarrow> 'a \<Rightarrow> (string \<rightharpoonup> server) \<Rightarrow> server \<Rightarrow> bcast \<Rightarrow> 'a" where
  "value_thread m k cf s t = (case t of MultiServer _ _ \<Rightarrow> value_in m k s t
     | MultiGroup evs meta \<Rightarrow> k + sum_list (map (value_between m k cf) (outgoing s t)))"

definition value_letter :: "(letter \<Rightarrow> 'a::cancel_comm_monoid_add) \<Rightarrow> 'a \<Rightarrow> (string \<rightharpoonup> server) \<Rightarrow> letter \<Rightarrow> 'a" where
  "value_letter m k cf l = m l + (case cf (fst l) of None \<Rightarrow> 0
     | Some s \<Rightarrow> sum_list (map (value_thread m k cf s) (spawned s (snd l))))"

definition value_threads :: "(letter \<Rightarrow> 'a::cancel_comm_monoid_add) \<Rightarrow> 'a \<Rightarrow> (string \<rightharpoonup> server) \<Rightarrow> server option \<Rightarrow> 'a" where
  "value_threads m k cf n = (case n of None \<Rightarrow> 0 | Some s \<Rightarrow> sum_list (map (value_thread m k cf (static s)) (threads s)))"

definition pending :: "(letter \<Rightarrow> 'a::cancel_comm_monoid_add) \<Rightarrow> 'a \<Rightarrow> cluster \<Rightarrow> 'a" where
  "pending m k c = sum_list (map (value_letter m k (conf c)) (mail c))
     + (\<Sum>a \<in> dom (node c). value_threads m k (conf c) (node c a))"

text \<open>A cluster as the group manager sets it up: finitely many servers, and nobody listed as a worker
  is a coordinator.\<close>

definition cluster_ok :: "cluster \<Rightarrow> bool" where
  "cluster_ok c \<longleftrightarrow> finite (dom (node c)) \<and>
     (\<forall>s \<in> ran (node c). \<forall>b \<in> set (members s). \<forall>s'. node c b = Some s' \<longrightarrow> SERVERSTATUS (grp s') \<noteq> status_coor)"

lemma source_distinct [simp]:
  "sourceIngroup \<noteq> sourceClient" "sourceIngroup \<noteq> sourceBetweengroup" "sourceBetweengroup \<noteq> sourceClient"
  "sourceClient \<noteq> sourceIngroup" "sourceBetweengroup \<noteq> sourceIngroup" "sourceClient \<noteq> sourceBetweengroup"
  by (simp_all add: sourceIngroup_def sourceClient_def sourceBetweengroup_def)

lemma request_fields [simp]:
  "source (ingroup evs meta) = sourceIngroup" "source (between evs meta) = sourceBetweengroup"
  "pubsubmessage (between evs meta) = evs" "metadata (between evs meta) = meta"
  by (simp_all add: ingroup_def between_def publish_request_def)

lemma spawned_ingroup: "SERVERSTATUS (grp s) \<noteq> status_coor \<Longrightarrow> spawned s (ingroup evs meta) = []"
  by (simp add: spawned_def startBroadcasts_threads)

lemma spawned_between: "t \<in> set (spawned s (between evs meta)) \<Longrightarrow> t = MultiServer evs meta"
  by (auto simp: spawned_def startBroadcasts_threads split: if_splits)

lemma grp_static [simp]: "grp (static s) = grp s" "eventRecordMap (static s) = eventRecordMap s"
  by (simp_all add: static_def)

lemma value_letter_ingroup:
  assumes "\<And>s. cf b = Some s \<Longrightarrow> SERVERSTATUS (grp s) \<noteq> status_coor"
  shows "value_letter m k cf (b, ingroup evs meta) = m (b, ingroup evs meta)"
  using assms by (auto simp: value_letter_def spawned_ingroup split: option.splits)

lemma value_letter_between: "value_letter m k cf (b, between evs meta) = value_between m k cf (b, between evs meta)"
proof -
  have "map (value_thread m k cf s) (spawned s (between evs meta)) = map (value_in m k s) (spawned s (between evs meta))" for s
    by (rule map_cong[OF refl]) (auto dest!: spawned_between simp: value_thread_def)
  then show ?thesis by (simp add: value_letter_def value_between_def del: map_eq_conv split: option.split)
qed

text \<open>Running a thread turns its value into the one of the letters it sends, and costs \<open>k\<close>.\<close>

lemma value_thread_run:
  assumes ok: "cluster_ok c" and s: "node c a = Some s"
  shows "value_thread m k (conf c) (static s) t = k + sum_list (map (value_letter m k (conf c)) (outgoing s t))"
proof (cases t)
  case (MultiServer evs meta)
  have "SERVERSTATUS (grp s') \<noteq> status_coor" if "b \<in> set (members s)" "conf c b = Some s'" for b s'
    using ok s that by (auto simp: cluster_ok_def conf_def ran_def)
  then have "map (value_letter m k (conf c)) (outgoing s t) = map m (outgoing s t)"
    by (auto simp: MultiServer value_letter_ingroup)
  then show ?thesis unfolding \<open>map _ _ = map _ _\<close> by (simp add: MultiServer value_thread_def value_in_def)
next
  case (MultiGroup evs meta)
  then show ?thesis by (simp add: value_thread_def value_letter_between comp_def)
qed


section \<open>Each step costs what it does\<close>

lemma sum_threads_update:
  fixes f :: "server option \<Rightarrow> 'a::cancel_comm_monoid_add"
  assumes fin: "finite (dom n)" and a: "n a = Some s"
  shows "(\<Sum>b \<in> dom (n(a \<mapsto> s')). f ((n(a \<mapsto> s')) b)) + f (Some s) = (\<Sum>b \<in> dom n. f (n b)) + f (Some s')"
proof -
  have d: "dom (n(a \<mapsto> s')) = insert a (dom n - {a})" "a \<in> dom n" using a by auto
  have "(\<Sum>b \<in> dom (n(a \<mapsto> s')). f ((n(a \<mapsto> s')) b)) = f (Some s') + (\<Sum>b \<in> dom n - {a}. f (n b))"
    unfolding d(1) using fin by (subst sum.insert) (auto intro!: sum.cong)
  moreover have "(\<Sum>b \<in> dom n. f (n b)) = f (Some s) + (\<Sum>b \<in> dom n - {a}. f (n b))"
    using sum.remove[OF fin d(2), of "\<lambda>b. f (n b)"] a by simp
  ultimately show ?thesis by (simp add: ac_simps)
qed

lemma cluster_ok_conf: "cluster_ok c \<longleftrightarrow> finite (dom (conf c)) \<and>
    (\<forall>s \<in> ran (conf c). \<forall>b \<in> set (members s). \<forall>s'. conf c b = Some s' \<longrightarrow> SERVERSTATUS (grp s') \<noteq> status_coor)"
proof -
  have "dom (conf c) = dom (node c)" by (auto simp: conf_def dom_def)
  moreover have "ran (conf c) = static ` ran (node c)" by (auto simp: conf_def ran_def)
  ultimately show ?thesis by (auto simp: cluster_ok_def conf_def) (metis grp_static(1))
qed


text \<open>A server is replaced by one with the same static part, more or fewer threads and other letters
  under way.\<close>

lemma pending_update:
  assumes ok: "cluster_ok c" and a: "node c a = Some s" and st: "static s' = static s"
    and c': "c' = c\<lparr>node := (node c)(a \<mapsto> s'), mail := ls, delivered := ds\<rparr>"
  shows "conf c' = conf c"
    and "pending m k c' + sum_list (map (value_letter m k (conf c)) (mail c)) + sum_list (map (value_thread m k (conf c) (static s)) (threads s))
       = pending m k c + sum_list (map (value_letter m k (conf c)) ls) + sum_list (map (value_thread m k (conf c) (static s)) (threads s'))"
proof -
  show cf: "conf c' = conf c" using a st by (auto simp: conf_def c' fun_eq_iff)
  have "finite (dom (node c))" using ok by (simp add: cluster_ok_def)
  from sum_threads_update[OF this a, of "value_threads m k (conf c)" s'] show
    "pending m k c' + sum_list (map (value_letter m k (conf c)) (mail c)) + sum_list (map (value_thread m k (conf c) (static s)) (threads s))
       = pending m k c + sum_list (map (value_letter m k (conf c)) ls) + sum_list (map (value_thread m k (conf c) (static s)) (threads s'))"
    using cf st by (simp add: pending_def c' value_threads_def ac_simps)
qed

lemma deliver_cost:
  assumes ok: "cluster_ok c" and l: "mail c = xs @ (a, req) # ys" and s: "node c a = Some s" and p: "Publish req s = Inr (msg, s')"
    and c': "c' = c\<lparr>node := (node c)(a \<mapsto> s'), mail := xs @ ys, delivered := delivered c @ [(a, req)]\<rparr>"
  shows "conf c' = conf c \<and> pending m k c' + m (a, req) = pending m k c"
proof -
  note u = pending_update[OF ok s Publish_threads(1)[OF p] c']
  have "value_letter m k (conf c) (a, req) = m (a, req) + sum_list (map (value_thread m k (conf c) (static s)) (spawned s req))"
    using s by (simp add: value_letter_def conf_def)
  with u(2)[of m k] have "pending m k c' + m (a, req) + (sum_list (map (value_letter m k (conf c)) (xs @ ys)) +
        sum_list (map (value_thread m k (conf c) (static s)) (threads s @ spawned s req)))
      = pending m k c + (sum_list (map (value_letter m k (conf c)) (xs @ ys)) +
        sum_list (map (value_thread m k (conf c) (static s)) (threads s @ spawned s req)))"
    by (simp add: l Publish_threads(2)[OF p] ac_simps)
  with u(1) show ?thesis by simp
qed

lemma run_thread_sent:
  fixes s xs ys t
  defines "r \<equiv> run_thread t (s\<lparr>threads := xs @ ys, sent := []\<rparr>)"
  shows "static (r\<lparr>sent := l\<rparr>) = static s" "threads r = xs @ ys" "reg r = reg s" "List.map_filter letter_of (sent r) = outgoing s t"
proof -
  have "outgoing (s\<lparr>threads := xs @ ys, sent := []\<rparr>) t = outgoing s t"
    by (cases t) (simp_all add: members_def peers_def)
  then show "static (r\<lparr>sent := l\<rparr>) = static s" "threads r = xs @ ys" "reg r = reg s"
    "List.map_filter letter_of (sent r) = outgoing s t"
    by (simp_all add: r_def run_thread_outcome static_def)
qed

lemma broadcast_cost:
  assumes ok: "cluster_ok c" and s: "node c a = Some s" and t: "threads s = xs @ t # ys"
    and s': "s' = run_thread t (s\<lparr>threads := xs @ ys, sent := []\<rparr>)"
    and c': "c' = c\<lparr>node := (node c)(a \<mapsto> s'\<lparr>sent := sent s @ sent s'\<rparr>), mail := mail c @ List.map_filter letter_of (sent s')\<rparr>"
  shows "conf c' = conf c \<and> pending m k c' + k = pending m k c"
proof -
  let ?r = "s'\<lparr>sent := sent s @ sent s'\<rparr>"
  have st: "static ?r = static s" "threads ?r = xs @ ys" "List.map_filter letter_of (sent s') = outgoing s t"
    by (simp_all add: s' run_thread_sent)
  have "c' = c\<lparr>node := (node c)(a \<mapsto> ?r), mail := mail c @ outgoing s t, delivered := delivered c\<rparr>"
    by (simp add: c' st(3))
  note u = pending_update[OF ok s st(1) this]
  show ?thesis
  proof
    show "conf c' = conf c" by (rule u(1))
    have "pending m k c' + k + (sum_list (map (value_letter m k (conf c)) (mail c @ outgoing s t)) +
          sum_list (map (value_thread m k (conf c) (static s)) (xs @ ys)))
        = pending m k c + (sum_list (map (value_letter m k (conf c)) (mail c @ outgoing s t)) +
          sum_list (map (value_thread m k (conf c) (static s)) (xs @ ys)))"
      using u(2)[of m k] by (simp add: t st(2) value_thread_run[OF ok s, of m k t] ac_simps)
    then show "pending m k c' + k = pending m k c" by simp
  qed
qed


section \<open>Runs of a cluster\<close>

text \<open>All deliveries, past and to come, and the number of steps left.\<close>

abbreviation future :: "cluster \<Rightarrow> letter multiset" where
  "future \<equiv> pending (\<lambda>l. {#l#}) {#}"

abbreviation steps_left :: "cluster \<Rightarrow> nat" where
  "steps_left \<equiv> pending (\<lambda>_. 1) 1"

lemma cluster_step_cost:
  assumes "cluster_ok c" and "cluster_step c c'"
  shows "conf c' = conf c" "mset (delivered c') + future c' = mset (delivered c) + future c"
    "steps_left c' + 1 = steps_left c"
proof -
  have "conf c' = conf c \<and> mset (delivered c') + future c' = mset (delivered c) + future c \<and> steps_left c' + 1 = steps_left c"
    using assms(2)
  proof cases
    case (deliver xs a req ys s msg s')
    from deliver_cost[OF assms(1) deliver(2-4,1), of "\<lambda>l. {#l#}" "{#}"] deliver_cost[OF assms(1) deliver(2-4,1), of "\<lambda>_. 1::nat" 1]
    show ?thesis by (simp add: deliver(1) ac_simps)
  next
    case (broadcast a s xs t ys s')
    from broadcast_cost[OF assms(1) broadcast(2-4,1), of "\<lambda>l. {#l#}" "{#}"] broadcast_cost[OF assms(1) broadcast(2-4,1), of "\<lambda>_. 1::nat" 1]
    show ?thesis by (simp add: broadcast(1))
  qed
  then show "conf c' = conf c" "mset (delivered c') + future c' = mset (delivered c) + future c"
    "steps_left c' + 1 = steps_left c" by auto
qed

lemma cluster_ok_same: "conf c = conf c' \<Longrightarrow> cluster_ok c \<longleftrightarrow> cluster_ok c'"
  by (simp add: cluster_ok_conf)

definition spread_inv :: "cluster \<Rightarrow> cluster \<Rightarrow> bool" where
  "spread_inv c0 c \<longleftrightarrow> cluster_ok c \<and> conf c = conf c0 \<and> mset (delivered c) + future c = mset (delivered c0) + future c0"

interpretation spread: inv_system "\<lambda>c. c = c0 \<and> cluster_ok c0" cluster_step "spread_inv c0" for c0
proof
  show "spread_inv c0 c'" if "spread_inv c0 c" and "cluster_step c c'" for c c'
    using that cluster_step_cost[of c c'] cluster_ok_same[of c' c] by (simp add: spread_inv_def)
qed (simp add: spread_inv_def)

lemma steps_exact:
  assumes "steps cluster_step n c0 c" and "cluster_ok c0"
  shows "n + steps_left c = steps_left c0"
  using assms
proof (induction rule: steps.induct)
  case (steps_next n s t u)
  then have "cluster_ok t" using spread.inv_steps[OF steps_next.hyps(1), of s] by (simp add: spread_inv_def)
  with steps_next cluster_step_cost(3)[of t u] show ?case by simp
qed simp

lemma quiet_done: "quiet c \<Longrightarrow> pending m k c = 0"
  by (auto simp: quiet_def pending_def value_threads_def ran_def intro!: sum.neutral split: option.split)

lemma stuck:
  assumes "\<not> quiet c" and "\<nexists>c'. cluster_step c c'"
  shows "\<exists>(a, req) \<in> set (mail c). \<forall>s msg s'. node c a = Some s \<longrightarrow> Publish req s \<noteq> Inr (msg, s')"
proof (rule ccontr)
  assume all: "\<not> ?thesis"
  show False
  proof (cases "mail c")
    case Nil
    with assms(1) obtain a s where s: "node c a = Some s" "threads s \<noteq> []" by (auto simp: quiet_def ran_def)
    then obtain t ts where "threads s = [] @ t # ts" by (cases "threads s") auto
    from broadcast[OF s(1) this refl] assms(2) show False by blast
  next
    case (Cons l ls)
    obtain a req where l: "l = (a, req)" by force
    with all Cons obtain s msg s' where "node c a = Some s" "Publish req s = Inr (msg, s')" by fastforce
    from deliver[OF _ this, of "[]"] Cons l assms(2) show False by auto
  qed
qed


section \<open>One publication of a client\<close>

text \<open>The start: one letter of a client under way, nothing else going on.\<close>

definition published_at :: "string \<Rightarrow> string list \<Rightarrow> string \<Rightarrow> cluster \<Rightarrow> bool" where
  "published_at a evs meta c \<longleftrightarrow> cluster_ok c \<and> mail c = [(a, publish_request evs sourceClient meta ''NAME'')]
     \<and> (\<forall>s \<in> ran (node c). threads s = []) \<and> delivered c = []"

text \<open>A coordinator with a record of the event, and the members of its group.\<close>

definition concerned :: "string list \<Rightarrow> server \<Rightarrow> bool" where
  "concerned evs p \<longleftrightarrow> SERVERSTATUS (grp p) = status_coor \<and> map_of (eventRecordMap p) (if evs = [] then [] else last evs) \<noteq> None"

definition forwarded :: "string list \<Rightarrow> string \<Rightarrow> cluster \<Rightarrow> string \<Rightarrow> letter list" where
  "forwarded evs meta c b = (case node c b of None \<Rightarrow> []
     | Some p \<Rightarrow> if concerned evs p then map (\<lambda>d. (d, ingroup evs meta)) (members p) else [])"

lemma pending_published:
  assumes "published_at a evs meta c" and "node c a = Some s"
  shows "pending m k c = m (a, publish_request evs sourceClient meta ''NAME'')
    + sum_list (map (value_thread m k (conf c) (static s)) (spawned s (publish_request evs sourceClient meta ''NAME'')))"
proof -
  have "(\<Sum>b \<in> dom (node c). value_threads m k (conf c) (node c b)) = 0"
    using assms(1) by (intro sum.neutral) (auto simp: published_at_def value_threads_def ran_def split: option.split)
  then show ?thesis using assms by (simp add: pending_def published_at_def value_letter_def conf_def)
qed


lemma spawned_client:
  "spawned s (publish_request evs sourceClient meta mt) =
    (if propagatePub s then [MultiServer evs meta] else []) @ (if SERVERSTATUS (grp s) = status_coor then [MultiGroup evs meta] else [])"
  by (simp add: spawned_def startBroadcasts_threads publish_request_def)

lemma forwarded_spawned: "spawned p (between evs meta) = (if concerned evs p then [MultiServer evs meta] else [])"
  by (simp add: spawned_def startBroadcasts_threads concerned_def)

lemma concerned_static [simp]: "concerned evs (static p) = concerned evs p"
  by (simp add: concerned_def)

lemma sum_single: "sum_list (map ((\<lambda>l. {#l#}) \<circ> f) ds) = mset (map f ds)"
  by (induction ds) auto

lemma value_between_fan:
  "value_between (\<lambda>l. {#l#}) {#} (conf c) (b, between evs meta) = add_mset (b, between evs meta) (mset (forwarded evs meta c b))"
  by (simp add: value_between_def conf_def forwarded_def forwarded_spawned value_in_def sum_single del: mset_map split: option.split)

lemma value_between_steps:
  "value_between (\<lambda>_. 1) 1 (conf c) (b, between evs meta) \<le> 2 + length (forwarded evs meta c b)"
  by (simp add: value_between_def conf_def forwarded_def forwarded_spawned value_in_def comp_def sum_list_triv split: option.split)

text \<open>The value of the two kinds of broadcast of a client's publication.\<close>

lemma value_thread_client:
  "value_thread (\<lambda>l. {#l#}) {#} (conf c) (static s) (MultiServer evs meta) = mset (map (\<lambda>b. (b, ingroup evs meta)) (members s))"
  "value_thread (\<lambda>_. 1) 1 (conf c) (static s) (MultiServer evs meta) = 1 + length (members s)"
  "value_thread (\<lambda>l. {#l#}) {#} (conf c) (static s) (MultiGroup evs meta) =
     (\<Sum>b\<leftarrow>peers s. add_mset (b, between evs meta) (mset (forwarded evs meta c b)))"
  "value_thread (\<lambda>_. 1) 1 (conf c) (static s) (MultiGroup evs meta) \<le> 1 + (\<Sum>b\<leftarrow>peers s. 2 + length (forwarded evs meta c b))"
proof -
  show "value_thread (\<lambda>l. {#l#}) {#} (conf c) (static s) (MultiServer evs meta) = mset (map (\<lambda>b. (b, ingroup evs meta)) (members s))"
    by (simp add: value_thread_def value_in_def sum_single del: mset_map)
  show "value_thread (\<lambda>_. 1) 1 (conf c) (static s) (MultiServer evs meta) = 1 + length (members s)"
    by (simp add: value_thread_def value_in_def comp_def sum_list_triv)
  show "value_thread (\<lambda>l. {#l#}) {#} (conf c) (static s) (MultiGroup evs meta) =
     (\<Sum>b\<leftarrow>peers s. add_mset (b, between evs meta) (mset (forwarded evs meta c b)))"
    by (simp add: value_thread_def value_between_fan comp_def)
  have "(\<Sum>b\<leftarrow>peers s. value_between (\<lambda>_. 1) 1 (conf c) (b, between evs meta)) \<le> (\<Sum>b\<leftarrow>peers s. 2 + length (forwarded evs meta c b))"
    by (intro sum_list_mono value_between_steps)
  then show "value_thread (\<lambda>_. 1) 1 (conf c) (static s) (MultiGroup evs meta) \<le> 1 + (\<Sum>b\<leftarrow>peers s. 2 + length (forwarded evs meta c b))"
    by (simp add: value_thread_def comp_def)
qed

lemma published_run:
  assumes p: "published_at a evs meta c0" and run: "steps cluster_step n c0 c"
  shows "n \<le> steps_left c0" and "quiet c \<Longrightarrow> n = steps_left c0" and "quiet c \<Longrightarrow> mset (delivered c) = future c0"
proof -
  have ok: "cluster_ok c0" "delivered c0 = []" using p by (simp_all add: published_at_def)
  note exact = steps_exact[OF run ok(1)]
  show "n \<le> steps_left c0" using exact by simp
  have "spread_inv c0 c" using spread.inv_steps[OF run, of c0] ok by (simp add: spread_inv_def)
  then show "n = steps_left c0" "mset (delivered c) = future c0" if "quiet c"
    using exact ok(2) quiet_done[OF that, of "\<lambda>l. {#l#}" "{#}"] quiet_done[OF that, of "\<lambda>_. 1::nat" 1]
    by (simp_all add: spread_inv_def)
qed

section \<open>Broadcasts complete\<close>

fun events_of :: "bcast \<Rightarrow> string list" where
  "events_of (MultiServer evs meta) = evs"
| "events_of (MultiGroup evs meta) = evs"

text \<open>A server that can take \<open>k\<close> more publications of \<open>evs\<close> before a counter overflows.\<close>

definition room :: "string list \<Rightarrow> nat \<Rightarrow> server \<Rightarrow> bool" where
  "room evs k s \<longleftrightarrow> pubsub_inv (reg s) \<and> counts_upto (INT_MAX - int k * int (length evs)) (reg s)"

lemma counts_upto_mono: "counts_upto m r \<Longrightarrow> m \<le> n \<Longrightarrow> counts_upto n r"
  unfolding counts_upto_def by (meson order_trans)

lemma room_Suc: "room evs (Suc k) s \<Longrightarrow> room evs k s"
  by (auto simp: room_def algebra_simps elim: counts_upto_mono)

lemma Publish_room:
  assumes "room evs (Suc k) s" and "pubsubmessage req = evs" and "matchtype req = ''NAME''" and "evs \<noteq> []"
  shows "\<exists>s'. Publish req s = Inr (''OK'', s') \<and> room evs k s'"
proof -
  obtain r where r: "pubsubPublish evs ''NAME'' (metadata req) (reg s) = Inr r" "counts_upto (INT_MAX - int k * int (length evs)) r"
    using publish_NAME_returns[of "reg s" "INT_MAX - int (Suc k) * int (length evs)" evs "metadata req"] assms(1)
    by (auto simp: room_def algebra_simps)
  then obtain msg s' where s': "Publish req s = Inr (msg, s')"
    using assms by (auto simp: Publish_def Let_def)
  from Publish_outcome[OF _ s'] assms r s' show ?thesis by (auto simp: room_def)
qed

lemma spawned_events: "t \<in> set (spawned s req) \<Longrightarrow> events_of t = pubsubmessage req"
  by (auto simp: spawned_def startBroadcasts_threads split: if_splits)

lemma outgoing_letters:
  "(b, req) \<in> set (outgoing s t) \<Longrightarrow> b \<in> set (members s) \<union> set (peers s) \<and> pubsubmessage req = events_of t \<and> matchtype req = ''NAME''"
  by (cases t) (auto simp: ingroup_def between_def publish_request_def)

text \<open>A broadcast of \<open>evs\<close> under way among servers that exist and have room for what is left of it.\<close>

definition node_ok :: "string list \<Rightarrow> nat \<Rightarrow> string set \<Rightarrow> server \<Rightarrow> bool" where
  "node_ok evs k A s \<longleftrightarrow> room evs k s \<and> set (members s) \<union> set (peers s) \<subseteq> A \<and> (\<forall>t \<in> set (threads s). events_of t = evs)"

definition going :: "string list \<Rightarrow> cluster \<Rightarrow> bool" where
  "going evs c \<longleftrightarrow> cluster_ok c \<and> evs \<noteq> [] \<and> (\<forall>s \<in> ran (node c). node_ok evs (steps_left c) (dom (node c)) s) \<and>
     (\<forall>(a, req) \<in> set (mail c). a \<in> dom (node c) \<and> pubsubmessage req = evs \<and> matchtype req = ''NAME'')"

lemma static_lists: "static s' = static s \<Longrightarrow> members s' = members s \<and> peers s' = peers s"
  using static_reads(1,2)[of s] static_reads(1,2)[of s'] by simp

lemma going_update:
  assumes g: "going evs c" and k: "steps_left c = Suc (steps_left c')" and cf: "conf c' = conf c"
    and n: "node c' = (node c)(a \<mapsto> r)" "a \<in> dom (node c)" and r: "node_ok evs (steps_left c') (dom (node c)) r"
    and l: "\<forall>(a, req) \<in> set (mail c'). a \<in> dom (node c) \<and> pubsubmessage req = evs \<and> matchtype req = ''NAME''"
  shows "going evs c'"
proof -
  have d: "dom (node c') = dom (node c)" using n by auto
  have "node_ok evs (steps_left c') (dom (node c)) s" if "s \<in> ran (node c)" for s
    using g that unfolding going_def k node_ok_def by (blast intro: room_Suc)
  then have "\<forall>s \<in> ran (node c'). node_ok evs (steps_left c') (dom (node c')) s"
    using r unfolding d by (auto simp: n(1) ran_def split: if_splits)
  with g l show ?thesis unfolding going_def d cluster_ok_same[OF cf] by blast
qed

lemma going_step:
  assumes g: "going evs c" and "cluster_step c c'"
  shows "going evs c'"
proof -
  have ok: "cluster_ok c" "evs \<noteq> []" using g by (simp_all add: going_def)
  note cost = cluster_step_cost[OF ok(1) assms(2)]
  have k: "steps_left c = Suc (steps_left c')" using cost(3) by simp
  have nodes: "node_ok evs (Suc (steps_left c')) (dom (node c)) s" if "node c a = Some s" for a s
    using g ranI[of "node c" a s, OF that] unfolding going_def k by blast
  show ?thesis using assms(2)
  proof cases
    case (deliver xs a req ys s msg s')
    have req: "pubsubmessage req = evs" "matchtype req = ''NAME''" using g deliver(2) by (auto simp: going_def)
    have "room evs (steps_left c') s'"
      using Publish_room[OF _ req ok(2), of "steps_left c'" s] nodes[OF deliver(3)] deliver(4) by (auto simp: node_ok_def)
    moreover note static_lists[OF Publish_threads(1)[OF deliver(4)]]
    ultimately have r: "node_ok evs (steps_left c') (dom (node c)) s'"
      using nodes[OF deliver(3)] spawned_events req(1) by (fastforce simp: node_ok_def Publish_threads(2)[OF deliver(4)])
    show ?thesis
      by (rule going_update[OF g k cost(1) _ _ r]) (use g deliver in \<open>auto simp: going_def\<close>)
  next
    case (broadcast a s xs t ys s')
    have st: "static (s'\<lparr>sent := sent s @ sent s'\<rparr>) = static s" "threads (s'\<lparr>sent := sent s @ sent s'\<rparr>) = xs @ ys"
      "reg s' = reg s" "List.map_filter letter_of (sent s') = outgoing s t"
      by (simp_all add: broadcast(4) run_thread_sent)
    have old: "node_ok evs (Suc (steps_left c')) (dom (node c)) s" by (rule nodes[OF broadcast(2)])
    have r: "node_ok evs (steps_left c') (dom (node c)) (s'\<lparr>sent := sent s @ sent s'\<rparr>)"
      using old static_lists[OF st(1)] st(2,3) broadcast(3) room_Suc[of evs "steps_left c'" s]
      by (auto simp: node_ok_def room_def)
    show ?thesis
    proof (rule going_update[OF g k cost(1) _ _ r])
      show "node c' = (node c)(a \<mapsto> s'\<lparr>sent := sent s @ sent s'\<rparr>)" "a \<in> dom (node c)" using broadcast by auto
      have "b \<in> dom (node c) \<and> pubsubmessage req = evs \<and> matchtype req = ''NAME''" if "(b, req) \<in> set (outgoing s t)" for b req
        using outgoing_letters[OF that] old broadcast(3) by (auto simp: node_ok_def)
      then show "\<forall>(b, req) \<in> set (mail c'). b \<in> dom (node c) \<and> pubsubmessage req = evs \<and> matchtype req = ''NAME''"
        using g by (auto simp: broadcast(1) st(4) going_def)
    qed
  qed
qed

interpretation bcast: inv_system "going evs" cluster_step "going evs" for evs
  by standard (auto intro: going_step)

lemma going_quiet:
  assumes "going evs c" and "\<nexists>c'. cluster_step c c'"
  shows "quiet c"
proof (rule ccontr)
  assume "\<not> quiet c"
  then obtain a req where l: "(a, req) \<in> set (mail c)" "\<And>s msg s'. node c a = Some s \<Longrightarrow> Publish req s \<noteq> Inr (msg, s')"
    using stuck[OF _ assms(2)] by blast
  then obtain s where s: "node c a = Some s" "pubsubmessage req = evs" "matchtype req = ''NAME''" "evs \<noteq> []"
    using assms(1) by (auto simp: going_def)
  have "0 < steps_left c" using split_list[OF l(1)] by (auto simp: pending_def value_letter_def)
  then have "room evs (Suc (steps_left c - 1)) s" using assms(1) s(1) by (auto simp: going_def node_ok_def ran_def)
  from Publish_room[OF this s(2-4)] l(2)[OF s(1)] show False by blast
qed

lemma going_completes: "going evs c \<Longrightarrow> \<exists>n c'. steps cluster_step n c c' \<and> quiet c'"
proof (induction "steps_left c" arbitrary: c rule: less_induct)
  case less
  show ?case
  proof (cases "\<exists>c'. cluster_step c c'")
    case False
    show ?thesis by (intro exI conjI, rule steps_refl, rule going_quiet[OF less.prems False])
  next
    case True
    then obtain c1 where c1: "cluster_step c c1" ..
    then have "steps_left c1 < steps_left c" using cluster_step_cost(3) less.prems by (fastforce simp: going_def)
    from less.hyps[OF this going_step[OF less.prems c1]] obtain n c' where "steps cluster_step n c1 c'" "quiet c'" by blast
    then show ?thesis using steps_first[of cluster_step, OF c1] by blast
  qed
qed

text \<open>An example: a group of two workers, and another group with a coordinator that has a record of
  the event and one worker. All registries are empty.\<close>

definition demo_node :: "string \<Rightarrow> string \<Rightarrow> string \<Rightarrow> server" where
  "demo_node addr status dir = idle_server\<lparr>ServerAddr := addr, eventRecordMap := [(''e'', [])],
     grp := (grp idle_server)\<lparr>SERVERSTATUS := status, GM_CLUSTERDIR := dir, coordinatorAddrSet := [''h:0'', ''h:3''],
       gm_os := \<lparr>files = [''g/worker'' \<mapsto> DirNode [''h:1'', ''h:2''], ''k/worker'' \<mapsto> DirNode [''h:4'']], fds = [0], fdLimit = 9\<rparr>\<rparr>\<rparr>"

definition demo_cluster :: "string \<Rightarrow> cluster" where
  "demo_cluster a = \<lparr>node = [''h:0'' \<mapsto> demo_node ''h:0'' status_coor ''g'', ''h:1'' \<mapsto> demo_node ''h:1'' status_worker ''g'',
      ''h:2'' \<mapsto> demo_node ''h:2'' status_worker ''g'', ''h:3'' \<mapsto> demo_node ''h:3'' status_coor ''k'',
      ''h:4'' \<mapsto> demo_node ''h:4'' status_worker ''k''],
     mail = [(a, publish_request [''e''] sourceClient ''m'' ''NAME'')], delivered = []\<rparr>"

lemma demo_lists:
  "members (demo_node ''h:0'' st ''g'') = [''h:1'', ''h:2'']" "members (demo_node ''h:1'' st ''g'') = [''h:2'']"
  "members (demo_node ''h:2'' st ''g'') = [''h:1'']" "members (demo_node ''h:3'' st ''k'') = [''h:4'']"
  "members (demo_node ''h:4'' st ''k'') = []" "peers (demo_node ''h:0'' st d) = [''h:3'']"
  "peers (demo_node ''h:1'' st d) = [''h:0'', ''h:3'']" "peers (demo_node ''h:2'' st d) = [''h:0'', ''h:3'']"
  "peers (demo_node ''h:3'' st d) = [''h:0'']" "peers (demo_node ''h:4'' st d) = [''h:0'', ''h:3'']"
  by (simp_all add: members_def peers_def demo_node_def idle_server_def loadAddrInDir_def open_dir_def
      can_open_def gm_workerDir_def is_dot_def)

lemma demo_fields:
  "SERVERSTATUS (grp (demo_node a st d)) = st" "propagatePub (demo_node a st d)" "threads (demo_node a st d) = []"
  "eventRecordMap (demo_node a st d) = [(''e'', [])]" "reg (demo_node a st d) = pubsub_start"
  by (simp_all add: demo_node_def idle_server_def)

lemma status_neq: "status_worker \<noteq> status_coor"
  by (simp add: status_worker_def status_coor_def)

lemma demo_nodes:
  "ran (node (demo_cluster a)) = {demo_node ''h:0'' status_coor ''g'', demo_node ''h:1'' status_worker ''g'',
     demo_node ''h:2'' status_worker ''g'', demo_node ''h:3'' status_coor ''k'', demo_node ''h:4'' status_worker ''k''}"
  "dom (node (demo_cluster a)) = {''h:0'', ''h:1'', ''h:2'', ''h:3'', ''h:4''}"
proof -
  show "dom (node (demo_cluster a)) = {''h:0'', ''h:1'', ''h:2'', ''h:3'', ''h:4''}"
    unfolding demo_cluster_def by (simp add: insert_commute)
  show "ran (node (demo_cluster a)) = {demo_node ''h:0'' status_coor ''g'', demo_node ''h:1'' status_worker ''g'',
     demo_node ''h:2'' status_worker ''g'', demo_node ''h:3'' status_coor ''k'', demo_node ''h:4'' status_worker ''k''}"
    unfolding demo_cluster_def by (simp add: ran_map_upd insert_commute)
qed

lemma demo_ok: "cluster_ok (demo_cluster a)"
  unfolding cluster_ok_def demo_nodes by (simp add: demo_lists demo_fields) (simp add: demo_cluster_def demo_fields status_neq)

lemma demo_published_at: "published_at a [''e''] ''m'' (demo_cluster a)"
  unfolding published_at_def demo_nodes by (simp add: demo_ok demo_fields) (simp add: demo_cluster_def)

lemma demo_going:
  assumes "a \<in> {''h:0'', ''h:1'', ''h:2'', ''h:3'', ''h:4''}"
  shows "going [''e''] (demo_cluster a)"
proof -
  have "room evs k (demo_node b st d)" for evs k b st d
    by (simp add: room_def demo_fields pubsub_inv_start counts_upto_def) (simp add: pubsub_start_def)
  then have "\<forall>s \<in> ran (node (demo_cluster a)). node_ok [''e''] k (dom (node (demo_cluster a))) s" for k
    unfolding demo_nodes by (simp add: node_ok_def demo_lists demo_fields)
  then show ?thesis using assms unfolding going_def by (simp add: demo_ok demo_nodes) (simp add: demo_cluster_def publish_request_def)
qed

section \<open>Properties\<close>

text \<open>C5: a publication accepted by a worker reaches its group and nothing else. Every run takes at most
  \<open>2 + n\<close> steps for \<open>n\<close> other workers; when it is over, the publication has been delivered exactly once to
  the server itself and once to each other worker, and to no coordinator and no other group.\<close>

theorem broadcast_from_worker:
  assumes "published_at a evs meta c0" and "node c0 a = Some s" and "propagatePub s"
    and "SERVERSTATUS (grp s) \<noteq> status_coor" and "steps cluster_step n c0 c"
  shows "n \<le> 2 + length (members s)
    \<and> (quiet c \<longrightarrow> mset (delivered c) = add_mset (a, publish_request evs sourceClient meta ''NAME'')
         (mset (map (\<lambda>b. (b, publish_request evs sourceIngroup meta ''NAME'')) (members s))))"
proof -
  let ?req = "publish_request evs sourceClient meta ''NAME''"
  have sp: "spawned s ?req = [MultiServer evs meta]" using assms(3,4) by (simp add: spawned_client)
  have "steps_left c0 = 2 + length (members s)" "future c0 = add_mset (a, ?req) (mset (map (\<lambda>b. (b, ingroup evs meta)) (members s)))"
    by (simp_all only: pending_published[OF assms(1,2)] sp list.map sum_list.Cons sum_list.Nil value_thread_client) simp_all
  with published_run[OF assms(1,5)] show ?thesis by (auto simp: ingroup_def)
qed

theorem broadcast_from_worker_witness:
  "\<exists>n c. steps cluster_step n (demo_cluster ''h:1'') c \<and> quiet c \<and> n \<le> 3 \<and>
     mset (delivered c) = {#(''h:1'', publish_request [''e''] sourceClient ''m'' ''NAME''),
                            (''h:2'', publish_request [''e''] sourceIngroup ''m'' ''NAME'')#}"
proof -
  obtain n c where c: "steps cluster_step n (demo_cluster ''h:1'') c" "quiet c"
    using going_completes[OF demo_going[of "''h:1''"]] by blast
  have "node (demo_cluster ''h:1'') ''h:1'' = Some (demo_node ''h:1'' status_worker ''g'')" by (simp add: demo_cluster_def)
  from broadcast_from_worker[OF demo_published_at this _ _ c(1)] c show ?thesis
    by (auto simp: demo_fields demo_lists status_neq intro!: exI[of _ n] exI[of _ c])
qed

text \<open>C4: a publication accepted by a coordinator reaches the other groups. When the run is over, it has
  been delivered once to the coordinator, once to each worker of its group, once to every other
  coordinator, and once to each worker of the groups whose coordinator has a record of the event;
  the run takes at most the stated number of steps, so no broadcast goes round in circles.\<close>

theorem broadcast_from_coordinator:
  assumes "published_at a evs meta c0" and "node c0 a = Some s" and "propagatePub s"
    and "SERVERSTATUS (grp s) = status_coor" and "steps cluster_step n c0 c"
  shows "n \<le> 3 + length (members s) + (\<Sum>b\<leftarrow>peers s. 2 + length (forwarded evs meta c0 b))
    \<and> (quiet c \<longrightarrow> mset (delivered c) = add_mset (a, publish_request evs sourceClient meta ''NAME'')
         (mset (map (\<lambda>b. (b, publish_request evs sourceIngroup meta ''NAME'')) (members s)) +
          (\<Sum>b\<leftarrow>peers s. add_mset (b, publish_request evs sourceBetweengroup meta ''NAME'') (mset (forwarded evs meta c0 b)))))"
proof -
  let ?req = "publish_request evs sourceClient meta ''NAME''"
  have sp: "spawned s ?req = [MultiServer evs meta, MultiGroup evs meta]" using assms(3,4) by (simp add: spawned_client)
  note p = pending_published[OF assms(1,2)]
  have "steps_left c0 \<le> 3 + length (members s) + (\<Sum>b\<leftarrow>peers s. 2 + length (forwarded evs meta c0 b))"
    using value_thread_client(4)[of c0 s evs meta] by (simp add: p sp value_thread_client(2)[simplified])
  moreover have "future c0 = add_mset (a, ?req) (mset (map (\<lambda>b. (b, ingroup evs meta)) (members s)) +
      (\<Sum>b\<leftarrow>peers s. add_mset (b, between evs meta) (mset (forwarded evs meta c0 b))))"
    by (simp only: p sp list.map sum_list.Cons sum_list.Nil value_thread_client) simp
  ultimately show ?thesis using published_run[OF assms(1,5)] by (auto simp: ingroup_def between_def)
qed

theorem broadcast_from_coordinator_witness:
  "\<exists>n c. steps cluster_step n (demo_cluster ''h:0'') c \<and> quiet c \<and> n \<le> 8 \<and>
     mset (delivered c) = {#(''h:0'', publish_request [''e''] sourceClient ''m'' ''NAME''),
                            (''h:1'', publish_request [''e''] sourceIngroup ''m'' ''NAME''),
                            (''h:2'', publish_request [''e''] sourceIngroup ''m'' ''NAME''),
                            (''h:3'', publish_request [''e''] sourceBetweengroup ''m'' ''NAME''),
                            (''h:4'', publish_request [''e''] sourceIngroup ''m'' ''NAME'')#}"
proof -
  obtain n c where c: "steps cluster_step n (demo_cluster ''h:0'') c" "quiet c"
    using going_completes[OF demo_going[of "''h:0''"]] by blast
  have "node (demo_cluster ''h:0'') ''h:0'' = Some (demo_node ''h:0'' status_coor ''g'')" by (simp add: demo_cluster_def)
  moreover have "forwarded [''e''] ''m'' (demo_cluster ''h:0'') ''h:3'' = [(''h:4'', publish_request [''e''] sourceIngroup ''m'' ''NAME'')]"
    by (simp add: forwarded_def demo_cluster_def concerned_def demo_fields demo_lists ingroup_def)
  ultimately show ?thesis using broadcast_from_coordinator[OF demo_published_at _ _ _ c(1)] c
    by (auto simp: demo_fields demo_lists intro!: exI[of _ n] exI[of _ c])
qed

text \<open>C6: broadcasts complete. When the members of all groups exist, their registries are sound and the
  counters have room for the publications to come, every run of a broadcast can be continued until
  nothing is under way, and has at most \<open>steps_left\<close> steps: no handler fails and none is stuck.\<close>

theorem broadcast_completes:
  assumes "going evs c0" and "steps cluster_step n c0 c"
  shows "n + steps_left c = steps_left c0 \<and> (quiet c \<or> (\<exists>c'. cluster_step c c')) \<and> (\<exists>m c'. steps cluster_step m c c' \<and> quiet c')"
proof -
  have "cluster_ok c0" using assms(1) by (simp add: going_def)
  moreover have "going evs c" by (rule bcast.inv_steps[OF assms(2,1)])
  ultimately show ?thesis using steps_exact[OF assms(2)] going_quiet going_completes by blast
qed

theorem broadcast_completes_witness:
  "\<exists>m c'. steps cluster_step m (demo_cluster ''h:0'') c' \<and> quiet c'"
  using broadcast_completes[OF demo_going[of "''h:0''"] steps_refl] by blast

end
