(* ===== verification/ThreadPool.thy ===== *)
theory ThreadPool
  imports StdContainers "HOL-Library.Multiset"
begin

text \<open>
  The thread pool of the server, \<open>src/src/utils/threadpool/ThreadPool.h\<close>, as a state machine. A step is
  what one thread does while it holds \<open>queue_mutex\<close>, or the run of a task without it: a client
  enqueues, a worker takes the front task or leaves, a task ends, the destructor sets \<open>stop\<close>. The
  condition variable is the guard of the step: a worker moves only when its predicate holds. The
  fields \<open>accepted\<close>, \<open>started\<close> and \<open>finished\<close> record the history.
\<close>

section \<open>State and operations\<close>

datatype 't worker = Ready | Busy 't | Exited

record 't tpool =
  workers :: "'t worker list"
  tasks :: "'t list"
  stop :: bool
  accepted :: "'t list"
  started :: "'t list"
  finished :: "'t list"

definition ThreadPool :: "nat \<Rightarrow> 't tpool" where
  "ThreadPool threads = \<lparr>workers = replicate threads Ready, tasks = [], stop = False,
     accepted = [], started = [], finished = []\<rparr>"

definition enqueue :: "'t \<Rightarrow> 't tpool \<Rightarrow> 't tpool res" where
  "enqueue f p =
     (if stop p then Inl (Runtime_error ''enqueue on stopped ThreadPool'')
      else Inr (p\<lparr>tasks := list_push f (tasks p), accepted := accepted p @ [f]\<rparr>))"

text \<open>The body of a worker's loop up to the call of the task: \<open>None\<close> while it waits.\<close>

definition take_task :: "nat \<Rightarrow> 't tpool \<Rightarrow> 't tpool option" where
  "take_task i p =
     (if \<not> (stop p \<or> tasks p \<noteq> []) then None
      else if stop p \<and> tasks p = [] then Some (p\<lparr>workers := (workers p)[i := Exited]\<rparr>)
      else case list_pop (tasks p) of
             None \<Rightarrow> None
           | Some (t, q) \<Rightarrow> Some (p\<lparr>workers := (workers p)[i := Busy t], tasks := q, started := started p @ [t]\<rparr>))"

definition end_task :: "nat \<Rightarrow> 't \<Rightarrow> 't tpool \<Rightarrow> 't tpool" where
  "end_task i t p = p\<lparr>workers := (workers p)[i := Ready], finished := finished p @ [t]\<rparr>"

definition destroy :: "'t tpool \<Rightarrow> 't tpool" where
  "destroy p = p\<lparr>stop := True\<rparr>"

text \<open>The destructor's \<open>join\<close> of all threads returns.\<close>

definition joined :: "'t tpool \<Rightarrow> bool" where
  "joined p \<longleftrightarrow> list_all (\<lambda>w. w = Exited) (workers p)"

section \<open>Steps\<close>

text \<open>What the workers do by themselves.\<close>

inductive work :: "'t tpool \<Rightarrow> 't tpool \<Rightarrow> bool" where
  work_take: "i < length (workers p) \<Longrightarrow> workers p ! i = Ready \<Longrightarrow> take_task i p = Some p' \<Longrightarrow> work p p'"
| work_end: "i < length (workers p) \<Longrightarrow> workers p ! i = Busy t \<Longrightarrow> work p (end_task i t p)"

inductive pool_step :: "'t tpool \<Rightarrow> 't tpool \<Rightarrow> bool" where
  pool_enqueue: "enqueue f p = Inr p' \<Longrightarrow> pool_step p p'"
| pool_work: "work p p' \<Longrightarrow> pool_step p p'"
| pool_destroy: "pool_step p (destroy p)"

inductive_cases workE: "work p p'"
inductive_cases pool_stepE: "pool_step p p'"

section \<open>Invariant\<close>

definition load :: "'t worker \<Rightarrow> 't list" where
  "load w = (case w of Busy t \<Rightarrow> [t] | _ \<Rightarrow> [])"

definition running :: "'t tpool \<Rightarrow> 't multiset" where
  "running p = mset (concat (map load (workers p)))"

definition pool_inv :: "nat \<Rightarrow> 't tpool \<Rightarrow> bool" where
  "pool_inv n p \<longleftrightarrow> length (workers p) = n
     \<and> accepted p = started p @ tasks p
     \<and> mset (started p) = mset (finished p) + running p
     \<and> (Exited \<in> set (workers p) \<longrightarrow> stop p \<and> tasks p = [])"

lemma load_simps [simp]: "load Ready = []" "load (Busy t) = [t]" "load Exited = []"
  by (simp_all add: load_def)

lemma mset_load_update:
  "i < length ws \<Longrightarrow> mset (concat (map load (ws[i := w]))) + mset (load (ws ! i)) = mset (concat (map load ws)) + mset (load w)"
  by (induction ws arbitrary: i) (auto split: nat.split)

lemma running_update:
  "i < length (workers p) \<Longrightarrow>
   running (p\<lparr>workers := (workers p)[i := w]\<rparr>) + mset (load (workers p ! i)) = running p + mset (load w)"
  unfolding running_def by (simp add: mset_load_update)

lemma running_cong: "workers p = workers q \<Longrightarrow> running p = running q"
  by (simp add: running_def)

lemma take_task_cases:
  assumes "take_task i p = Some p'"
  obtains "stop p" "tasks p = []" "p' = p\<lparr>workers := (workers p)[i := Exited]\<rparr>"
  | t q where "tasks p = t # q" "p' = p\<lparr>workers := (workers p)[i := Busy t], tasks := q, started := started p @ [t]\<rparr>"
  using assms by (cases "tasks p") (auto simp: take_task_def list_pop_def split: if_splits)

lemma work_inv:
  assumes inv: "pool_inv n p" and w: "work p p'"
  shows "pool_inv n p'"
  using w
proof (rule workE)
  fix i assume i: "i < length (workers p)" "workers p ! i = Ready" and t: "take_task i p = Some p'"
  from t show ?thesis
  proof (rule take_task_cases)
    assume c: "stop p" "tasks p = []" "p' = p\<lparr>workers := (workers p)[i := Exited]\<rparr>"
    have "running p' = running p" using running_update[OF i(1), of Exited] i(2) by (simp add: c(3))
    with inv c show ?thesis by (simp add: pool_inv_def)
  next
    fix t q assume c: "tasks p = t # q"
      "p' = p\<lparr>workers := (workers p)[i := Busy t], tasks := q, started := started p @ [t]\<rparr>"
    have "running p' = running p + {#t#}"
      using running_update[OF i(1), of "Busy t"] i(2) running_cong[of p' "p\<lparr>workers := (workers p)[i := Busy t]\<rparr>"]
      by (simp add: c(2))
    moreover have "Exited \<notin> set (workers p)" using inv c(1) by (auto simp: pool_inv_def)
    then have "Exited \<notin> set (workers p')" using set_update_subset_insert[of "workers p" i "Busy t"] by (auto simp: c(2))
    ultimately show ?thesis using inv c by (simp add: pool_inv_def)
  qed
next
  fix i t assume c: "p' = end_task i t p" and i: "i < length (workers p)" "workers p ! i = Busy t"
  have "running p' + {#t#} = running p"
    using running_update[OF i(1), of Ready] i(2) running_cong[of p' "p\<lparr>workers := (workers p)[i := Ready]\<rparr>"]
    by (simp add: c end_task_def)
  then have "mset (started p') = mset (finished p') + running p'"
    using inv by (simp add: pool_inv_def c end_task_def union_assoc union_commute)
  moreover have "Exited \<in> set (workers p') \<longrightarrow> Exited \<in> set (workers p)"
    using set_update_subset_insert[of "workers p" i Ready] by (auto simp: c end_task_def)
  ultimately show ?thesis using inv by (auto simp: pool_inv_def c end_task_def)
qed

lemma pool_inv_step: "pool_inv n p \<Longrightarrow> pool_step p p' \<Longrightarrow> pool_inv n p'"
proof (erule pool_stepE)
  fix f assume inv: "pool_inv n p" and e: "enqueue f p = Inr p'"
  then have p': "\<not> stop p" "p' = p\<lparr>tasks := tasks p @ [f], accepted := accepted p @ [f]\<rparr>"
    by (auto simp: enqueue_def list_push_def split: if_splits)
  then show "pool_inv n p'" using inv running_cong[of p' p] by (auto simp: pool_inv_def)
next
  assume "pool_inv n p" and "p' = destroy p"
  then show "pool_inv n p'" using running_cong[of p' p] by (auto simp: pool_inv_def destroy_def)
qed (rule work_inv)

lemma pool_inv_ini: "pool_inv n (ThreadPool n)"
proof -
  have "concat (map load (replicate n Ready)) = []" by (induction n) auto
  then show ?thesis by (auto simp: pool_inv_def ThreadPool_def running_def)
qed

interpretation tp: inv_system "\<lambda>p. p = ThreadPool n" pool_step "pool_inv n" for n
  by unfold_locales (auto intro: pool_inv_ini pool_inv_step)

section \<open>The work of a stopped pool is bounded\<close>

definition todo :: "'t worker \<Rightarrow> nat" where
  "todo w = (case w of Ready \<Rightarrow> 1 | Busy _ \<Rightarrow> 2 | Exited \<Rightarrow> 0)"

definition work_left :: "'t tpool \<Rightarrow> nat" where
  "work_left p = 2 * length (tasks p) + sum_list (map todo (workers p))"

lemma todo_update:
  "i < length ws \<Longrightarrow> sum_list (map todo (ws[i := w])) + todo (ws ! i) = sum_list (map todo ws) + todo w"
  by (induction ws arbitrary: i) (auto split: nat.split)

lemma work_decreases: "work p p' \<Longrightarrow> work_left p' < work_left p"
proof (erule workE)
  fix i assume i: "i < length (workers p)" "workers p ! i = Ready" and t: "take_task i p = Some p'"
  note upd = todo_update[OF i(1)]
  from t show ?thesis
  proof (rule take_task_cases)
    assume "p' = p\<lparr>workers := (workers p)[i := Exited]\<rparr>"
    then show ?thesis using upd[of Exited] i(2) by (simp add: work_left_def todo_def)
  next
    fix t q assume "tasks p = t # q"
      "p' = p\<lparr>workers := (workers p)[i := Busy t], tasks := q, started := started p @ [t]\<rparr>"
    then show ?thesis using upd[of "Busy t"] i(2) by (simp add: work_left_def todo_def)
  qed
next
  fix i t assume "p' = end_task i t p" "i < length (workers p)" "workers p ! i = Busy t"
  then show ?thesis using todo_update[of i "workers p" Ready] by (simp add: work_left_def end_task_def todo_def)
qed

interpretation tpw: bounded_system work work_left
  by unfold_locales (rule work_decreases)

section \<open>Properties\<close>

text \<open>C19: the pool loses and repeats no task, and starts them in the order in which they were accepted:
  in every reachable state the accepted tasks are the started ones followed by the queue, and each
  started task is running or finished, once.\<close>

theorem pool_exactly_once:
  assumes "reach (\<lambda>p. p = ThreadPool n) pool_step p"
  shows "accepted p = started p @ tasks p \<and> mset (started p) = mset (finished p) + running p"
  using tp.inv_reach[OF assms] by (simp add: pool_inv_def)

theorem pool_exactly_once_witness:
  "\<exists>p. reach (\<lambda>p. p = ThreadPool 1) pool_step p \<and> accepted p = [7 :: nat] \<and> started p @ tasks p = [7]"
proof -
  let ?p = "(ThreadPool 1 :: nat tpool)\<lparr>tasks := [7], accepted := [7]\<rparr>"
  have "enqueue 7 (ThreadPool 1) = Inr ?p" by (simp add: enqueue_def ThreadPool_def list_push_def)
  then have "reach (\<lambda>p. p = ThreadPool 1) pool_step ?p"
    by (blast intro: reach_step reach_ini pool_enqueue)
  with pool_exactly_once[OF this] show ?thesis by (intro exI[of _ ?p]) (simp add: ThreadPool_def)
qed

text \<open>C20: destruction waits for all work and ends. Of a stopped pool with at least one worker, every
  run of the workers has at most \<open>work_left\<close> steps, some worker can move until all have left, and when
  they have, the queue is empty and every accepted task has finished.\<close>

theorem pool_destruction:
  assumes "reach (\<lambda>p. p = ThreadPool n) pool_step p" and "0 < n" and "stop p"
  shows "(\<forall>k q. steps work k p q \<longrightarrow> k \<le> work_left p)
    \<and> (\<not> joined p \<longrightarrow> (\<exists>q. work p q))
    \<and> (joined p \<longrightarrow> tasks p = [] \<and> mset (finished p) = mset (accepted p))"
proof (intro conjI impI allI)
  have inv: "pool_inv n p" by (rule tp.inv_reach[OF assms(1)])
  show "k \<le> work_left p" if "steps work k p q" for k q using tpw.run_length[OF that] .
  show "\<exists>q. work p q" if nj: "\<not> joined p"
  proof -
    from nj obtain i where i: "i < length (workers p)" "workers p ! i \<noteq> Exited"
      by (auto simp: joined_def list_all_length)
    show ?thesis
    proof (cases "workers p ! i")
      case Ready
      have "take_task i p \<noteq> None"
        using assms(3) by (cases "tasks p") (auto simp: take_task_def list_pop_def)
      with i Ready show ?thesis by (blast intro: work_take)
    next
      case (Busy t)
      with i show ?thesis by (blast intro: work_end)
    qed (use i in simp)
  qed
  assume j: "joined p"
  have "workers p \<noteq> []" using inv assms(2) by (auto simp: pool_inv_def)
  with j have "Exited \<in> set (workers p)" by (cases "workers p") (auto simp: joined_def)
  then show t: "tasks p = []" using inv by (simp add: pool_inv_def)
  have "concat (map load (workers p)) = []" using j by (auto simp: joined_def list_all_iff)
  then show "mset (finished p) = mset (accepted p)" using inv t by (simp add: pool_inv_def running_def)
qed

theorem pool_destruction_witness:
  "let p = destroy (ThreadPool 1 :: nat tpool) in stop p \<and> \<not> joined p \<and> (\<exists>q. work p q)"
proof -
  let ?p = "destroy (ThreadPool 1 :: nat tpool)"
  have "reach (\<lambda>p. p = ThreadPool 1) pool_step ?p" by (blast intro: reach_step reach_ini pool_destroy)
  moreover have "stop ?p" "\<not> joined ?p" by (simp_all add: destroy_def ThreadPool_def joined_def)
  ultimately show ?thesis using pool_destruction[of 1 ?p] by (simp add: Let_def)
qed

end
