(* ===== verification/Startup.thy ===== *)
theory Startup
  imports WorkflowServer ThreadPool
begin

text \<open>
  How a server process starts, \<open>main\<close> and \<open>RunServer\<close> of \<open>src/src/server/workflowserver.cc\<close>: the options, the
  entry in the membership directories, the thread pool and the test subscriptions. The rank given by MPI, the
  port given by the kernel and the address of a network interface are parameters. The property shows that what
  \<open>main\<close> builds is a state from which the properties of a serving process hold.
\<close>

section \<open>Operations\<close>

record process =
  srv :: server
  globalThreadPool :: "addr tpool"
  waitTime :: int
  GM_INTERFACE :: string
  notifySleep :: int
  overLoadThreshold :: int
  debugLog :: bool

text \<open>\<open>ThreadPool(size_t)\<close> given a negative \<open>int\<close> starts threads until the system refuses one.\<close>

definition RunServer :: "string \<Rightarrow> string \<Rightarrow> int \<Rightarrow> int \<Rightarrow> server \<Rightarrow> (server \<times> addr tpool) res" where
  "RunServer serverIP serverPort threadPool trigureNum s =
     (if threadPool < 0 then Inl (Runtime_error ''Resource temporarily unavailable'')
      else let s1 = s\<lparr>ServerAddr := serverIP @ '':'' @ serverPort\<rparr>
           in bindR (RunServer_subscribe trigureNum s1) (\<lambda>s2. Inr (s2, ThreadPool (nat threadPool))))"

text \<open>\<open>argv\<close> holds the name of the program first. \<open>None\<close> as the process is the usage message; \<open>None\<close> as the whole is
  a directory that can never be created.\<close>

definition main ::
  "int \<Rightarrow> int \<Rightarrow> int \<Rightarrow> nat \<Rightarrow> (string \<Rightarrow> string) \<Rightarrow> string list \<Rightarrow> server \<Rightarrow> process option res option" where
  "main world_rank bind_result name_result port ip argv s =
     (if length argv \<noteq> 10 then Some (Inr None)
      else case
          bindR (atoi (argv ! 1)) (\<lambda>waitT.
          bindR (atoi (argv ! 3)) (\<lambda>groupSize.
          bindR (atoi (argv ! 4)) (\<lambda>groupNumber.
          bindR (atoi (argv ! 5)) (\<lambda>threadPoolSize.
          bindR (atoi (argv ! 6)) (\<lambda>nSleep.
          bindR (atoi (argv ! 7)) (\<lambda>threshold.
          bindR (atoi (argv ! 8)) (\<lambda>logLevel.
          bindR (atoi (argv ! 9)) (\<lambda>trigerTastNum.
          bindR (getClusterDir world_rank ((grp s)\<lparr>gm_rank := world_rank, gm_requiredGroupSize := groupSize,
                   gm_groupNumber := groupNumber\<rparr>)) (\<lambda>(clusterDir, g).
            Inr (waitT, threadPoolSize, nSleep, threshold, logLevel, trigerTastNum, clusterDir, g))))))))))
        of
          Inl e \<Rightarrow> Some (Inl e)
        | Inr (waitT, threadPoolSize, nSleep, threshold, logLevel, trigerTastNum, clusterDir, g) \<Rightarrow>
            let ServerPort = to_string (getFreePortNum bind_result name_result port)
            in Option.bind (recordIPortIntoClusterDir (ip (argv ! 2)) [] ServerPort clusterDir g) (\<lambda>r.
                 Some (bindR r (\<lambda>(ServerIP, g1).
                   let s1 = s\<lparr>grp := updateCoordinatorAddr g1, propagateSub := False, propagatePub := True\<rparr>
                   in bindR (RunServer ServerIP ServerPort threadPoolSize trigerTastNum s1) (\<lambda>(s2, p).
                        Inr (Some \<lparr>srv = s2, globalThreadPool = p, waitTime = waitT, GM_INTERFACE = argv ! 2,
                              notifySleep = nSleep, overLoadThreshold = threshold, debugLog = (logLevel \<noteq> 0)\<rparr>))))))"

section \<open>Lemmas\<close>

definition test_topic :: string where "test_topic = ''INTERESTINGTOPIC1''"
definition test_client :: "int \<Rightarrow> string" where "test_client i = ''testclientId'' @ to_string i"

lemma test_topic_parses: "ParseEvents [''INTERESTINGTOPIC1''] = Inr [(test_topic, 1)]"
  by code_simp

definition test_enroll :: "int \<Rightarrow> server \<Rightarrow> server" where
  "test_enroll i s = s\<lparr>reg := enroll (test_client i) test_topic [(test_topic, 1)]
     (subscribed (test_client i) ''testNotifyAddr'' [(test_topic, 1)] ''NAME'' ''testMeta'') (reg s)\<rparr>"

lemma RunServer_subscribe_fold: "RunServer_subscribe n s = Inr (fold test_enroll [0..n - 1] s)"
proof -
  have "bindR (pubsubSubscribe [''INTERESTINGTOPIC1''] (''testclientId'' @ to_string i) ''testNotifyAddr''
     ''NAME'' ''testMeta'' (reg s)) (\<lambda>r. Inr (s\<lparr>reg := r\<rparr>)) = Inr (test_enroll i s)" for i s
    by (simp add: pubsubSubscribe_outcome test_topic_parses test_enroll_def test_client_def del: ParseEvents.simps)
  then show ?thesis by (simp add: RunServer_subscribe_def foldR_pure)
qed

text \<open>What the test subscriptions leave: a registry with the clients \<open>0\<close> to \<open>n - 1\<close>, and the rest as it was.\<close>

definition tested :: "server \<Rightarrow> int list \<Rightarrow> server \<Rightarrow> bool" where
  "tested s is s' \<longleftrightarrow> pubsub_inv (reg s') \<and> (\<exists>r. s' = s\<lparr>reg := r\<rparr>)
     \<and> (\<forall>cl. lookup2 (reg s') test_topic cl \<noteq> None \<longleftrightarrow> cl \<in> test_client ` set is)"

lemma enroll_subscribed_inv:
  "pubsub_inv r \<Longrightarrow> pubsub_inv (enroll cl ix ps (subscribed cl na ps mt meta) r)"
  by (rule enroll_inv) (simp_all add: subscribed_wf subscribed_dom, simp add: subscribed_def)

lemma tested_step: "tested s is s' \<Longrightarrow> tested s (is @ [i]) (test_enroll i s')"
proof -
  assume t: "tested s is s'"
  then have old: "pubsub_inv (reg s')"
    and clients: "\<And>cl. lookup2 (reg s') test_topic cl \<noteq> None \<longleftrightarrow> cl \<in> test_client ` set is"
    unfolding tested_def by blast+
  have inv: "pubsub_inv (reg (test_enroll i s'))"
    using old by (simp add: test_enroll_def enroll_subscribed_inv)
  moreover from t obtain r where "s' = s\<lparr>reg := r\<rparr>" unfolding tested_def by blast
  then have "\<exists>r. test_enroll i s' = s\<lparr>reg := r\<rparr>" by (simp add: test_enroll_def) blast
  moreover have "lookup2 (reg (test_enroll i s')) test_topic cl \<noteq> None \<longleftrightarrow> cl \<in> test_client ` set (is @ [i])" for cl
    using clients[of cl] by (auto simp: test_enroll_def enroll_lookup2)
  ultimately show ?thesis unfolding tested_def by blast
qed

lemma tested_fold: "tested s is s' \<Longrightarrow> tested s (is @ js) (fold test_enroll js s')"
proof (induction js arbitrary: "is" s')
  case (Cons j js)
  from Cons.IH[OF tested_step[OF Cons.prems, of j]] show ?case by simp
qed simp

lemma RunServer_outcome:
  assumes "reg s = pubsub_start" and "0 \<le> k"
  obtains s' where "RunServer ip port k n s = Inr (s', ThreadPool (nat k))"
    "tested (s\<lparr>ServerAddr := ip @ '':'' @ port\<rparr>) [0..n - 1] s'"
proof -
  have "tested s1 [] s1" if "reg s1 = pubsub_start" for s1
  proof -
    have "s1 = s1\<lparr>reg := reg s1\<rparr>" by simp
    then show ?thesis using that pubsub_inv_start
      unfolding tested_def by (intro conjI exI[of _ "reg s1"]) (simp_all add: lookup2_def pubsub_start_def)
  qed
  from tested_fold[OF this, of "s\<lparr>ServerAddr := ip @ '':'' @ port\<rparr>" "[0..n - 1]"] assms
  show thesis by (intro that[of "fold test_enroll [0..n - 1] (s\<lparr>ServerAddr := ip @ '':'' @ port\<rparr>)"])
      (simp_all add: RunServer_def RunServer_subscribe_fold)
qed


lemma main_unfold:
  assumes "\<forall>n \<in> {w, gsize, groups, nthreads, nsleep, thr, lvl, tests}. is_int32 n"
    and "argv = [prog, to_string w, iface, to_string gsize, to_string groups, to_string nthreads, to_string nsleep,
           to_string thr, to_string lvl, to_string tests]"
    and "0 \<le> rank" and "0 < groups" and "0 \<le> bound" and "named \<noteq> - 1"
    and "dir = gm_multinodeip @ ''/cluster'' @ to_string (rank mod groups)"
    and "g = (grp s)\<lparr>gm_rank := rank, gm_requiredGroupSize := gsize, gm_groupNumber := groups, GM_CLUSTERDIR := dir\<rparr>"
    and "recordIPortIntoClusterDir (ip iface) [] (to_string (int port)) dir g = Some (Inr (a, g1))"
    and "RunServer a (to_string (int port)) nthreads tests
      (s\<lparr>grp := updateCoordinatorAddr g1, propagateSub := False, propagatePub := True\<rparr>) = Inr (s2, p)"
  shows "main rank bound named port ip argv s =
    Some (Inr (Some \<lparr>srv = s2, globalThreadPool = p, waitTime = w, GM_INTERFACE = iface, notifySleep = nsleep,
      overLoadThreshold = thr, debugLog = (lvl \<noteq> 0)\<rparr>))"
proof -
  have at: "argv ! 1 = to_string w" "argv ! 2 = iface" "argv ! 3 = to_string gsize" "argv ! 4 = to_string groups"
    "argv ! 5 = to_string nthreads" "argv ! 6 = to_string nsleep" "argv ! 7 = to_string thr" "argv ! 8 = to_string lvl"
    "argv ! 9 = to_string tests" "length argv = 10" unfolding assms(2) by simp_all
  have port: "getFreePortNum bound named port = int port" using assms(5,6) by (simp add: getFreePortNum_def)
  have "getClusterDir rank ((grp s)\<lparr>gm_rank := rank, gm_requiredGroupSize := gsize, gm_groupNumber := groups\<rparr>) = Inr (dir, g)"
    using assms(3,4) by (simp add: getClusterDir_def c_rem_nonneg assms(7,8) Let_def)
  then show ?thesis
    using assms(1) assms(9,10) unfolding main_def at by (simp add: atoi_to_string port Let_def)
qed

section \<open>Properties\<close>

text \<open>C15: a process started with numbers in range joins its group and serves. When the directories on its way are
  missing or are directories and its address is new and short enough, \<open>main\<close> completes: the process has the
  status of its rank, its address is listed in the directory of its role, the pool has the required number of
  waiting threads, exactly the required test clients are subscribed, and the state satisfies the invariant of a
  serving process, which every further step keeps.\<close>

theorem server_starts:
  assumes "\<forall>n \<in> {w, gsize, groups, nthreads, nsleep, thr, lvl, tests}. is_int32 n"
    and "argv = [prog, to_string w, iface, to_string gsize, to_string groups, to_string nthreads, to_string nsleep,
           to_string thr, to_string lvl, to_string tests]"
    and "0 \<le> rank" and "0 < groups" and "rank < groups * gsize" and "is_int32 (groups * gsize)" and "0 \<le> nthreads"
    and "0 \<le> bound" and "named \<noteq> - 1" and "server_start s"
    and "addr = ip iface @ '':'' @ to_string (int port)" and "dir = gm_multinodeip @ ''/cluster'' @ to_string (rank mod groups)"
    and "role = (if rank < groups then gm_coordinatorDir else gm_workerDir)" and "os = gm_os (grp s)"
    and "can_open os" and "is_dir ''.'' os"
    and "absent_or_dir gm_multinodeip os" and "absent_or_dir dir os" and "absent_or_dir (dir @ ''/'' @ role) os"
    and "CHR ''/'' \<notin> set addr" and "files os (dir @ ''/'' @ role @ ''/'' @ addr) = None"
    and "length (dir @ ''/'' @ role @ ''/'' @ addr) < 100"
  shows "\<exists>p. main rank bound named port ip argv s = Some (Inr (Some p))
    \<and> ServerAddr (srv p) = addr
    \<and> SERVERSTATUS (grp (srv p)) = (if rank < groups then status_coor else status_worker)
    \<and> addr \<in> set (loadAddrInDir (dir @ ''/'' @ role) (gm_os (grp (srv p))))
    \<and> workers (globalThreadPool p) = replicate (nat nthreads) Ready
    \<and> (\<forall>cl. lookup2 (reg (srv p)) test_topic cl \<noteq> None \<longleftrightarrow> cl \<in> test_client ` {0..<tests})
    \<and> server_inv (srv p)
    \<and> (\<forall>net n s'. steps (serving net) n (srv p) s' \<longrightarrow> server_inv s')"
proof -
  let ?g = "(grp s)\<lparr>gm_rank := rank, gm_requiredGroupSize := gsize, gm_groupNumber := groups, GM_CLUSTERDIR := dir\<rparr>"
  let ?status = "if rank < groups then status_coor else status_worker"
  have role: "server_role rank groups (groups * gsize) = (Some role, ?status)" "CHR ''/'' \<notin> set role"
    using assms(5,13) by (auto simp: server_role_def gm_coordinatorDir_def gm_workerDir_def)
  have "\<exists>g'. recordIPortIntoClusterDir (ip iface) [] (to_string (int port)) dir ?g = Some (Inr (ip iface, g'))
    \<and> SERVERSTATUS g' = ?status \<and> addr \<in> set (loadAddrInDir (dir @ ''/'' @ role) (gm_os g'))"
    by (rule join_member[of ?g dir "rank mod groups" role ?status]) (use assms role in simp_all)
  then obtain g1 where g1: "recordIPortIntoClusterDir (ip iface) [] (to_string (int port)) dir ?g = Some (Inr (ip iface, g1))"
    "SERVERSTATUS g1 = ?status" "addr \<in> set (loadAddrInDir (dir @ ''/'' @ role) (gm_os g1))" by blast
  let ?s1 = "s\<lparr>grp := updateCoordinatorAddr g1, propagateSub := False, propagatePub := True\<rparr>"
  have start: "reg ?s1 = pubsub_start" "pool ?s1 = []" using assms(10) by (simp_all add: server_start_def)
  obtain s2 where s2: "RunServer (ip iface) (to_string (int port)) nthreads tests ?s1 = Inr (s2, ThreadPool (nat nthreads))"
    "tested (?s1\<lparr>ServerAddr := addr\<rparr>) [0..tests - 1] s2"
    using RunServer_outcome[OF start(1) assms(7)] assms(11) by metis
  obtain r where s2': "s2 = ?s1\<lparr>ServerAddr := addr\<rparr>\<lparr>reg := r\<rparr>" using s2(2) unfolding tested_def by blast
  have f: "ServerAddr s2 = addr" "pool s2 = []" "grp s2 = updateCoordinatorAddr g1"
    using start(2) by (simp_all add: s2')
  have inv: "server_inv s2" using s2(2) f(2) by (simp add: server_inv_def tested_def)
  have clients: "\<forall>cl. lookup2 (reg s2) test_topic cl \<noteq> None \<longleftrightarrow> cl \<in> test_client ` {0..<tests}"
    using s2(2) by (auto simp: tested_def)
  from main_unfold[where ip = ip and s = s and iface = iface, OF assms(1-4,8,9,12) refl g1(1) s2(1)]
  show ?thesis using f g1(2,3) inv clients srv.inv_steps[OF _ inv]
    by (auto simp: updateCoordinatorAddr_def ThreadPool_def)
qed


theorem server_starts_witness:
  "\<exists>p. main 1 0 0 80 (\<lambda>_. ''h'') [''workflowserver'', ''1000'', ''eth0'', ''2'', ''1'', ''4'', ''9'', ''5'', ''0'', ''2'']
        (idle_server\<lparr>grp := (grp idle_server)\<lparr>gm_os := \<lparr>files = [''.'' \<mapsto> DirNode [''.'', ''..'']], fds = [0], fdLimit = 9\<rparr>\<rparr>\<rparr>)
      = Some (Inr (Some p))
    \<and> ServerAddr (srv p) = ''h:80'' \<and> lookup2 (reg (srv p)) test_topic (test_client 1) \<noteq> None"
proof -
  let ?os = "\<lparr>files = [''.'' \<mapsto> DirNode [''.'', ''..'']], fds = [0], fdLimit = 9\<rparr>"
  let ?s = "idle_server\<lparr>grp := (grp idle_server)\<lparr>gm_os := ?os\<rparr>\<rparr>"
  have str: "to_string 1000 = ''1000''" "to_string 2 = ''2''" "to_string 1 = ''1''" "to_string 4 = ''4''" "to_string 9 = ''9''"
    "to_string 5 = ''5''" "to_string 0 = ''0''" "to_string 80 = ''80''" by code_simp+
  have "server_start ?s" by (simp add: server_start_def idle_server_def)
  then have "\<exists>p. main 1 0 0 80 (\<lambda>_. ''h'') [''workflowserver'', ''1000'', ''eth0'', ''2'', ''1'', ''4'', ''9'', ''5'', ''0'', ''2''] ?s
      = Some (Inr (Some p)) \<and> ServerAddr (srv p) = ''h:80'' \<and>
        (\<forall>cl. lookup2 (reg (srv p)) test_topic cl \<noteq> None \<longleftrightarrow> cl \<in> test_client ` {0..<2})"
    using server_starts[of 1000 2 1 4 9 5 0 2
        "[''workflowserver'', ''1000'', ''eth0'', ''2'', ''1'', ''4'', ''9'', ''5'', ''0'', ''2'']"
        "''workflowserver''" "''eth0''" 1 0 0 ?s "''h:80''" "\<lambda>_. ''h''" 80 "''./multinodeip/cluster0''" "''worker''" ?os]
    by (simp add: str is_int32_def INT_MIN_def INT_MAX_def gm_multinodeip_def gm_workerDir_def can_open_def is_dir_def
        absent_or_dir_def) blast
  moreover have "test_client 1 \<in> test_client ` {0..<2}" by simp
  ultimately show ?thesis by blast
qed

end
