(* ===== verification/ResultQueue.thy ===== *)
theory ResultQueue
  imports ThreadPool
begin

text \<open>
  The futures of the notification tasks, \<open>startNotify\<close> and \<open>check\<close> of \<open>src/src/server/workflowserver.cc\<close>, on top of
  the thread pool. A handler thread enqueues a task, then appends its future to \<open>resultQueue\<close> under
  \<open>resultmutex\<close>; the check thread takes the front future, waits for its task with the mutex held, and removes
  it. The mutex is a flag: only the check thread keeps it over several steps, so the step of a handler that
  locks, appends and unlocks is one step that needs the flag to be clear. A future is the number of its task
  in the order of acceptance together with the argument of the task.
\<close>

section \<open>State and operations\<close>

type_synonym 'a future = "nat \<times> 'a"

text \<open>A handler thread in the loop of \<open>startNotify\<close>: the arguments left to enqueue, and the future not yet stored.\<close>

datatype 'a notifier = Enqueue "'a list" | Store "'a future" "'a list"

text \<open>The check thread: before it reads the size, in its inner loop with the rounds left, or inside \<open>get\<close>.\<close>

datatype 'a checker = ReadSize | Rounds nat | Waiting "'a future" nat

record 'a results =
  globalPool :: "'a future tpool"
  resultQueue :: "'a future list"
  resultmutex :: bool
  notifiers :: "'a notifier list"
  checker :: "'a checker"
  collected :: "'a future list"   \<comment> \<open>history: the futures removed by the check thread\<close>

definition results_start :: "nat \<Rightarrow> 'a results" where
  "results_start threads = \<lparr>globalPool = ThreadPool threads, resultQueue = [], resultmutex = False, notifiers = [],
     checker = ReadSize, collected = []\<rparr>"

text \<open>A new call of \<open>startNotify\<close> for the subscribers filed under an event.\<close>

definition startNotify_call :: "'a list \<Rightarrow> 'a results \<Rightarrow> 'a results" where
  "startNotify_call args s = s\<lparr>notifiers := notifiers s @ [Enqueue args]\<rparr>"

text \<open>The next action of handler thread \<open>i\<close>: \<open>None\<close> when it is done or waits for the mutex.\<close>

definition startNotify_step :: "nat \<Rightarrow> 'a results \<Rightarrow> 'a results res option" where
  "startNotify_step i s =
     (case notifiers s ! i of
        Enqueue [] \<Rightarrow> None
      | Enqueue (psw # args) \<Rightarrow>
          let result = (length (accepted (globalPool s)), psw)
          in Some (bindR (enqueue result (globalPool s)) (\<lambda>p.
               Inr (s\<lparr>globalPool := p, notifiers := (notifiers s)[i := Store result args]\<rparr>)))
      | Store result args \<Rightarrow>
          if resultmutex s then None
          else Some (Inr (s\<lparr>resultQueue := list_push result (resultQueue s), notifiers := (notifiers s)[i := Enqueue args]\<rparr>)))"

text \<open>The next action of the check thread: \<open>None\<close> when it sleeps, waits for the mutex or for a task.\<close>

definition check :: "'a results \<Rightarrow> 'a results res option" where
  "check s =
     (case checker s of
        ReadSize \<Rightarrow>
          let size = length (resultQueue s)
          in if size > 0 then Some (Inr (s\<lparr>checker := Rounds size\<rparr>)) else None
      | Rounds 0 \<Rightarrow> Some (Inr (s\<lparr>checker := ReadSize\<rparr>))
      | Rounds (Suc n) \<Rightarrow>
          if resultmutex s then None
          else (case resultQueue s of
                  [] \<Rightarrow> Some (Inl (Undefined Empty_container))
                | result # _ \<Rightarrow> Some (Inr (s\<lparr>resultmutex := True, checker := Waiting result n\<rparr>)))
      | Waiting result n \<Rightarrow>
          if result \<notin> set (finished (globalPool s)) then None
          else (case list_pop (resultQueue s) of
                  None \<Rightarrow> Some (Inl (Undefined Empty_container))
                | Some (_, q) \<Rightarrow> Some (Inr (s\<lparr>resultQueue := q, resultmutex := False, checker := Rounds n,
                                            collected := collected s @ [result]\<rparr>))))"

section \<open>Steps\<close>

text \<open>What the threads do without new publications, and with them.\<close>

inductive progress :: "'a results \<Rightarrow> 'a results \<Rightarrow> bool" where
  prog_notify: "i < length (notifiers s) \<Longrightarrow> startNotify_step i s = Some (Inr s') \<Longrightarrow> progress s s'"
| prog_check: "check s = Some (Inr s') \<Longrightarrow> progress s s'"
| prog_work: "work (globalPool s) p \<Longrightarrow> progress s (s\<lparr>globalPool := p\<rparr>)"

inductive results_step :: "'a results \<Rightarrow> 'a results \<Rightarrow> bool" where
  res_progress: "progress s s' \<Longrightarrow> results_step s s'"
| res_call: "results_step s (startNotify_call args s)"

inductive_cases progressE: "progress s s'"
inductive_cases results_stepE: "results_step s s'"

section \<open>Invariant\<close>

fun stored_later :: "'a notifier \<Rightarrow> 'a future list" where
  "stored_later (Enqueue _) = []"
| "stored_later (Store f _) = [f]"

definition pending_futures :: "'a results \<Rightarrow> 'a future list" where
  "pending_futures s = concat (map stored_later (notifiers s))"

definition checker_inv :: "'a results \<Rightarrow> bool" where
  "checker_inv s \<longleftrightarrow>
     (case checker s of
        ReadSize \<Rightarrow> \<not> resultmutex s
      | Rounds n \<Rightarrow> \<not> resultmutex s \<and> n \<le> length (resultQueue s)
      | Waiting f n \<Rightarrow> resultmutex s \<and> (\<exists>q. resultQueue s = f # q \<and> n \<le> length q))"

definition results_inv :: "nat \<Rightarrow> 'a results \<Rightarrow> bool" where
  "results_inv n s \<longleftrightarrow> pool_inv n (globalPool s) \<and> \<not> stop (globalPool s)
     \<and> map fst (accepted (globalPool s)) = [0..<length (accepted (globalPool s))]
     \<and> mset (accepted (globalPool s)) = mset (collected s) + mset (resultQueue s) + mset (pending_futures s)
     \<and> set (collected s) \<subseteq> set (finished (globalPool s))
     \<and> checker_inv s"

lemma work_keeps:
  "work p p' \<Longrightarrow> accepted p' = accepted p \<and> stop p' = stop p \<and> set (finished p) \<subseteq> set (finished p')"
  by (erule workE) (auto elim!: take_task_cases simp: end_task_def)

lemma futures_update:
  "i < length (notifiers s) \<Longrightarrow>
   mset (concat (map stored_later ((notifiers s)[i := m]))) + mset (stored_later (notifiers s ! i)) =
   mset (pending_futures s) + mset (stored_later m)"
proof -
  have "i < length ns \<Longrightarrow> mset (concat (map stored_later (ns[i := m]))) + mset (stored_later (ns ! i)) =
      mset (concat (map stored_later ns)) + mset (stored_later m)" for ns :: "'a notifier list"
    by (induction ns arbitrary: i) (auto split: nat.split)
  then show "i < length (notifiers s) \<Longrightarrow> ?thesis" unfolding pending_futures_def by blast
qed

lemma checker_inv_cong:
  "checker s' = checker s \<Longrightarrow> resultmutex s' = resultmutex s \<Longrightarrow> resultQueue s' = resultQueue s \<Longrightarrow> checker_inv s' = checker_inv s"
  by (simp add: checker_inv_def split: checker.split)

text \<open>The outcomes of the two threads in a state of the invariant: no thread ever fails.\<close>

lemma startNotify_cases:
  assumes "startNotify_step i s = Some r" and "\<not> stop (globalPool s)"
  obtains psw args f p where "notifiers s ! i = Enqueue (psw # args)" "f = (length (accepted (globalPool s)), psw)"
      "enqueue f (globalPool s) = Inr p" "r = Inr (s\<lparr>globalPool := p, notifiers := (notifiers s)[i := Store f args]\<rparr>)"
  | f args where "notifiers s ! i = Store f args" "\<not> resultmutex s"
      "r = Inr (s\<lparr>resultQueue := resultQueue s @ [f], notifiers := (notifiers s)[i := Enqueue args]\<rparr>)"
  using assms
  by (auto simp: startNotify_step_def Let_def enqueue_def list_push_def split: notifier.splits list.splits if_splits)

lemma check_cases:
  assumes "check s = Some r" and "checker_inv s"
  obtains "checker s = ReadSize" "resultQueue s \<noteq> []" "r = Inr (s\<lparr>checker := Rounds (length (resultQueue s))\<rparr>)"
  | "checker s = Rounds 0" "r = Inr (s\<lparr>checker := ReadSize\<rparr>)"
  | n f q where "checker s = Rounds (Suc n)" "\<not> resultmutex s" "resultQueue s = f # q"
      "r = Inr (s\<lparr>resultmutex := True, checker := Waiting f n\<rparr>)"
  | n f q where "checker s = Waiting f n" "resultQueue s = f # q" "f \<in> set (finished (globalPool s))"
      "r = Inr (s\<lparr>resultQueue := q, resultmutex := False, checker := Rounds n, collected := collected s @ [f]\<rparr>)"
  using assms
  by (auto simp: check_def checker_inv_def Let_def list_pop_def split: checker.splits nat.splits list.splits if_splits)


lemma notify_inv:
  assumes inv: "results_inv n s" and i: "i < length (notifiers s)" and step: "startNotify_step i s = Some (Inr s')"
  shows "results_inv n s'"
proof -
  have ns: "\<not> stop (globalPool s)" using inv by (simp add: results_inv_def)
  from step ns show ?thesis
  proof (cases rule: startNotify_cases)
    case (1 psw args f p)
    then have p: "p = (globalPool s)\<lparr>tasks := tasks (globalPool s) @ [f], accepted := accepted (globalPool s) @ [f]\<rparr>"
      using ns by (auto simp: enqueue_def list_push_def)
    have "pool_inv n p" using inv pool_inv_step[OF _ pool_enqueue[OF 1(3)]] by (simp add: results_inv_def)
    moreover have "checker_inv s'" using inv 1(4) checker_inv_cong[of s' s] by (simp add: results_inv_def)
    ultimately show ?thesis
      using inv 1(1,2,4) futures_update[OF i, of "Store f args"] by (simp add: results_inv_def p pending_futures_def)
  next
    case (2 f args)
    have "checker_inv s'" using inv 2(2,3) by (auto simp: results_inv_def checker_inv_def split: checker.splits)
    then show ?thesis
      using inv 2(1,3) futures_update[OF i, of "Enqueue args"] by (simp add: results_inv_def pending_futures_def)
  qed
qed

lemma check_inv:
  assumes inv: "results_inv n s" and step: "check s = Some (Inr s')"
  shows "results_inv n s'"
proof -
  have c: "checker_inv s" using inv by (simp add: results_inv_def)
  from step c have "checker_inv s'"
    by (cases rule: check_cases) (use c in \<open>auto simp: checker_inv_def\<close>)
  from step c this show ?thesis
    by (cases rule: check_cases) (use inv in \<open>auto simp: results_inv_def pending_futures_def\<close>)
qed

lemma results_inv_step: "results_inv n s \<Longrightarrow> results_step s s' \<Longrightarrow> results_inv n s'"
proof (erule results_stepE)
  assume inv: "results_inv n s" and "progress s s'"
  then show "results_inv n s'"
  proof (elim progressE)
    fix p assume s': "s' = s\<lparr>globalPool := p\<rparr>" and w: "work (globalPool s) p"
    have "checker_inv s'" using inv s' checker_inv_cong[of s' s] by (simp add: results_inv_def)
    then show ?thesis using inv work_inv[OF _ w] work_keeps[OF w] s' by (auto simp: results_inv_def pending_futures_def)
  qed (auto intro: notify_inv check_inv)
next
  fix args assume inv: "results_inv n s" and s': "s' = startNotify_call args s"
  then have "checker_inv s'" using checker_inv_cong[of s' s] by (simp add: results_inv_def startNotify_call_def)
  then show "results_inv n s'" using inv s' by (simp add: results_inv_def startNotify_call_def pending_futures_def)
qed

lemma results_inv_start: "results_inv n (results_start n)"
proof -
  have "accepted (ThreadPool n :: 'a future tpool) = []" "\<not> stop (ThreadPool n :: 'a future tpool)" by (simp_all add: ThreadPool_def)
  then show ?thesis by (simp add: results_inv_def results_start_def pool_inv_ini pending_futures_def checker_inv_def)
qed

interpretation futures: inv_system "\<lambda>s. s = results_start n" results_step "results_inv n" for n
  by unfold_locales (auto intro: results_inv_start results_inv_step)

section \<open>The work is bounded\<close>

fun notifier_left :: "'a notifier \<Rightarrow> nat" where
  "notifier_left (Enqueue args) = 8 * length args"
| "notifier_left (Store _ args) = 5 + 8 * length args"

fun checker_left :: "'a checker \<Rightarrow> nat" where
  "checker_left ReadSize = 3"
| "checker_left (Rounds 0) = 4"
| "checker_left (Rounds (Suc _)) = 2"
| "checker_left (Waiting _ _) = 1"

text \<open>A task to enqueue costs its enqueueing, two steps of the pool, the storing of its future and at most four
  steps of the check thread.\<close>

definition results_left :: "'a results \<Rightarrow> nat" where
  "results_left s = work_left (globalPool s) + sum_list (map notifier_left (notifiers s))
     + 4 * length (resultQueue s) + checker_left (checker s)"

lemma notifier_update:
  "i < length ns \<Longrightarrow> sum_list (map notifier_left (ns[i := m])) + notifier_left (ns ! i) =
    sum_list (map notifier_left ns) + notifier_left m"
  by (induction ns arbitrary: i) (auto split: nat.split)

lemma progress_decreases:
  assumes inv: "results_inv n s" and "progress s s'"
  shows "results_left s' < results_left s"
  using assms(2)
proof (rule progressE)
  fix i assume i: "i < length (notifiers s)" and st: "startNotify_step i s = Some (Inr s')"
  have ns: "\<not> stop (globalPool s)" using inv by (simp add: results_inv_def)
  from st ns show ?thesis
  proof (cases rule: startNotify_cases)
    case (1 psw args f p)
    then have "work_left p = work_left (globalPool s) + 2" using ns by (auto simp: enqueue_def work_left_def list_push_def)
    then show ?thesis using 1 notifier_update[OF i, of "Store f args"] by (simp add: results_left_def)
  next
    case (2 f args)
    then show ?thesis using notifier_update[OF i, of "Enqueue args"] by (simp add: results_left_def)
  qed
next
  assume "check s = Some (Inr s')"
  moreover have c: "checker_inv s" using inv by (simp add: results_inv_def)
  ultimately show ?thesis
  proof (cases rule: check_cases)
    case 1
    then obtain k where "length (resultQueue s) = Suc k" by (cases "resultQueue s") auto
    with 1 show ?thesis by (simp add: results_left_def)
  next
    case (4 k f q)
    have "checker_left (Rounds k :: 'a checker) \<le> 4" by (cases k) auto
    with 4 show ?thesis by (simp add: results_left_def)
  qed (simp_all add: results_left_def)
next
  fix p assume "s' = s\<lparr>globalPool := p\<rparr>" "work (globalPool s) p"
  then show ?thesis using work_decreases by (auto simp: results_left_def)
qed

interpretation futures_run: bounded_system "\<lambda>s s'. results_inv n s \<and> progress s s'" results_left for n
  by unfold_locales (auto intro: progress_decreases)

lemma progress_run:
  assumes "steps progress k s s'" and "results_inv n s"
  shows "steps (\<lambda>s s'. results_inv n s \<and> progress s s') k s s' \<and> results_inv n s'"
  using assms
proof (induction rule: steps.induct)
  case (steps_next k s t u)
  then show ?case by (auto intro: steps.steps_next results_inv_step res_progress)
qed (auto intro: steps.intros)

section \<open>Progress\<close>

definition idle :: "'a results \<Rightarrow> bool" where
  "idle s \<longleftrightarrow> list_all (\<lambda>m. m = Enqueue []) (notifiers s) \<and> resultQueue s = [] \<and> checker s = ReadSize
     \<and> tasks (globalPool s) = [] \<and> list_all (\<lambda>w. w = Ready) (workers (globalPool s))"

lemma pool_moves:
  assumes inv: "pool_inv n p" and "0 < n" and "\<not> stop p" and "tasks p \<noteq> [] \<or> \<not> list_all (\<lambda>w. w = Ready) (workers p)"
  shows "\<exists>p'. work p p'"
proof (cases "\<exists>i t. i < length (workers p) \<and> workers p ! i = Busy t")
  case True
  then show ?thesis by (blast intro: work_end)
next
  case False
  have ready: "workers p ! i = Ready" if "i < length (workers p)" for i
  proof (cases "workers p ! i")
    case Exited
    then have "Exited \<in> set (workers p)" using that by (metis nth_mem)
    then show ?thesis using inv assms(3) by (simp add: pool_inv_def)
  qed (use False that in auto)
  then have "tasks p \<noteq> []" using assms(4) by (auto simp: list_all_length)
  then have "take_task 0 p \<noteq> None" using assms(3) by (cases "tasks p") (auto simp: take_task_def list_pop_def)
  moreover have "0 < length (workers p)" using inv assms(2) by (simp add: pool_inv_def)
  ultimately show ?thesis using ready by (blast intro: work_take)
qed

text \<open>When the pool is at rest, every accepted task has finished.\<close>

lemma rest_finished:
  assumes "pool_inv n p" and "tasks p = []" and "list_all (\<lambda>w. w = Ready) (workers p)"
  shows "mset (finished p) = mset (accepted p)"
proof -
  have "concat (map load (workers p)) = []" using assms(3) by (auto simp: list_all_iff)
  then show ?thesis using assms(1,2) by (simp add: pool_inv_def running_def)
qed

lemma results_progress:
  assumes inv: "results_inv n s" and "0 < n" and "\<not> idle s"
  shows "\<exists>s'. progress s s'"
proof (cases "tasks (globalPool s) = [] \<and> list_all (\<lambda>w. w = Ready) (workers (globalPool s))")
  case False
  then show ?thesis using pool_moves[of n "globalPool s"] inv assms(2) by (auto simp: results_inv_def intro: prog_work)
next
  case True
  then have fin: "mset (finished (globalPool s)) = mset (accepted (globalPool s))"
    using rest_finished[of n "globalPool s"] inv by (simp add: results_inv_def)
  have all: "mset (accepted (globalPool s)) = mset (collected s) + mset (resultQueue s) + mset (pending_futures s)"
    and c: "checker_inv s" and ns: "\<not> stop (globalPool s)" using inv by (auto simp: results_inv_def)
  show ?thesis
  proof (cases "check s")
    case (Some r)
    from Some c obtain s' where "r = Inr s'" by (cases rule: check_cases) auto
    with Some show ?thesis by (blast intro: prog_check)
  next
    case None
    have "f \<in> set (finished (globalPool s))" if "resultQueue s = f # q" for f q
      using mset_eq_setD[OF fin] mset_eq_setD[OF all[unfolded mset_append[symmetric]]] that by auto
    with None c have r: "checker s = ReadSize" "resultQueue s = []" "\<not> resultmutex s"
      by (auto simp: check_def checker_inv_def Let_def list_pop_def split: checker.splits nat.splits list.splits if_splits)
    with True assms(3) obtain m where "m \<in> set (notifiers s)" "m \<noteq> Enqueue []" by (auto simp: idle_def list_all_iff)
    then obtain i where i: "i < length (notifiers s)" "notifiers s ! i \<noteq> Enqueue []" by (metis in_set_conv_nth)
    then have "\<exists>s'. startNotify_step i s = Some (Inr s')"
      using ns r(3) by (auto simp: startNotify_step_def Let_def enqueue_def split: notifier.splits list.splits)
    with i(1) show ?thesis by (blast intro: prog_notify)
  qed
qed


section \<open>A pool without workers\<close>

definition starved :: "'a results \<Rightarrow> bool" where
  "starved s \<longleftrightarrow> workers (globalPool s) = [] \<and> finished (globalPool s) = [] \<and> collected s = []"

definition hung :: "'a results \<Rightarrow> 'a results \<Rightarrow> bool" where
  "hung s0 s \<longleftrightarrow> starved s \<and> resultmutex s \<and> resultQueue s = resultQueue s0 \<and> checker s = checker s0
     \<and> (\<forall>i f args. i < length (notifiers s0) \<longrightarrow> notifiers s0 ! i = Store f args
          \<longrightarrow> i < length (notifiers s) \<and> notifiers s ! i = Store f args)"

lemma starved_check:
  assumes "starved s" and "check s = Some (Inr s')"
  shows "starved s' \<and> (\<forall>f k. checker s \<noteq> Waiting f k)"
  using assms
  by (auto simp: check_def starved_def Let_def list_pop_def split: checker.splits nat.splits list.splits if_splits)

lemma starved_step: "starved s \<Longrightarrow> results_step s s' \<Longrightarrow> starved s'"
proof (erule results_stepE)
  assume st: "starved s" and "progress s s'"
  then show "starved s'"
  proof (elim progressE)
    fix p assume "work (globalPool s) p"
    then show ?thesis using st by (auto simp: starved_def elim!: workE)
  next
    fix i assume "startNotify_step i s = Some (Inr s')"
    then show ?thesis using st
      by (auto simp: starved_def startNotify_step_def Let_def enqueue_def split: notifier.splits list.splits if_splits)
  qed (use st starved_check in blast)
qed (simp add: starved_def startNotify_call_def)

interpretation empty_pool: inv_system "\<lambda>s. s = results_start 0" results_step starved
proof
  show "starved s" if "s = results_start 0" for s
    using that by (simp add: starved_def results_start_def ThreadPool_def)
qed (rule starved_step)

lemma hung_step:
  assumes "checker s0 = Waiting f k" and h: "hung s0 s" and step: "results_step s s'"
  shows "hung s0 s'"
proof -
  have st: "starved s" "starved s'" using h starved_step[OF _ step] by (auto simp: hung_def)
  from step show ?thesis
  proof (rule results_stepE)
    fix args assume "s' = startNotify_call args s"
    then show ?thesis using h st(2) by (auto simp: hung_def startNotify_call_def nth_append)
  next
    assume "progress s s'"
    then show ?thesis
    proof (rule progressE)
      fix p assume "work (globalPool s) p"
      then show ?thesis using st(1) by (auto simp: starved_def elim!: workE)
    next
      assume "check s = Some (Inr s')"
      moreover have "checker s = Waiting f k" using h assms(1) by (simp add: hung_def)
      ultimately show ?thesis using starved_check[OF st(1)] by blast
    next
      fix i assume "startNotify_step i s = Some (Inr s')"
      then obtain psw args p r where "notifiers s ! i = Enqueue (psw # args)"
          "s' = s\<lparr>globalPool := p, notifiers := (notifiers s)[i := Store r args]\<rparr>"
        using h by (auto simp: hung_def startNotify_step_def Let_def bindR_eq_Inr split: notifier.splits list.splits if_splits)
      note e = this
      have "notifiers s' ! j = Store g as" if "notifiers s ! j = Store g as" for j g as
        using that e by (cases "j = i") auto
      then show ?thesis using h st(2) unfolding hung_def by (simp add: e(2))
    qed
  qed
qed

lemma hung_steps: "steps results_step m s s' \<Longrightarrow> checker s0 = Waiting f k \<Longrightarrow> hung s0 s \<Longrightarrow> hung s0 s'"
  by (induction rule: steps.induct) (auto intro: hung_step)

section \<open>Properties\<close>

text \<open>C14: the futures of the tasks are all collected. In every reachable state of a pool with at least one worker
  the check thread and the handlers never fail (the queue is never read while empty), every run without new
  publications is bounded by \<open>results_left\<close>, some thread can move until all are idle (waiting for a task with the
  mutex held is no deadlock), and then every accepted task has finished and its future has been collected
  once.\<close>

theorem futures_collected:
  assumes "reach (\<lambda>s. s = results_start n) results_step s" and "0 < n"
  shows "(\<forall>e. check s \<noteq> Some (Inl e)) \<and> (\<forall>i e. i < length (notifiers s) \<longrightarrow> startNotify_step i s \<noteq> Some (Inl e))
    \<and> (\<forall>k s'. steps progress k s s' \<longrightarrow> k \<le> results_left s)
    \<and> (\<not> idle s \<longrightarrow> (\<exists>s'. progress s s'))
    \<and> (idle s \<longrightarrow> mset (collected s) = mset (accepted (globalPool s))
         \<and> mset (finished (globalPool s)) = mset (accepted (globalPool s)))"
proof (intro conjI allI impI)
  have inv: "results_inv n s" by (rule futures.inv_reach[OF assms(1)])
  then have c: "checker_inv s" and ns: "\<not> stop (globalPool s)" by (simp_all add: results_inv_def)
  show "check s \<noteq> Some (Inl e)" for e
  proof
    assume "check s = Some (Inl e)"
    then show False using c by (cases rule: check_cases) auto
  qed
  show "startNotify_step i s \<noteq> Some (Inl e)" for i e
  proof
    assume "startNotify_step i s = Some (Inl e)"
    then show False using ns by (cases rule: startNotify_cases) auto
  qed
  show "k \<le> results_left s" if "steps progress k s s'" for k s'
    using futures_run.run_length progress_run[OF that inv] by blast
  show "\<exists>s'. progress s s'" if "\<not> idle s" using results_progress[OF inv assms(2) that] .
  assume idle: "idle s"
  then have "pending_futures s = []" by (auto simp: idle_def pending_futures_def list_all_iff)
  with idle inv show "mset (collected s) = mset (accepted (globalPool s))" by (simp add: results_inv_def idle_def)
  show "mset (finished (globalPool s)) = mset (accepted (globalPool s))"
    using rest_finished[of n "globalPool s"] idle inv by (simp add: results_inv_def idle_def)
qed

text \<open>A run used as an example: one publication with one subscriber, up to the wait of the check thread.\<close>

definition demo_results :: "nat \<Rightarrow> nat results" where
  "demo_results threads = (results_start threads)
     \<lparr>globalPool := (ThreadPool threads)\<lparr>tasks := [(0, 7)], accepted := [(0, 7)]\<rparr>, resultQueue := [(0, 7)],
      resultmutex := True, notifiers := [Enqueue []], checker := Waiting (0, 7) 0\<rparr>"

lemma demo_results_reach: "reach (\<lambda>s. s = results_start n) results_step (demo_results n)"
proof -
  let ?s1 = "startNotify_call [7] (results_start n :: nat results)"
  let ?p = "(ThreadPool n :: nat future tpool)\<lparr>tasks := [(0, 7)], accepted := [(0, 7)]\<rparr>"
  let ?s2 = "?s1\<lparr>globalPool := ?p, notifiers := [Store (0, 7) []]\<rparr>"
  let ?s3 = "?s2\<lparr>resultQueue := [(0, 7)], notifiers := [Enqueue []]\<rparr>"
  let ?s4 = "?s3\<lparr>checker := Rounds 1\<rparr>"
  have n: "startNotify_step 0 ?s1 = Some (Inr ?s2)" "startNotify_step 0 ?s2 = Some (Inr ?s3)"
    "0 < length (notifiers ?s1)" "0 < length (notifiers ?s2)"
    by (simp_all add: startNotify_step_def startNotify_call_def results_start_def enqueue_def ThreadPool_def list_push_def Let_def)
  have c: "check ?s3 = Some (Inr ?s4)" "check ?s4 = Some (Inr (demo_results n))"
    by (simp_all add: check_def startNotify_call_def results_start_def demo_results_def Let_def)
  let ?R = "reach (\<lambda>s. s = results_start n) results_step"
  have "?R (results_start n)" by (rule reach_ini) simp
  then have "?R ?s1" by (rule reach_step) (rule res_call)
  then have "?R ?s2" by (rule reach_step) (rule res_progress[OF prog_notify[OF n(3,1)]])
  then have "?R ?s3" by (rule reach_step) (rule res_progress[OF prog_notify[OF n(4,2)]])
  then have "?R ?s4" by (rule reach_step) (rule res_progress[OF prog_check[OF c(1)]])
  then show ?thesis by (rule reach_step) (rule res_progress[OF prog_check[OF c(2)]])
qed

theorem futures_collected_witness:
  "reach (\<lambda>s. s = results_start 1) results_step (demo_results 1) \<and> (\<exists>s'. progress (demo_results 1) s')"
proof -
  have "\<not> idle (demo_results 1)" by (simp add: idle_def demo_results_def)
  with futures_collected[OF demo_results_reach[of 1]] demo_results_reach[of 1] show ?thesis by simp
qed

text \<open>A pool without workers hangs the server. When the number of threads is 0 and the check thread waits for a
  future, it holds the mutex for ever: whatever happens later, nothing is collected, the queue does not
  change, and no handler that has a future to store ever gets past it.\<close>

theorem no_workers_hang:
  assumes "reach (\<lambda>s. s = results_start 0) results_step s" and "checker s = Waiting f k"
    and "steps results_step m s s'"
  shows "checker s' = Waiting f k \<and> resultmutex s' \<and> collected s' = [] \<and> resultQueue s' = resultQueue s
    \<and> (\<forall>i g args. i < length (notifiers s) \<longrightarrow> notifiers s ! i = Store g args \<longrightarrow> notifiers s' ! i = Store g args)"
proof -
  have "checker_inv s" using futures.inv_reach[OF assms(1)] by (simp add: results_inv_def)
  then have "hung s s" using empty_pool.inv_reach[OF assms(1)] assms(2) by (auto simp: hung_def checker_inv_def)
  then have "hung s s'" by (rule hung_steps[OF assms(3,2)])
  then show ?thesis using assms(2) by (auto simp: hung_def starved_def)
qed

theorem no_workers_hang_witness:
  "steps results_step 1 (demo_results 0) (startNotify_call [8] (demo_results 0))
   \<and> resultmutex (startNotify_call [8] (demo_results 0)) \<and> collected (startNotify_call [8] (demo_results 0)) = []"
proof -
  have r: "steps results_step (Suc 0) (demo_results 0) (startNotify_call [8] (demo_results 0))"
    by (rule steps_next, rule steps_refl, rule res_call)
  have "checker (demo_results 0) = Waiting (0, 7) 0" by (simp add: demo_results_def)
  from no_workers_hang[OF demo_results_reach this r] r show ?thesis by simp
qed

end
