(* ===== verification/PubSubThreads.thy ===== *)
theory PubSubThreads
  imports PubSubSpec
begin

text \<open>
  The registry under concurrent requests. The handlers of \<open>src/src/server/pubsub.cc\<close> hold a lock only for parts of
  their work; here \<open>addNewClient\<close>, \<open>pubsubPublish\<close> and \<open>deleteClient\<close> are threads whose steps are these critical
  sections. A test and the copy that follows it are one step where the map only grows in between
  (\<open>getIndexMap\<close> and the keys of \<open>subtoClient\<close> are never removed). The counters of a wrapper are changed
  without a lock; that change is one step here, and \<open>PubSubRaces\<close> splits it, for the races on a single counter. A
  thread that throws ends as \<open>Failed\<close> and leaves the registry as it was at that moment.
\<close>

section \<open>Threads\<close>

datatype thr =
    SubCall string string "string list" string string        \<comment> \<open>clientid, notifyAddr, eventList, matchType, subMetadata\<close>
  | SubIndex string string "string list" addr               \<comment> \<open>clientid, index event, events left, wrapper\<close>
  | Unsub string string                                      \<comment> \<open>subevent, clientid\<close>
  | PubNext "string list" string string                     \<comment> \<open>events left, matchType, metadata\<close>
  | PubIndexes string "string list" "string list" string string
  | PubClients string string "(string \<times> addr) list" "string list" "string list" string string
  | PubMark string string string "(string \<times> addr) list" "string list" "string list" string string
  | Finished
  | Failed cpp_error

text \<open>Lines 505 to 528: the counter and the test of one subscriber, as one step. The source holds no lock here;
  \<open>PubSubRaces\<close> takes the step apart and has the runs that interleave inside it.\<close>

definition pub_count :: "string \<Rightarrow> string \<Rightarrow> string \<Rightarrow> addr \<Rightarrow> pubsub \<Rightarrow> (bool \<times> pubsub) res" where
  "pub_count mt metadata e a s =
     bindR (deref s a) (\<lambda>w.
       if mt = ''NAME''
       then bindR (chk_int (map_at 0 e (publishedEvent w) + 1)) (\<lambda>c.
              let w' = w\<lparr>publishedEvent := map_put e c (publishedEvent w)\<rparr>
              in Inr (checkIfTriggure w', poke a w' s))
       else if mt = ''META_GRID''
       then bindR (checkIfTriggureMetaGrid w metadata) (\<lambda>b. Inr (b, s))
       else Inr (False, s))"

text \<open>Lines 541 to 544: the subscriber is looked up again; a missing entry is inserted as a null pointer and
  followed.\<close>

definition pub_mark :: "string \<Rightarrow> string \<Rightarrow> string \<Rightarrow> pubsub \<Rightarrow> pubsub res" where
  "pub_mark metadata indexEvent clientId s =
     (case map_of (map_at [] indexEvent (subtoClient s)) clientId of
        None \<Rightarrow> Inl (Undefined Null_pointer)
      | Some b \<Rightarrow> bindR (deref s b) (\<lambda>v. Inr (poke b (v\<lparr>pubMetadata := metadata, iftrigure := True\<rparr>) s)))"

definition thr_step :: "thr \<Rightarrow> pubsub \<Rightarrow> (thr \<times> pubsub) option" where
  "thr_step t s =
     (case t of
        SubCall cl notifyAddr evs mt meta \<Rightarrow>
          let psw = new_wrapper\<lparr>peerURL := notifyAddr, publishedEvent := [], clientID := cl,
                      matchType := mt, iftrigure := False, subMetadata := meta\<rparr>;
              s1 = alloc psw s
          in (case evs of
                [] \<Rightarrow> Some (Finished, s1)
              | indexEvent # _ \<Rightarrow>
                  (case ParseEvent indexEvent of
                     Inl err \<Rightarrow> Some (Failed err, s1)
                   | Inr (ix, _) \<Rightarrow> Some (SubIndex cl ix evs (nextAddr s), s1)))
      | SubIndex cl ix (ev # evs) a \<Rightarrow>
          (case ParseEvent ev of
             Inl err \<Rightarrow> Some (Failed err, s)
           | Inr (e, n) \<Rightarrow>
               (case deref s a of
                  Inl err \<Rightarrow> Some (Failed err, s)
                | Inr w \<Rightarrow> Some (SubIndex cl ix evs a,
                    (poke a (w\<lparr>requiredeventMap := require e n (requiredeventMap w)\<rparr>) s)
                      \<lparr>getIndexMap := indexEvents ix e (getIndexMap s)\<rparr>)))
      | SubIndex cl ix [] a \<Rightarrow>
          Some (Finished, s\<lparr>subtoClient := map_put ix (map_put cl a (map_at [] ix (subtoClient s))) (subtoClient s)\<rparr>)
      | Unsub ix cl \<Rightarrow> Some (Finished, deleteClient ix cl s)
      | PubNext [] mt metadata \<Rightarrow> Some (Finished, s)
      | PubNext (e # es) mt metadata \<Rightarrow>
          (case map_of (getIndexMap s) e of
             None \<Rightarrow> Some (PubNext es mt metadata, s)
           | Some indexEventSet \<Rightarrow> Some (PubIndexes e indexEventSet es mt metadata, s))
      | PubIndexes e [] es mt metadata \<Rightarrow> Some (PubNext es mt metadata, s)
      | PubIndexes e (ix # ixs) es mt metadata \<Rightarrow>
          (case map_of (subtoClient s) ix of
             None \<Rightarrow> Some (Finished, s)
           | Some innermap \<Rightarrow> Some (PubClients e ix innermap ixs es mt metadata, s))
      | PubClients e ix [] ixs es mt metadata \<Rightarrow> Some (PubIndexes e ixs es mt metadata, s)
      | PubClients e ix ((cl, a) # ps) ixs es mt metadata \<Rightarrow>
          (case pub_count mt metadata e a s of
             Inl err \<Rightarrow> Some (Failed err, s)
           | Inr (b, s1) \<Rightarrow> Some (if b then PubMark e ix cl ps ixs es mt metadata
                                 else PubClients e ix ps ixs es mt metadata, s1))
      | PubMark e ix cl ps ixs es mt metadata \<Rightarrow>
          (case pub_mark metadata ix cl s of
             Inl err \<Rightarrow> Some (Failed err, s)
           | Inr s1 \<Rightarrow> Some (PubClients e ix ps ixs es mt metadata, s1))
      | Finished \<Rightarrow> None
      | Failed _ \<Rightarrow> None)"

section \<open>Systems of threads\<close>

record registry_sys =
  shared :: pubsub
  thrs :: "thr list"

text \<open>A request starts a thread; a thread takes its next step.\<close>

inductive sys_step :: "(thr \<Rightarrow> bool) \<Rightarrow> registry_sys \<Rightarrow> registry_sys \<Rightarrow> bool" for call where
  sys_call: "call t \<Longrightarrow> sys_step call c (c\<lparr>thrs := thrs c @ [t]\<rparr>)"
| sys_move: "i < length (thrs c) \<Longrightarrow> thr_step (thrs c ! i) (shared c) = Some (t, s) \<Longrightarrow>
    sys_step call c \<lparr>shared = s, thrs = (thrs c)[i := t]\<rparr>"

inductive_cases sys_stepE: "sys_step call c c'"

text \<open>The requests: subscriptions and publications, and removals besides.\<close>

definition pubsub_call :: "thr \<Rightarrow> bool" where
  "pubsub_call t = (case t of SubCall _ _ _ _ _ \<Rightarrow> True | PubNext _ _ _ \<Rightarrow> True | _ \<Rightarrow> False)"

definition any_call :: "thr \<Rightarrow> bool" where
  "any_call t = (case t of Unsub _ _ \<Rightarrow> True | _ \<Rightarrow> pubsub_call t)"

text \<open>A thread that runs alone.\<close>

definition alone :: "thr \<times> pubsub \<Rightarrow> thr \<times> pubsub \<Rightarrow> bool" where
  "alone c c' \<longleftrightarrow> thr_step (fst c) (snd c) = Some c'"

definition runs_alone :: "thr \<times> pubsub \<Rightarrow> thr \<times> pubsub \<Rightarrow> bool" where
  "runs_alone c c' \<longleftrightarrow> (\<exists>n. steps alone n c c')"

lemma runs_refl: "runs_alone c c"
  unfolding runs_alone_def by (blast intro: steps_refl)

lemma runs_step: "thr_step t s = Some c \<Longrightarrow> runs_alone c c' \<Longrightarrow> runs_alone (t, s) c'"
  unfolding runs_alone_def by (force intro: steps_first simp: alone_def)

section \<open>A thread alone behaves as the operation\<close>

lemma publishToClient_split:
  "publishToClient mt metadata e ix (cl, a) s =
     bindR (pub_count mt metadata e a s) (\<lambda>(b, s1). if b then pub_mark metadata ix cl s1 else Inr s1)"
  by (cases "deref s a") (auto simp: publishToClient_def pub_count_def pub_mark_def Let_def bindR_def split: sum.splits)

text \<open>What a thread still does when nobody interferes.\<close>

fun subscribe_rest :: "string \<Rightarrow> string \<Rightarrow> string list \<Rightarrow> addr \<Rightarrow> pubsub \<Rightarrow> pubsub res" where
  "subscribe_rest cl ix [] a s =
     Inr (s\<lparr>subtoClient := map_put ix (map_put cl a (map_at [] ix (subtoClient s))) (subtoClient s)\<rparr>)"
| "subscribe_rest cl ix (ev # evs) a s =
     bindR (ParseEvent ev) (\<lambda>(e, n). bindR (deref s a) (\<lambda>w.
       subscribe_rest cl ix evs a ((poke a (w\<lparr>requiredeventMap := require e n (requiredeventMap w)\<rparr>) s)
         \<lparr>getIndexMap := indexEvents ix e (getIndexMap s)\<rparr>)))"

definition index_rest :: "string \<Rightarrow> string list \<Rightarrow> string list \<Rightarrow> string \<Rightarrow> string \<Rightarrow> pubsub \<Rightarrow> pubsub res" where
  "index_rest e ixs es mt md s =
     bindR (publishToIndexes mt md e ixs s) (\<lambda>(s', returned). if returned then Inr s' else publishEvents es mt md s')"

definition client_rest where
  "client_rest e ix ps ixs es mt md s = bindR (foldR (publishToClient mt md e ix) ps s) (index_rest e ixs es mt md)"

primrec outcome :: "thr \<Rightarrow> pubsub \<Rightarrow> pubsub res" where
  "outcome (SubCall cl na evs mt meta) s = pubsubSubscribe evs cl na mt meta s"
| "outcome (SubIndex cl ix evs a) s = subscribe_rest cl ix evs a s"
| "outcome (Unsub ix cl) s = Inr (deleteClient ix cl s)"
| "outcome (PubNext es mt md) s = publishEvents es mt md s"
| "outcome (PubIndexes e ixs es mt md) s = index_rest e ixs es mt md s"
| "outcome (PubClients e ix ps ixs es mt md) s = client_rest e ix ps ixs es mt md s"
| "outcome (PubMark e ix cl ps ixs es mt md) s = bindR (pub_mark md ix cl s) (client_rest e ix ps ixs es mt md)"
| "outcome Finished s = Inr s"
| "outcome (Failed err) s = Inl err"

lemma subscribe_rest_fold:
  assumes "heap s a = Some w"
  shows "subscribe_rest cl ix evs a s = bindR (ParseEvents evs) (\<lambda>ps.
    Inr ((poke a (w\<lparr>requiredeventMap := fold (\<lambda>(e, n). require e n) ps (requiredeventMap w)\<rparr>) s)
      \<lparr>getIndexMap := fold (\<lambda>(e, n). indexEvents ix e) ps (getIndexMap s),
       subtoClient := map_put ix (map_put cl a (map_at [] ix (subtoClient s))) (subtoClient s)\<rparr>))"
  using assms
proof (induction evs arbitrary: s w)
  case Nil
  then show ?case by simp
next
  case (Cons ev evs)
  show ?case
  proof (cases "ParseEvent ev")
    case (Inr p)
    obtain e n where p: "p = (e, n)" by (cases p)
    let ?w = "w\<lparr>requiredeventMap := require e n (requiredeventMap w)\<rparr>"
    let ?s = "(poke a ?w s)\<lparr>getIndexMap := indexEvents ix e (getIndexMap s)\<rparr>"
    have "heap ?s a = Some ?w" by (simp add: poke_def)
    note step = Cons.IH[OF this, unfolded poke_def]
    show ?thesis using Cons.prems Inr p
      by (cases "ParseEvents evs") (simp_all add: step deref_def poke_def)
  qed simp
qed

lemma outcome_SubCall:
  "thr_step (SubCall cl na evs mt meta) s = Some (t, s') \<Longrightarrow> outcome t s' = pubsubSubscribe evs cl na mt meta s"
proof (cases evs)
  case (Cons ev evs')
  assume "thr_step (SubCall cl na evs mt meta) s = Some (t, s')"
  then show ?thesis
    using Cons
    by (cases "ParseEvent ev"; cases "ParseEvents evs'")
       (auto simp: thr_step_def Let_def pubsubSubscribe_outcome subscribe_rest_fold alloc_def enroll_def poke_def
          subscribed_def new_wrapper_def simp del: subscribe_rest.simps)
qed (auto simp: thr_step_def pubsubSubscribe_def addNewClient_def Let_def)

lemma outcome_step: "thr_step t s = Some (t', s') \<Longrightarrow> outcome t' s' = outcome t s"
proof (cases t)
  case SubCall
  then show "thr_step t s = Some (t', s') \<Longrightarrow> ?thesis" using outcome_SubCall by simp
next
  case (SubIndex cl ix evs a)
  then show "thr_step t s = Some (t', s') \<Longrightarrow> ?thesis"
    by (cases evs) (auto simp: thr_step_def split: sum.splits)
next
  case (PubNext es mt md)
  then show "thr_step t s = Some (t', s') \<Longrightarrow> ?thesis"
    by (cases es) (auto simp: thr_step_def index_rest_def split: option.splits)
next
  case (PubIndexes e ixs es mt md)
  then show "thr_step t s = Some (t', s') \<Longrightarrow> ?thesis"
    by (cases ixs) (auto simp: thr_step_def index_rest_def[abs_def] client_rest_def bindR_assoc split: option.splits)
next
  case (PubClients e ix ps ixs es mt md)
  then show "thr_step t s = Some (t', s') \<Longrightarrow> ?thesis"
    by (cases ps) (auto simp: thr_step_def client_rest_def[abs_def] publishToClient_split bindR_assoc split: sum.splits if_splits)
next
  case (PubMark e ix cl ps ixs es mt md)
  then show "thr_step t s = Some (t', s') \<Longrightarrow> ?thesis"
    by (auto simp: thr_step_def client_rest_def split: sum.splits)
qed (auto simp: thr_step_def)

lemma outcome_runs: "runs_alone c c' \<Longrightarrow> outcome (fst c') (snd c') = outcome (fst c) (snd c)"
proof -
  have "steps alone n c c' \<Longrightarrow> outcome (fst c') (snd c') = outcome (fst c) (snd c)" for n
    by (induction rule: steps.induct) (auto simp: alone_def dest: outcome_step)
  then show "runs_alone c c' \<Longrightarrow> ?thesis" by (auto simp: runs_alone_def)
qed

text \<open>Every thread that runs alone comes to an end.\<close>

definition ends :: "thr \<times> pubsub \<Rightarrow> bool" where
  "ends c \<longleftrightarrow> (\<exists>s'. runs_alone c (Finished, s')) \<or> (\<exists>err s'. runs_alone c (Failed err, s'))"

lemma ends_over [simp, intro]: "ends (Finished, s)" "ends (Failed err, s)"
  by (auto simp: ends_def intro: runs_refl)

lemma ends_step: "thr_step t s = Some c \<Longrightarrow> ends c \<Longrightarrow> ends (t, s)"
  unfolding ends_def by (blast intro: runs_step)

lemma ends_by: "case thr_step t s of None \<Rightarrow> False | Some c \<Rightarrow> ends c \<Longrightarrow> ends (t, s)"
  by (auto intro: ends_step split: option.splits)

lemma ends_SubIndex: "ends (SubIndex cl ix evs a, s)"
proof (induction evs arbitrary: s)
  case Nil
  show ?case by (rule ends_by) (auto simp: thr_step_def)
next
  case (Cons ev evs)
  then show ?case
    by (cases "ParseEvent ev"; cases "deref s a") (rule ends_by; auto simp: thr_step_def)+
qed

lemma ends_PubClients:
  assumes "\<And>s. ends (PubIndexes e ixs es mt md, s)"
  shows "ends (PubClients e ix ps ixs es mt md, s)"
proof (induction ps arbitrary: s)
  case Nil
  show ?case by (rule ends_step[OF _ assms]) (simp add: thr_step_def)
next
  case (Cons p ps)
  obtain cl a where p: "p = (cl, a)" by (cases p)
  have mark: "ends (PubMark e ix cl ps ixs es mt md, s)" for s
    by (cases "pub_mark md ix cl s") (rule ends_by; auto intro: Cons.IH simp: thr_step_def)+
  show ?case
    by (cases "pub_count mt md e a s") (rule ends_by; auto intro: mark Cons.IH simp: thr_step_def p split: prod.split)+
qed

lemma ends_PubIndexes:
  assumes "\<And>s. ends (PubNext es mt md, s)"
  shows "ends (PubIndexes e ixs es mt md, s)"
proof (induction ixs arbitrary: s)
  case Nil
  show ?case by (rule ends_step[OF _ assms]) (simp add: thr_step_def)
next
  case (Cons ix ixs)
  then show ?case
    by (cases "map_of (subtoClient s) ix") (rule ends_by; auto intro: ends_PubClients simp: thr_step_def)+
qed

lemma ends_PubNext: "ends (PubNext es mt md, s)"
proof (induction es arbitrary: s)
  case Nil
  show ?case by (rule ends_by) (auto simp: thr_step_def)
next
  case (Cons e es)
  then show ?case
    by (cases "map_of (getIndexMap s) e") (rule ends_by; auto intro: ends_PubIndexes simp: thr_step_def)+
qed

lemma ends_SubCall: "ends (SubCall cl na evs mt meta, s)"
proof (cases evs)
  case (Cons ev evs')
  then show ?thesis
    by (cases "ParseEvent ev") (rule ends_by; auto intro: ends_SubIndex simp: thr_step_def Let_def)+
qed (rule ends_by; auto simp: thr_step_def Let_def)

lemma alone_outcome:
  assumes "ends (t, s)"
  shows "runs_alone (t, s) (Finished, s') \<longleftrightarrow> outcome t s = Inr s'"
    and "(\<exists>s'. runs_alone (t, s) (Failed err, s')) \<longleftrightarrow> outcome t s = Inl err"
proof -
  have fin: "runs_alone (t, s) (Finished, s1) \<Longrightarrow> outcome t s = Inr s1"
    and bad: "runs_alone (t, s) (Failed e, s1) \<Longrightarrow> outcome t s = Inl e" for s1 e
    using outcome_runs[of "(t, s)"] by fastforce+
  consider s1 where "runs_alone (t, s) (Finished, s1)" | err s1 where "runs_alone (t, s) (Failed err, s1)"
    using assms by (auto simp: ends_def)
  then show "runs_alone (t, s) (Finished, s') \<longleftrightarrow> outcome t s = Inr s'"
    and "(\<exists>s'. runs_alone (t, s) (Failed err, s')) \<longleftrightarrow> outcome t s = Inl err"
    by (cases; metis fin bad sum.inject sum.distinct(1))+
qed

text \<open>A thread that runs alone does what the operation does: the thread of a publication, or of a subscription,
  finishes with a registry exactly when \<open>pubsubPublish\<close>, or \<open>pubsubSubscribe\<close>, returns it, and it throws or has
  undefined behaviour exactly when the operation does.\<close>

theorem threads_alone:
  "(runs_alone (PubNext evs mt metadata, s) (Finished, s') \<longleftrightarrow> pubsubPublish evs mt metadata s = Inr s')
   \<and> ((\<exists>s'. runs_alone (PubNext evs mt metadata, s) (Failed err, s')) \<longleftrightarrow> pubsubPublish evs mt metadata s = Inl err)
   \<and> (runs_alone (SubCall cl notifyAddr evs mt metadata, s) (Finished, s') \<longleftrightarrow>
        pubsubSubscribe evs cl notifyAddr mt metadata s = Inr s')
   \<and> ((\<exists>s'. runs_alone (SubCall cl notifyAddr evs mt metadata, s) (Failed err, s')) \<longleftrightarrow>
        pubsubSubscribe evs cl notifyAddr mt metadata s = Inl err)"
  by (simp add: alone_outcome[OF ends_PubNext] alone_outcome[OF ends_SubCall] pubsubPublish_def)

section \<open>No bad pointer without removals\<close>

text \<open>Results other than a null or dangling pointer.\<close>

definition ptr_ok :: "cpp_error \<Rightarrow> bool" where
  "ptr_ok err \<longleftrightarrow> err \<noteq> Undefined Null_pointer \<and> err \<noteq> Undefined Dangling_pointer"

definition no_ptr :: "'a res \<Rightarrow> bool" where
  "no_ptr m \<longleftrightarrow> (\<forall>err. m = Inl err \<longrightarrow> ptr_ok err)"

lemma no_ptr_Inr [simp, intro]: "no_ptr (Inr x)"
  by (simp add: no_ptr_def)

lemma no_ptr_bindR [intro!]: "no_ptr m \<Longrightarrow> (\<And>x. m = Inr x \<Longrightarrow> no_ptr (f x)) \<Longrightarrow> no_ptr (bindR m f)"
  by (cases m) (auto simp: no_ptr_def)

lemma no_ptr_string [simp, intro]:
  "no_ptr (str_substr s p n)" "no_ptr (str_erase s q n)" "no_ptr (str_erase_from s q)" "no_ptr (stoi s)"
  by (auto simp: no_ptr_def ptr_ok_def str_substr_def str_erase_def str_erase_from_def stoi_def Let_def split: if_splits)

lemma no_ptr_vec_at [simp, intro]: "no_ptr (vec_at v i)"
  by (auto simp: no_ptr_def ptr_ok_def vec_at_def split: if_splits)

lemma no_ptr_chk_int [simp, intro]: "no_ptr (chk_int n)"
  by (auto simp: no_ptr_def ptr_ok_def chk_int_def split: if_splits)

lemma no_ptr_strSplit [simp, intro]: "no_ptr (strSplit s)"
  by (induction s rule: strSplit.induct) (subst strSplit.simps, auto)

lemma no_ptr_meta [simp, intro]:
  "no_ptr (getGridFromRawMeta m)" "no_ptr (cut_brackets m)" "no_ptr (getbbxfromGridMeta m)"
proof -
  show "no_ptr (getGridFromRawMeta m)" by (auto simp: getGridFromRawMeta_def Let_def)
  have cut: "no_ptr (cut_brackets m)" for m by (auto simp: cut_brackets_def)
  show "no_ptr (cut_brackets m)" by (rule cut)
  show "no_ptr (getbbxfromGridMeta m)" using cut by (auto simp: getbbxfromGridMeta_def Let_def)
qed

lemma no_ptr_grid [simp, intro]: "no_ptr (checkIfTriggureMetaGrid w m)"
  by (auto simp: checkIfTriggureMetaGrid_def Let_def split: prod.split)

lemma no_ptr_ParseEvent [simp, intro]: "no_ptr (ParseEvent ev)"
  by (auto simp: ParseEvent_def Let_def)

lemma no_ptr_deref: "heap s a \<noteq> None \<Longrightarrow> no_ptr (deref s a)"
  by (auto simp: deref_def)

lemma pub_count_ok: "heap s a \<noteq> None \<Longrightarrow> no_ptr (pub_count mt md e a s)"
  using no_ptr_deref by (auto simp: pub_count_def Let_def)

text \<open>The registry only grows.\<close>

definition grows :: "pubsub \<Rightarrow> pubsub \<Rightarrow> bool" where
  "grows s s' \<longleftrightarrow> dom (heap s) \<subseteq> dom (heap s') \<and> (\<forall>ix. dom (lookup2 s ix) \<subseteq> dom (lookup2 s' ix))"

definition registry_ok :: "pubsub \<Rightarrow> bool" where
  "registry_ok s \<longleftrightarrow> (\<forall>ix m. map_of (subtoClient s) ix = Some m \<longrightarrow> wf_map m \<and> ran (map_of m) \<subseteq> dom (heap s))"

definition entries_ok :: "string \<Rightarrow> (string \<times> addr) list \<Rightarrow> pubsub \<Rightarrow> bool" where
  "entries_ok ix ps s \<longleftrightarrow> fst ` set ps \<subseteq> dom (lookup2 s ix) \<and> snd ` set ps \<subseteq> dom (heap s)"

primrec thr_ok :: "thr \<Rightarrow> pubsub \<Rightarrow> bool" where
  "thr_ok (SubCall cl na evs mt meta) s = True"
| "thr_ok (SubIndex cl ix evs a) s = (a \<in> dom (heap s))"
| "thr_ok (Unsub ix cl) s = False"
| "thr_ok (PubNext es mt md) s = True"
| "thr_ok (PubIndexes e ixs es mt md) s = True"
| "thr_ok (PubClients e ix ps ixs es mt md) s = entries_ok ix ps s"
| "thr_ok (PubMark e ix cl ps ixs es mt md) s = (cl \<in> dom (lookup2 s ix) \<and> entries_ok ix ps s)"
| "thr_ok Finished s = True"
| "thr_ok (Failed err) s = ptr_ok err"

lemma grows_refl [simp]: "grows s s"
  by (simp add: grows_def)

lemma entries_ok_grows: "entries_ok ix ps s \<Longrightarrow> grows s s' \<Longrightarrow> entries_ok ix ps s'"
  unfolding entries_ok_def grows_def by blast

lemma growsD: "grows s s' \<Longrightarrow> heap s a = Some w \<Longrightarrow> \<exists>w'. heap s' a = Some w'"
    "grows s s' \<Longrightarrow> lookup2 s ix cl = Some a \<Longrightarrow> \<exists>a'. lookup2 s' ix cl = Some a'"
  unfolding grows_def by blast+

lemma thr_ok_grows: "thr_ok t s \<Longrightarrow> grows s s' \<Longrightarrow> thr_ok t s'"
  by (cases t) (auto dest: growsD entries_ok_grows)

lemma grows_poke [simp]: "grows s (poke a w s)"
  by (auto simp: grows_def poke_def lookup2_def)

lemma grows_alloc [simp]: "grows s (alloc w s)"
  by (auto simp: grows_def alloc_def lookup2_def)

lemma grows_index [simp]: "grows s (s'\<lparr>getIndexMap := g\<rparr>) = grows s s'"
  by (simp add: grows_def lookup2_def[abs_def])

lemma grows_file: "grows s (s\<lparr>subtoClient := map_put ix (map_put cl a (map_at [] ix (subtoClient s))) (subtoClient s)\<rparr>)"
  by (auto simp: grows_def lookup2_def map_at_def split: option.splits if_splits)

lemma registry_ok_grows:
  "registry_ok s \<Longrightarrow> grows s s' \<Longrightarrow> subtoClient s' = subtoClient s \<Longrightarrow> registry_ok s'"
  unfolding registry_ok_def grows_def by (metis subset_trans)

lemma registry_ok_file:
  assumes "registry_ok s" "a \<in> dom (heap s)"
  shows "registry_ok (s\<lparr>subtoClient := map_put ix (map_put cl a (map_at [] ix (subtoClient s))) (subtoClient s)\<rparr>)"
  using assms by (fastforce simp: registry_ok_def map_at_def ran_def split: option.splits if_splits)

lemma entries_ok_inner:
  assumes "registry_ok s" "map_of (subtoClient s) ix = Some m"
  shows "entries_ok ix m s"
proof -
  have wf: "wf_map m" and live: "ran (map_of m) \<subseteq> dom (heap s)" using assms by (auto simp: registry_ok_def)
  have "map_of m cl = Some a" if "(cl, a) \<in> set m" for cl a
    using wf_map_distinct[OF wf] that by (simp add: keys_def)
  then show ?thesis using live assms(2) by (fastforce simp: entries_ok_def lookup2_def ran_def)
qed


lemma pub_mark_returns:
  assumes "registry_ok s" "lookup2 s ix cl = Some b"
  obtains v where "heap s b = Some v" "pub_mark md ix cl s = Inr (poke b (v\<lparr>pubMetadata := md, iftrigure := True\<rparr>) s)"
proof -
  from assms(2) obtain m where m: "map_of (subtoClient s) ix = Some m" "map_of m cl = Some b"
    by (auto simp: lookup2_def split: option.splits)
  with assms(1) have "b \<in> dom (heap s)" by (fastforce simp: registry_ok_def ran_def)
  with m that show thesis by (auto simp: pub_mark_def deref_def map_at_def)
qed

lemma pub_count_poke:
  assumes "pub_count mt md e a s = Inr (b, s')"
  shows "grows s s'" "subtoClient s' = subtoClient s"
  using assms by (auto simp: pub_count_def bindR_eq_Inr Let_def split: if_splits)

text \<open>A step keeps the registry sound, lets it grow, and leaves its thread sound.\<close>

definition sound_step :: "pubsub \<Rightarrow> thr \<times> pubsub \<Rightarrow> bool" where
  "sound_step s c \<longleftrightarrow> grows s (snd c) \<and> registry_ok (snd c) \<and> thr_ok (fst c) (snd c)"

lemma sound_same: "registry_ok s \<Longrightarrow> grows s s' \<Longrightarrow> subtoClient s' = subtoClient s \<Longrightarrow> thr_ok t s' \<Longrightarrow> sound_step s (t, s')"
  by (simp add: sound_step_def registry_ok_grows)

lemma alloc_fields [simp]: "subtoClient (alloc w s) = subtoClient s" "heap (alloc w s) (nextAddr s) = Some w"
  by (simp_all add: alloc_def)

lemma sound_SubCall:
  assumes "registry_ok s" "thr_step (SubCall cl na evs mt meta) s = Some (t, s')"
  shows "sound_step s (t, s')"
proof (cases evs)
  case (Cons ev evs')
  with assms(2) no_ptr_ParseEvent[of ev] show ?thesis
    by (intro sound_same[OF assms(1)]) (auto simp: thr_step_def Let_def no_ptr_def split: sum.splits)
qed (use assms in \<open>auto simp: thr_step_def Let_def intro!: sound_same\<close>)

lemma sound_SubIndex:
  assumes ok: "registry_ok s" "heap s a = Some w" and "thr_step (SubIndex cl ix evs a) s = Some (t, s')"
  shows "sound_step s (t, s')"
proof (cases evs)
  case Nil
  with assms(3) registry_ok_file[OF ok(1), of a ix cl] grows_file[of s ix cl a] ok(2) show ?thesis
    by (auto simp: thr_step_def sound_step_def)
next
  case (Cons ev evs')
  have "subtoClient s' = subtoClient s" "grows s s'" "thr_ok t s'"
    using assms(3) Cons ok(2) no_ptr_ParseEvent[of ev]
    by (auto simp: thr_step_def deref_def no_ptr_def split: sum.splits)
  then show ?thesis using sound_same ok(1) by blast
qed

lemma sound_PubClients:
  assumes ok: "registry_ok s" "entries_ok ix ps s" and "thr_step (PubClients e ix ps ixs es mt md) s = Some (t, s')"
  shows "sound_step s (t, s')"
proof (cases ps)
  case (Cons p ps')
  obtain cl a where p: "p = (cl, a)" by (cases p)
  from ok(2) Cons p obtain b w where live: "lookup2 s ix cl = Some b" "heap s a = Some w" and rest: "entries_ok ix ps' s"
    by (auto simp: entries_ok_def)
  show ?thesis
  proof (cases "pub_count mt md e a s")
    case (Inl err)
    then have "ptr_ok err" using pub_count_ok[of s a mt md e] live by (simp add: no_ptr_def)
    with Inl assms(3) Cons p ok show ?thesis by (auto simp: thr_step_def intro!: sound_same)
  next
    case (Inr r)
    obtain b' s1 where r: "r = (b', s1)" by (cases r)
    note keep = pub_count_poke[OF Inr[unfolded r]]
    with live rest have "thr_ok (PubMark e ix cl ps' ixs es mt md) s1"
      by (auto dest: growsD entries_ok_grows)
    with Inr r assms(3) Cons p ok keep show ?thesis
      by (auto simp: thr_step_def intro!: sound_same split: if_splits)
  qed
qed (use assms in \<open>auto simp: thr_step_def intro!: sound_same\<close>)

lemma sound_PubMark:
  assumes ok: "registry_ok s" "thr_ok (PubMark e ix cl ps ixs es mt md) s"
    and "thr_step (PubMark e ix cl ps ixs es mt md) s = Some (t, s')"
  shows "sound_step s (t, s')"
proof -
  from ok(2) obtain b where "lookup2 s ix cl = Some b" by auto
  from pub_mark_returns[OF ok(1) this, of md] obtain v where
    "pub_mark md ix cl s = Inr (poke b (v\<lparr>pubMetadata := md, iftrigure := True\<rparr>) s)" .
  with assms(3) ok show ?thesis
    by (auto simp: thr_step_def intro!: sound_same intro: entries_ok_grows[OF _ grows_poke])
qed

lemma sound_thr_step:
  assumes "registry_ok s" "thr_ok t s" "thr_step t s = Some (t', s')"
  shows "sound_step s (t', s')"
proof (cases t)
  case (PubNext es mt md)
  with assms show ?thesis
    by (cases es) (auto simp: thr_step_def intro!: sound_same split: option.splits)
next
  case (PubIndexes e ixs es mt md)
  with assms show ?thesis
    by (cases ixs) (auto simp: thr_step_def intro!: sound_same entries_ok_inner split: option.splits)
qed (use assms sound_SubCall sound_SubIndex sound_PubClients sound_PubMark in \<open>auto simp: thr_step_def[of Finished]
  thr_step_def[of "Failed _"]\<close>)

definition sys_inv :: "registry_sys \<Rightarrow> bool" where
  "sys_inv c \<longleftrightarrow> registry_ok (shared c) \<and> (\<forall>t \<in> set (thrs c). thr_ok t (shared c))"

definition sys_start :: "registry_sys \<Rightarrow> bool" where
  "sys_start c \<longleftrightarrow> c = \<lparr>shared = pubsub_start, thrs = []\<rparr>"

lemma sys_inv_step: "sys_inv c \<Longrightarrow> sys_step pubsub_call c c' \<Longrightarrow> sys_inv c'"
proof (erule sys_stepE)
  fix t assume "sys_inv c" "c' = c\<lparr>thrs := thrs c @ [t]\<rparr>" "pubsub_call t"
  then show "sys_inv c'" by (cases t) (auto simp: sys_inv_def pubsub_call_def)
next
  fix i t s assume inv: "sys_inv c" and c': "c' = \<lparr>shared = s, thrs = (thrs c)[i := t]\<rparr>"
    and i: "i < length (thrs c)" and step: "thr_step (thrs c ! i) (shared c) = Some (t, s)"
  from inv i have "thr_ok (thrs c ! i) (shared c)" "registry_ok (shared c)" by (auto simp: sys_inv_def)
  with step have "sound_step (shared c) (t, s)" using sound_thr_step by blast
  with inv c' show "sys_inv c'"
    by (auto simp: sys_inv_def sound_step_def dest!: set_update_subset_insert[THEN subsetD] intro: thr_ok_grows)
qed

interpretation threads_sys: inv_system sys_start "sys_step pubsub_call" sys_inv
  by unfold_locales (auto simp: sys_inv_step, simp add: sys_start_def sys_inv_def registry_ok_def pubsub_start_def)


section \<open>Schedules\<close>

text \<open>The system after the threads named by a schedule have taken a step each, in that order.\<close>

fun run_schedule :: "nat list \<Rightarrow> registry_sys \<Rightarrow> registry_sys option" where
  "run_schedule [] c = Some c"
| "run_schedule (i # sched) c =
     (if i < length (thrs c)
      then (case thr_step (thrs c ! i) (shared c) of
              None \<Rightarrow> None
            | Some (t, s) \<Rightarrow> run_schedule sched \<lparr>shared = s, thrs = (thrs c)[i := t]\<rparr>)
      else None)"

lemma reach_calls:
  assumes "list_all call ts"
  shows "reach sys_start (sys_step call) \<lparr>shared = pubsub_start, thrs = ts\<rparr>"
  using assms
proof (induction ts rule: rev_induct)
  case Nil
  show ?case by (rule reach_ini) (simp add: sys_start_def)
next
  case (snoc t ts)
  then have "reach sys_start (sys_step call) \<lparr>shared = pubsub_start, thrs = ts\<rparr>" by simp
  moreover from snoc.prems have "call t" by simp
  then have "sys_step call \<lparr>shared = pubsub_start, thrs = ts\<rparr> \<lparr>shared = pubsub_start, thrs = ts @ [t]\<rparr>"
    using sys_call[of call t "\<lparr>shared = pubsub_start, thrs = ts\<rparr>"] by simp
  ultimately show ?case by (rule reach_step)
qed

lemma reach_schedule:
  "run_schedule sched c = Some c' \<Longrightarrow> reach ini (sys_step call) c \<Longrightarrow> reach ini (sys_step call) c'"
proof (induction sched arbitrary: c)
  case (Cons i sched)
  from Cons.prems(1) obtain t s where step: "i < length (thrs c)" "thr_step (thrs c ! i) (shared c) = Some (t, s)"
    and run: "run_schedule sched \<lparr>shared = s, thrs = (thrs c)[i := t]\<rparr> = Some c'"
    by (auto split: if_splits option.splits)
  from sys_move[OF step] Cons.prems(2) show ?case by (intro Cons.IH[OF run]) (rule reach_step)
qed simp

lemma reach_run:
  assumes "list_all call ts" and "case run_schedule sched \<lparr>shared = pubsub_start, thrs = ts\<rparr> of None \<Rightarrow> False | Some c \<Rightarrow> P c"
  shows "\<exists>c. reach sys_start (sys_step call) c \<and> P c"
  using assms reach_schedule[OF _ reach_calls[OF assms(1)]] by (auto split: option.splits)

text \<open>C9: subscriptions and publications may interleave in any way: in no reachable system has a thread followed a
  null or dangling pointer. With removals this is false: a removal between the test of a subscriber and the
  second look-up of its entry makes the publication follow a null pointer.\<close>

theorem threads_memory_safe:
  "(\<forall>c err. reach sys_start (sys_step pubsub_call) c \<longrightarrow> Failed err \<in> set (thrs c) \<longrightarrow>
      err \<noteq> Undefined Null_pointer \<and> err \<noteq> Undefined Dangling_pointer)
   \<and> (\<exists>c. reach sys_start (sys_step any_call) c \<and> Failed (Undefined Null_pointer) \<in> set (thrs c))"
proof
  show "\<forall>c err. reach sys_start (sys_step pubsub_call) c \<longrightarrow> Failed err \<in> set (thrs c) \<longrightarrow>
      err \<noteq> Undefined Null_pointer \<and> err \<noteq> Undefined Dangling_pointer"
    using threads_sys.inv_reach by (fastforce simp: sys_inv_def ptr_ok_def)
  show "\<exists>c. reach sys_start (sys_step any_call) c \<and> Failed (Undefined Null_pointer) \<in> set (thrs c)"
    by (rule reach_run[where ts = "[SubCall ''c'' ''h'' [''a''] ''NAME'' [], PubNext [''a''] ''NAME'' [], Unsub ''a'' ''c'']"
          and sched = "[0, 0, 0, 1, 1, 1, 2, 1]"]) code_simp+
qed


theorem threads_memory_safe_witness:
  "\<exists>c. reach sys_start (sys_step pubsub_call) c \<and> Failed Invalid_argument \<in> set (thrs c) \<and> Finished \<in> set (thrs c)
     \<and> Invalid_argument \<noteq> Undefined Null_pointer"
proof -
  have "\<exists>c. reach sys_start (sys_step pubsub_call) c \<and> Failed Invalid_argument \<in> set (thrs c) \<and> Finished \<in> set (thrs c)"
    by (rule reach_run[where ts = "[SubCall ''c'' ''h'' [''a'', ''b:x''] ''NAME'' [], PubNext [''a''] ''NAME'' []]"
          and sched = "[0, 0, 1, 1, 0]"]) code_simp+
  then obtain c where c: "reach sys_start (sys_step pubsub_call) c" "Failed Invalid_argument \<in> set (thrs c)"
    "Finished \<in> set (thrs c)" by blast
  from conjunct1[OF threads_memory_safe, rule_format, OF c(1,2)] c show ?thesis by blast
qed

section \<open>A publication that meets an unfinished subscription\<close>

lemma runs_dropped:
  assumes "map_of (getIndexMap s) e = Some (ix # ixs)" "map_of (subtoClient s) ix = None"
  shows "runs_alone (PubNext (e # es) mt md, s) (Finished, s)"
proof (rule runs_step)
  show "thr_step (PubNext (e # es) mt md) s = Some (PubIndexes e (ix # ixs) es mt md, s)"
    using assms(1) by (simp add: thr_step_def)
  show "runs_alone (PubIndexes e (ix # ixs) es mt md, s) (Finished, s)"
    by (rule runs_step[OF _ runs_refl]) (simp add: thr_step_def assms(2))
qed

text \<open>The threads of the example: \<open>d\<close> subscribes to \<open>b\<close>, \<open>c\<close> to \<open>a\<close>, and both events are published.\<close>

definition example_calls :: "thr list" where
  "example_calls = [SubCall ''d'' ''h'' [''b''] ''NAME'' [], SubCall ''c'' ''h'' [''a''] ''NAME'' [],
     PubNext [''a'', ''b''] ''NAME'' []]"

definition missed :: "registry_sys \<Rightarrow> bool" where
  "missed c \<longleftrightarrow> thrs c = [Finished, Finished, Finished]
     \<and> map_option publishedEvent (view (shared c) (''b'', ''d'')) = Some []"

text \<open>C36: an index entry of a subscription is visible before the subscription is filed. A publication that runs in
  between ends at once and drops its remaining events too. So there is a run in which a client has subscribed
  to an event before it is published, every thread finishes, and the client has not received the event; in
  the order of the requests it receives it.\<close>

theorem publication_dropped:
  assumes "map_of (getIndexMap s) e = Some (ix # ixs)" and "map_of (subtoClient s) ix = None"
  shows "runs_alone (PubNext (e # es) mt metadata, s) (Finished, s)
    \<and> (\<exists>c. run_schedule [0, 0, 0, 1, 1, 2, 2, 1] \<lparr>shared = pubsub_start, thrs = example_calls\<rparr> = Some c \<and> missed c)
    \<and> (\<exists>c. run_schedule ([0, 0, 0, 1, 1, 1] @ replicate 13 2) \<lparr>shared = pubsub_start, thrs = example_calls\<rparr> = Some c
         \<and> thrs c = [Finished, Finished, Finished]
         \<and> map_option publishedEvent (view (shared c) (''b'', ''d'')) = Some [(''b'', 1)])"
proof (intro conjI)
  show "runs_alone (PubNext (e # es) mt metadata, s) (Finished, s)" using assms by (rule runs_dropped)
  have run: "case m of None \<Rightarrow> False | Some c \<Rightarrow> P c \<Longrightarrow> \<exists>c. m = Some c \<and> P c" for m and P :: "registry_sys \<Rightarrow> bool"
    by (cases m) auto
  show "\<exists>c. run_schedule [0, 0, 0, 1, 1, 2, 2, 1] \<lparr>shared = pubsub_start, thrs = example_calls\<rparr> = Some c \<and> missed c"
    by (rule run) code_simp
  show "\<exists>c. run_schedule ([0, 0, 0, 1, 1, 1] @ replicate 13 2) \<lparr>shared = pubsub_start, thrs = example_calls\<rparr> = Some c
         \<and> thrs c = [Finished, Finished, Finished]
         \<and> map_option publishedEvent (view (shared c) (''b'', ''d'')) = Some [(''b'', 1)]"
    by (rule run) code_simp
qed

theorem publication_dropped_witness:
  "runs_alone (PubNext [''a'', ''b''] ''NAME'' [], pubsub_start\<lparr>getIndexMap := [(''a'', [''a''])]\<rparr>)
     (Finished, pubsub_start\<lparr>getIndexMap := [(''a'', [''a''])]\<rparr>)"
  by (rule conjunct1[OF publication_dropped[where ix = "''a''" and ixs = "[]"]]) (simp_all add: pubsub_start_def)

end
