(* ===== verification/PubSubCounts.thy ===== *)
theory PubSubCounts
  imports PubSubThreads
begin

text \<open>
  Publications that run concurrently, over the threads of \<open>PubSubThreads\<close>. Every delivery a thread still has to make
  is counted; a step that increments a counter takes one delivery away. So the counters at the end do not depend on
  the interleaving, only on the events published. This rests on the change of one counter being one step, which the
  source does not ensure: \<open>PubSubRaces\<close> drops that assumption.
\<close>

section \<open>Deliveries left\<close>

text \<open>The deliveries of event \<open>e\<close> a thread still makes to the wrapper \<open>a\<close>, which is filed under \<open>ix\<close>.\<close>

primrec due :: "pubsub \<Rightarrow> string \<Rightarrow> addr \<Rightarrow> string \<Rightarrow> thr \<Rightarrow> nat" where
  "due s ix a e (SubCall cl na evs mt meta) = 0"
| "due s ix a e (SubIndex cl jx evs b) = 0"
| "due s ix a e (Unsub jx cl) = 0"
| "due s ix a e (PubNext es mt md) = (if ix \<in> index_of s e then count_list es e else 0)"
| "due s ix a e (PubIndexes e' ixs es mt md) =
     (if e' = e then count_list ixs ix else 0) + (if ix \<in> index_of s e then count_list es e else 0)"
| "due s ix a e (PubClients e' jx ps ixs es mt md) =
     (if e' = e then count_list (map snd ps) a + count_list ixs ix else 0) + (if ix \<in> index_of s e then count_list es e else 0)"
| "due s ix a e (PubMark e' jx cl ps ixs es mt md) =
     (if e' = e then count_list (map snd ps) a + count_list ixs ix else 0) + (if ix \<in> index_of s e then count_list es e else 0)"
| "due s ix a e Finished = 0"
| "due s ix a e (Failed err) = 0"

text \<open>Publications by name whose entries are those of the registry.\<close>

definition entries_of :: "pubsub \<Rightarrow> string \<Rightarrow> (string \<times> addr) list \<Rightarrow> bool" where
  "entries_of s jx ps \<longleftrightarrow> (\<forall>(cl, b) \<in> set ps. lookup2 s jx cl = Some b)"

definition in_table :: "pubsub \<Rightarrow> string list \<Rightarrow> bool" where
  "in_table s ixs \<longleftrightarrow> set ixs \<subseteq> dom (map_of (subtoClient s))"

primrec publishing :: "pubsub \<Rightarrow> thr \<Rightarrow> bool" where
  "publishing s (SubCall cl na evs mt meta) = False"
| "publishing s (SubIndex cl jx evs b) = False"
| "publishing s (Unsub jx cl) = False"
| "publishing s (PubNext es mt md) = (mt = ''NAME'')"
| "publishing s (PubIndexes e ixs es mt md) = (mt = ''NAME'' \<and> in_table s ixs)"
| "publishing s (PubClients e jx ps ixs es mt md) = (mt = ''NAME'' \<and> in_table s ixs \<and> entries_of s jx ps)"
| "publishing s (PubMark e jx cl ps ixs es mt md) =
     (mt = ''NAME'' \<and> in_table s ixs \<and> entries_of s jx ps \<and> lookup2 s jx cl \<noteq> None)"
| "publishing s Finished = True"
| "publishing s (Failed err) = False"

definition count_at :: "pubsub \<Rightarrow> addr \<Rightarrow> string \<Rightarrow> int" where
  "count_at s a e = map_at 0 e (publishedEvent (the (heap s a)))"

definition same_shape :: "pubsub \<Rightarrow> pubsub \<Rightarrow> bool" where
  "same_shape s s' \<longleftrightarrow> subtoClient s' = subtoClient s \<and> getIndexMap s' = getIndexMap s \<and> dom (heap s') = dom (heap s)"

lemma same_shape_refl [simp]: "same_shape s s"
  by (simp add: same_shape_def)

lemma same_shape_poke: "same_shape s s' \<Longrightarrow> a \<in> dom (heap s) \<Longrightarrow> same_shape s (poke a w s')"
  by (auto simp: same_shape_def poke_def)

lemma same_shape_lookup2: "same_shape s s' \<Longrightarrow> lookup2 s' = lookup2 s"
  by (simp add: same_shape_def lookup2_def fun_eq_iff)

lemma live_entry: "pubsub_inv s \<Longrightarrow> same_shape s s' \<Longrightarrow> lookup2 s ix cl = Some a \<Longrightarrow> \<exists>w. heap s' a = Some w"
  using inv_live[of s ix cl a] by (auto simp: same_shape_def)

section \<open>How often an entry is listed\<close>

lemma count_distinct: "distinct xs \<Longrightarrow> count_list xs x = (if x \<in> set xs then 1 else 0)"
  by (induction xs) auto

lemma index_listed:
  assumes "pubsub_inv s" "map_of (getIndexMap s) e = Some ixs"
  shows "count_list ixs ix = (if ix \<in> index_of s e then 1 else 0)"
  using assms inv_wf_ixs[OF assms] by (simp add: count_distinct wf_set_distinct index_of_def map_at_def)

lemma inner_listed:
  assumes inv: "pubsub_inv s" and m: "map_of (subtoClient s) jx = Some m" and a: "lookup2 s ix cl = Some a"
  shows "count_list (map snd m) a = (if jx = ix then 1 else 0)"
proof -
  have entry: "lookup2 s jx c = Some b" if "(c, b) \<in> set m" for c b
    using inv_wf_inner[OF inv m] that m by (simp add: lookup2_def wf_map_entry)
  have "distinct (map snd m)"
  proof (rule distinct_map[THEN iffD2], rule conjI)
    show "distinct m" using wf_map_distinct[OF inv_wf_inner[OF inv m]] by (simp add: keys_def distinct_map)
    show "inj_on snd (set m)" using entry inv_inj[OF inv] by (intro inj_onI) (metis prod.collapse)
  qed
  moreover have "a \<in> snd ` set m \<longleftrightarrow> jx = ix"
  proof
    assume "a \<in> snd ` set m"
    then obtain c where "(c, a) \<in> set m" by auto
    then have "lookup2 s jx c = Some a" by (rule entry)
    then show "jx = ix" using inv_inj[OF inv _ a] by blast
  next
    assume "jx = ix"
    then have "map_of m cl = Some a" using a m by (simp add: lookup2_def)
    then show "a \<in> snd ` set m" by (force dest: map_of_SomeD)
  qed
  ultimately show ?thesis by (simp add: count_distinct)
qed


section \<open>One step\<close>

text \<open>A step keeps the shape, keeps its thread a publication, moves deliveries into counters, and lowers no counter.\<close>

definition delivers :: "pubsub \<Rightarrow> thr \<Rightarrow> pubsub \<Rightarrow> thr \<Rightarrow> pubsub \<Rightarrow> bool" where
  "delivers s0 t s t' s' \<longleftrightarrow> same_shape s0 s' \<and> publishing s0 t'
     \<and> (\<forall>ix cl a e. lookup2 s0 ix cl = Some a \<longrightarrow>
          count_at s' a e + int (due s0 ix a e t') = count_at s a e + int (due s0 ix a e t) \<and> count_at s a e \<le> count_at s' a e)"

text \<open>The counters are not negative, and have room for what the thread still delivers.\<close>

definition room_for :: "pubsub \<Rightarrow> thr \<Rightarrow> pubsub \<Rightarrow> bool" where
  "room_for s0 t s \<longleftrightarrow> (\<forall>ix cl a e. lookup2 s0 ix cl = Some a \<longrightarrow>
     0 \<le> count_at s a e \<and> count_at s a e + int (due s0 ix a e t) \<le> INT_MAX)"

lemma delivers_same:
  "same_shape s0 s \<Longrightarrow> publishing s0 t' \<Longrightarrow> (\<And>ix cl a e. lookup2 s0 ix cl = Some a \<Longrightarrow> due s0 ix a e t' = due s0 ix a e t)
   \<Longrightarrow> delivers s0 t s t' s"
  by (simp add: delivers_def)

lemma delivers_PubNext:
  assumes inv: "pubsub_inv s0" and shape: "same_shape s0 s" and pub: "publishing s0 (PubNext es mt md)"
    and step: "thr_step (PubNext es mt md) s = Some (t', s')"
  shows "delivers s0 (PubNext es mt md) s t' s'"
proof (cases es)
  case (Cons e es')
  have gim: "getIndexMap s = getIndexMap s0" using shape by (simp add: same_shape_def)
  show ?thesis
  proof (cases "map_of (getIndexMap s0) e")
    case None
    then have "index_of s0 e = {}" by (simp add: index_of_def map_at_def)
    with None step Cons shape pub gim show ?thesis by (auto simp: thr_step_def intro!: delivers_same)
  next
    case (Some ixs)
    then have "in_table s0 ixs" using inv_index[OF inv, of e] by (simp add: in_table_def index_of_def map_at_def)
    with Some step Cons shape pub gim show ?thesis
      by (auto simp: thr_step_def index_listed[OF inv Some] intro!: delivers_same)
  qed
qed (use step shape in \<open>auto simp: thr_step_def intro!: delivers_same\<close>)

lemma delivers_PubIndexes:
  assumes inv: "pubsub_inv s0" and shape: "same_shape s0 s" and pub: "publishing s0 (PubIndexes e ixs es mt md)"
    and step: "thr_step (PubIndexes e ixs es mt md) s = Some (t', s')"
  shows "delivers s0 (PubIndexes e ixs es mt md) s t' s'"
proof (cases ixs)
  case (Cons jx ixs')
  then obtain m where m: "map_of (subtoClient s0) jx = Some m" and rest: "in_table s0 ixs'" using pub
    by (auto simp: in_table_def)
  have "entries_of s0 jx m"
    using inv_wf_inner[OF inv m] m by (auto simp: entries_of_def lookup2_def wf_map_entry)
  moreover have "subtoClient s = subtoClient s0" using shape by (simp add: same_shape_def)
  ultimately show ?thesis using step Cons shape pub m rest
    by (auto simp: thr_step_def inner_listed[OF inv m] intro!: delivers_same)
qed (use step shape pub in \<open>auto simp: thr_step_def intro!: delivers_same\<close>)

lemma delivers_PubMark:
  assumes inv: "pubsub_inv s0" and shape: "same_shape s0 s" and pub: "publishing s0 (PubMark e jx cl ps ixs es mt md)"
    and step: "thr_step (PubMark e jx cl ps ixs es mt md) s = Some (t', s')"
  shows "delivers s0 (PubMark e jx cl ps ixs es mt md) s t' s'"
proof -
  from pub obtain b where b: "lookup2 s0 jx cl = Some b" by auto
  with live_entry[OF inv shape] obtain w where w: "heap s b = Some w" by blast
  have "map_of (map_at [] jx (subtoClient s)) cl = Some b"
    using b shape by (auto simp: lookup2_def same_shape_def map_at_def split: option.splits)
  then have "pub_mark md jx cl s = Inr (poke b (w\<lparr>pubMetadata := md, iftrigure := True\<rparr>) s)"
    using w by (simp add: pub_mark_def deref_def)
  with step have t': "t' = PubClients e jx ps ixs es mt md" "s' = poke b (w\<lparr>pubMetadata := md, iftrigure := True\<rparr>) s"
    by (simp_all add: thr_step_def)
  have "same_shape s0 s'" using same_shape_poke[OF shape] w shape t'(2) by (auto simp: same_shape_def)
  moreover have "count_at s' = count_at s" using w t'(2) by (auto simp: count_at_def poke_def fun_eq_iff)
  ultimately show ?thesis using pub t'(1) by (simp add: delivers_def)
qed


lemma pub_count_NAME:
  assumes "heap s b = Some w" "is_int32 (count_at s b e + 1)"
  obtains trig where "pub_count ''NAME'' md e b s = Inr (trig, poke b (bump e w) s)"
  using assms by (auto simp: pub_count_def deref_def count_at_def bump_def Let_def)

lemma delivers_PubClients:
  assumes inv: "pubsub_inv s0" and shape: "same_shape s0 s" and pub: "publishing s0 (PubClients e jx ps ixs es mt md)"
    and step: "thr_step (PubClients e jx ps ixs es mt md) s = Some (t', s')"
    and room: "room_for s0 (PubClients e jx ps ixs es mt md) s"
  shows "delivers s0 (PubClients e jx ps ixs es mt md) s t' s'"
proof (cases ps)
  case (Cons p ps')
  obtain cl b where p: "p = (cl, b)" by (cases p)
  from pub Cons p have b: "lookup2 s0 jx cl = Some b" and rest: "entries_of s0 jx ps'" by (auto simp: entries_of_def)
  from live_entry[OF inv shape b] obtain w where w: "heap s b = Some w" by blast
  have "0 \<le> count_at s b e \<and> count_at s b e + int (due s0 jx b e (PubClients e jx ps ixs es mt md)) \<le> INT_MAX"
    using room b unfolding room_for_def by blast
  then have "is_int32 (count_at s b e + 1)" using Cons p by (auto simp: is_int32_def INT_MIN_def)
  from pub_count_NAME[OF w this] obtain trig where "pub_count ''NAME'' md e b s = Inr (trig, poke b (bump e w) s)" .
  with step Cons p pub have t': "t' = (if trig then PubMark e jx cl ps' ixs es mt md else PubClients e jx ps' ixs es mt md)"
    and s': "s' = poke b (bump e w) s" by (auto simp: thr_step_def)
  have "same_shape s0 s'" using same_shape_poke[OF shape] w shape s' by (auto simp: same_shape_def)
  moreover have "publishing s0 t'" using pub rest b t' by simp
  moreover have "count_at s' a e' = count_at s a e' + (if a = b \<and> e' = e then 1 else 0)" for a e'
    using w by (auto simp: s' count_at_def poke_def bump_def map_at_def)
  moreover have "due s0 ix a e' (PubClients e jx ps ixs es mt md) = due s0 ix a e' t' + (if a = b \<and> e' = e then 1 else 0)"
    for ix a e' using Cons p t' by auto
  ultimately show ?thesis by (simp add: delivers_def)
qed (use step shape pub in \<open>auto simp: thr_step_def intro!: delivers_same\<close>)

lemma publishing_step:
  assumes "pubsub_inv s0" "same_shape s0 s" "publishing s0 t" "room_for s0 t s" "thr_step t s = Some (t', s')"
  shows "delivers s0 t s t' s'"
proof (cases t)
  case Finished
  with assms(5) show ?thesis by (simp add: thr_step_def)
qed (use assms delivers_PubNext delivers_PubIndexes delivers_PubClients delivers_PubMark in auto)

section \<open>Any interleaving\<close>

definition all_due :: "pubsub \<Rightarrow> string \<Rightarrow> addr \<Rightarrow> string \<Rightarrow> thr list \<Rightarrow> nat" where
  "all_due s ix a e ts = sum_list (map (due s ix a e) ts)"

lemma all_due_update: "i < length ts \<Longrightarrow>
   int (all_due s ix a e (ts[i := t])) = int (all_due s ix a e ts) - int (due s ix a e (ts ! i)) + int (due s ix a e t)"
  by (induction ts arbitrary: i) (auto simp: all_due_def split: nat.split)

lemma due_le_all: "i < length ts \<Longrightarrow> due s ix a e (ts ! i) \<le> all_due s ix a e ts"
  unfolding all_due_def by (auto intro: member_le_sum_list)

text \<open>The invariant: counter and deliveries left add up to the same number in every state.\<close>

definition conserved :: "pubsub \<Rightarrow> thr list \<Rightarrow> registry_sys \<Rightarrow> bool" where
  "conserved s0 ts c \<longleftrightarrow> same_shape s0 (shared c) \<and> list_all (publishing s0) (thrs c)
     \<and> (\<forall>ix cl a e. lookup2 s0 ix cl = Some a \<longrightarrow> 0 \<le> count_at (shared c) a e
          \<and> count_at (shared c) a e + int (all_due s0 ix a e (thrs c)) = count_at s0 a e + int (all_due s0 ix a e ts))"

definition startable :: "pubsub \<Rightarrow> thr list \<Rightarrow> bool" where
  "startable s0 ts \<longleftrightarrow> pubsub_inv s0 \<and> list_all (publishing s0) ts
     \<and> (\<forall>ix cl a e. lookup2 s0 ix cl = Some a \<longrightarrow> 0 \<le> count_at s0 a e \<and> count_at s0 a e + int (all_due s0 ix a e ts) \<le> INT_MAX)"

lemma conserved_step:
  assumes st: "startable s0 ts" and inv: "conserved s0 ts c" and "sys_step (\<lambda>_. False) c c'"
  shows "conserved s0 ts c'"
  using assms(3)
proof (rule sys_stepE)
  fix i t s assume c': "c' = \<lparr>shared = s, thrs = (thrs c)[i := t]\<rparr>"
    and i: "i < length (thrs c)" and step: "thr_step (thrs c ! i) (shared c) = Some (t, s)"
  have shape: "same_shape s0 (shared c)" and pub: "publishing s0 (thrs c ! i)" and inv0: "pubsub_inv s0"
    using inv st i by (auto simp: conserved_def startable_def list_all_length)
  have "room_for s0 (thrs c ! i) (shared c)" unfolding room_for_def
  proof (intro allI impI)
    fix ix cl a e assume a: "lookup2 s0 ix cl = Some a"
    have "count_at (shared c) a e + int (all_due s0 ix a e (thrs c)) \<le> INT_MAX" "0 \<le> count_at (shared c) a e"
      using st inv a unfolding startable_def conserved_def by fastforce+
    with due_le_all[OF i, of s0 ix a e]
    show "0 \<le> count_at (shared c) a e \<and> count_at (shared c) a e + int (due s0 ix a e (thrs c ! i)) \<le> INT_MAX" by linarith
  qed
  from publishing_step[OF inv0 shape pub this step] have d: "delivers s0 (thrs c ! i) (shared c) t s" .
  have "0 \<le> count_at s a e \<and> count_at s a e + int (all_due s0 ix a e ((thrs c)[i := t])) = count_at s0 a e + int (all_due s0 ix a e ts)"
    if a: "lookup2 s0 ix cl = Some a" for ix cl a e
  proof -
    have "count_at s a e + int (due s0 ix a e t) = count_at (shared c) a e + int (due s0 ix a e (thrs c ! i))"
      "count_at (shared c) a e \<le> count_at s a e" using d a unfolding delivers_def by blast+
    moreover have "0 \<le> count_at (shared c) a e"
      "count_at (shared c) a e + int (all_due s0 ix a e (thrs c)) = count_at s0 a e + int (all_due s0 ix a e ts)"
      using inv a unfolding conserved_def by blast+
    ultimately show ?thesis unfolding all_due_update[OF i] by linarith
  qed
  moreover have "list_all (publishing s0) ((thrs c)[i := t])"
    using inv d i by (auto simp: conserved_def delivers_def list_all_length nth_list_update)
  ultimately show "conserved s0 ts c'" using d by (simp add: conserved_def c' delivers_def)
qed simp

interpretation publications: inv_system "\<lambda>c. c = \<lparr>shared = s0, thrs = ts\<rparr>" "sys_step (\<lambda>_. False)"
    "\<lambda>c. startable s0 ts \<longrightarrow> conserved s0 ts c" for s0 ts
  by unfold_locales (auto simp: conserved_step, simp add: conserved_def startable_def)


section \<open>Property\<close>

definition publishers :: "(string list \<times> string) list \<Rightarrow> thr list" where
  "publishers pubs = map (\<lambda>(es, md). PubNext es ''NAME'' md) pubs"

lemma publishers_due:
  "all_due s ix a e (publishers pubs) = (if ix \<in> index_of s e then count_list (concat (map fst pubs)) e else 0)"
  by (induction pubs) (auto simp: all_due_def publishers_def)

lemma publishers_publishing: "list_all (publishing s) (publishers pubs)"
  by (auto simp: publishers_def list_all_iff)

lemma finished_due: "set ts \<subseteq> {Finished} \<Longrightarrow> all_due s ix a e ts = 0"
  by (induction ts) (auto simp: all_due_def)

text \<open>Were every increment atomic, concurrent publications would lose nothing. However the threads of any number of
  publications by name interleave at the steps of \<open>PubSubThreads\<close>, over a sound registry with room in its counters, no thread fails, the subscribers stay filed, and when all
  threads have finished the counter of every subscriber for every event has grown by the number of times the
  event was published, if the subscriber's index event is indexed for it, and not at all otherwise.\<close>

theorem concurrent_publications:
  assumes "pubsub_inv s0"
    and "\<forall>ix cl a e. lookup2 s0 ix cl = Some a \<longrightarrow>
      0 \<le> count_at s0 a e \<and> count_at s0 a e + int (count_list (concat (map fst pubs)) e) \<le> INT_MAX"
    and "reach (\<lambda>c. c = \<lparr>shared = s0, thrs = publishers pubs\<rparr>) (sys_step (\<lambda>_. False)) c"
  shows "(\<forall>err. Failed err \<notin> set (thrs c))
    \<and> (set (thrs c) \<subseteq> {Finished} \<longrightarrow> (\<forall>ix cl a e. lookup2 s0 ix cl = Some a \<longrightarrow>
         lookup2 (shared c) ix cl = Some a
       \<and> count_at (shared c) a e = count_at s0 a e
           + (if ix \<in> index_of s0 e then int (count_list (concat (map fst pubs)) e) else 0)))"
proof -
  have "startable s0 (publishers pubs)"
    unfolding startable_def
  proof (intro conjI allI impI)
    fix ix cl a e assume a: "lookup2 s0 ix cl = Some a"
    from assms(2)[rule_format, OF a, of e] show "0 \<le> count_at s0 a e"
      "count_at s0 a e + int (all_due s0 ix a e (publishers pubs)) \<le> INT_MAX" by (auto simp: publishers_due)
  qed (simp_all add: assms(1) publishers_publishing)
  then have cons: "conserved s0 (publishers pubs) c" using publications.inv_reach[OF assms(3)] by blast
  then have "\<forall>err. Failed err \<notin> set (thrs c)" by (auto simp: conserved_def list_all_iff)
  moreover have "lookup2 (shared c) = lookup2 s0" using cons same_shape_lookup2 by (auto simp: conserved_def)
  moreover have "count_at (shared c) a e = count_at s0 a e
      + (if ix \<in> index_of s0 e then int (count_list (concat (map fst pubs)) e) else 0)"
    if "set (thrs c) \<subseteq> {Finished}" "lookup2 s0 ix cl = Some a" for ix cl a e
  proof -
    from cons that(2) have "count_at (shared c) a e + int (all_due s0 ix a e (thrs c)) =
        count_at s0 a e + int (all_due s0 ix a e (publishers pubs))" unfolding conserved_def by blast
    then show ?thesis by (simp add: finished_due[OF that(1)] publishers_due)
  qed
  ultimately show ?thesis by simp
qed

text \<open>A subscriber that waits for two publications, and two that interleave step by step.\<close>

definition two_pubs :: "(string list \<times> string) list" where
  "two_pubs = [([''a''], []), ([''a''], [])]"

definition one_sub :: pubsub where
  "one_sub = enroll ''c'' ''a'' [(''a'', 2)] (subscribed ''c'' ''h'' [(''a'', 2)] ''NAME'' []) pubsub_start"

lemma one_sub_fields:
  "pubsub_inv one_sub" "lookup2 one_sub ix cl = (if ix = ''a'' \<and> cl = ''c'' then Some 0 else None)"
  "count_at one_sub 0 e = 0" "''a'' \<in> index_of one_sub ''a''"
proof -
  show "pubsub_inv one_sub" unfolding one_sub_def
    by (rule enroll_inv[OF pubsub_inv_start _ subscribed_wf]) (simp add: subscribed_def, simp only: subscribed_dom order_refl)
  show "lookup2 one_sub ix cl = (if ix = ''a'' \<and> cl = ''c'' then Some 0 else None)"
    unfolding one_sub_def enroll_lookup2 by (simp add: lookup2_def pubsub_start_def)
  show "count_at one_sub 0 e = 0"
    by (simp add: one_sub_def count_at_def enroll_heap pubsub_start_def subscribed_def map_at_def)
  show "''a'' \<in> index_of one_sub ''a''" unfolding one_sub_def enroll_index by simp
qed

theorem concurrent_publications_witness:
  "\<exists>c. reach (\<lambda>c. c = \<lparr>shared = one_sub, thrs = publishers two_pubs\<rparr>) (sys_step (\<lambda>_. False)) c
     \<and> thrs c = [Finished, Finished] \<and> count_at (shared c) 0 ''a'' = 2"
proof -
  let ?c0 = "\<lparr>shared = one_sub, thrs = publishers two_pubs\<rparr>"
  have "case run_schedule [0, 1, 0, 1, 0, 1, 0, 1, 0, 1, 0, 1, 1] ?c0 of None \<Rightarrow> False | Some c \<Rightarrow> thrs c = [Finished, Finished]"
    by code_simp
  then obtain c where run: "run_schedule [0, 1, 0, 1, 0, 1, 0, 1, 0, 1, 0, 1, 1] ?c0 = Some c"
    and fin: "thrs c = [Finished, Finished]" by (auto split: option.splits)
  have reach: "reach (\<lambda>c. c = ?c0) (sys_step (\<lambda>_. False)) c" by (rule reach_schedule[OF run]) (simp add: reach_ini)
  have room: "\<forall>ix cl a e. lookup2 one_sub ix cl = Some a \<longrightarrow>
      0 \<le> count_at one_sub a e \<and> count_at one_sub a e + int (count_list (concat (map fst two_pubs)) e) \<le> INT_MAX"
    by (simp add: one_sub_fields INT_MAX_def two_pubs_def)
  have "count_at (shared c) 0 ''a'' = count_at one_sub 0 ''a'' + int (count_list (concat (map fst two_pubs)) ''a'')"
    using concurrent_publications[OF one_sub_fields(1) room reach] fin one_sub_fields(2)[of "''a''" "''c''"] one_sub_fields(4)
    by auto
  then show ?thesis using reach fin by (intro exI[of _ c]) (simp add: one_sub_fields two_pubs_def)
qed

end
