(* ===== verification/PubSubRaces.thy ===== *)
theory PubSubRaces
  imports PubSubCounts
begin

text \<open>
  Publications with the increment of a counter in its four parts. Lines 507 to 513 test whether the event is in the
  map \<open>publishedEvent\<close>, insert it with 0 if it is not, read the counter and write it back; no lock is held around
  them (\<open>publishedEventMtx\<close> is declared and never locked), so another handler thread may step in between any two.
  The threads of \<open>PubSubThreads\<close> are the runs in which none does: every run of those is a run of the finer steps.
  The finer steps may lose publications, but never count one twice, and they are exact for an event that one
  thread alone publishes.
\<close>

section \<open>Steps\<close>

text \<open>A thread at a step of \<open>PubSubThreads\<close>, or one inside the increment for the subscriber its loop is at: it has
  found the counter missing, or present, or has read it.\<close>

datatype racer = Running thr | Insert thr | Ready thr | Increment thr int

record race_sys =
  mem :: pubsub
  racers :: "racer list"

definition whole_step :: "thr \<Rightarrow> pubsub \<Rightarrow> (racer \<times> pubsub) option" where
  "whole_step t s = map_option (\<lambda>(t', s'). (Running t', s')) (thr_step t s)"

definition test_counter :: "thr \<Rightarrow> string \<Rightarrow> addr \<Rightarrow> pubsub \<Rightarrow> racer \<times> pubsub" where
  "test_counter t e a s =
     (case deref s a of
        Inl err \<Rightarrow> (Running (Failed err), s)
      | Inr w \<Rightarrow> (case map_of (publishedEvent w) e of
                    None \<Rightarrow> (Insert t, s)
                  | Some n \<Rightarrow> (Ready t, s)))"

definition insert_counter :: "thr \<Rightarrow> string \<Rightarrow> addr \<Rightarrow> pubsub \<Rightarrow> racer \<times> pubsub" where
  "insert_counter t e a s =
     (case deref s a of
        Inl err \<Rightarrow> (Running (Failed err), s)
      | Inr w \<Rightarrow> (Ready t, poke a (w\<lparr>publishedEvent := map_put e 0 (publishedEvent w)\<rparr>) s))"

definition read_counter :: "thr \<Rightarrow> string \<Rightarrow> addr \<Rightarrow> pubsub \<Rightarrow> racer \<times> pubsub" where
  "read_counter t e a s =
     (case deref s a of
        Inl err \<Rightarrow> (Running (Failed err), s)
      | Inr w \<Rightarrow> (Increment t (map_at 0 e (publishedEvent w)), s))"

text \<open>The write of the counter and the test of the trigger, which follows it, are one step.\<close>

definition write_counter :: "string \<Rightarrow> addr \<Rightarrow> int \<Rightarrow> pubsub \<Rightarrow> (bool \<times> pubsub) res" where
  "write_counter e a n s =
     bindR (deref s a) (\<lambda>w.
     bindR (chk_int (n + 1)) (\<lambda>c.
       let w' = w\<lparr>publishedEvent := map_put e c (publishedEvent w)\<rparr>
       in Inr (checkIfTriggure w', poke a w' s)))"

fun racer_step :: "racer \<Rightarrow> pubsub \<Rightarrow> (racer \<times> pubsub) option" where
  "racer_step (Running t) s =
     (case t of
        PubClients e ix ((cl, a) # ps) ixs es mt md \<Rightarrow>
          if mt = ''NAME'' then Some (test_counter t e a s) else whole_step t s
      | _ \<Rightarrow> whole_step t s)"
| "racer_step (Insert t) s =
     (case t of
        PubClients e ix ((cl, a) # ps) ixs es mt md \<Rightarrow> Some (insert_counter t e a s)
      | _ \<Rightarrow> None)"
| "racer_step (Ready t) s =
     (case t of
        PubClients e ix ((cl, a) # ps) ixs es mt md \<Rightarrow> Some (read_counter t e a s)
      | _ \<Rightarrow> None)"
| "racer_step (Increment t n) s =
     (case t of
        PubClients e ix ((cl, a) # ps) ixs es mt md \<Rightarrow>
          (case write_counter e a n s of
             Inl err \<Rightarrow> Some (Running (Failed err), s)
           | Inr (b, s1) \<Rightarrow> Some (Running (if b then PubMark e ix cl ps ixs es mt md
                                          else PubClients e ix ps ixs es mt md), s1))
      | _ \<Rightarrow> None)"

inductive race_step :: "race_sys \<Rightarrow> race_sys \<Rightarrow> bool" where
  race_move: "i < length (racers c) \<Longrightarrow> racer_step (racers c ! i) (mem c) = Some (r, s) \<Longrightarrow>
    race_step c \<lparr>mem = s, racers = (racers c)[i := r]\<rparr>"

inductive_cases race_stepE: "race_step c c'"

section \<open>The atomic steps are among them\<close>

definition as_race :: "registry_sys \<Rightarrow> race_sys" where
  "as_race c = \<lparr>mem = shared c, racers = map Running (thrs c)\<rparr>"

lemma reach_racer:
  assumes "reach ini race_step \<lparr>mem = s, racers = rs[i := r]\<rparr>" "i < length rs" "racer_step r s = Some (r', s')"
  shows "reach ini race_step \<lparr>mem = s', racers = rs[i := r']\<rparr>"
  using reach_step[OF assms(1) race_move[of i]] assms(2,3) by simp

lemma map_put_twice [simp]: "map_put k v (map_put k w m) = map_put k v m"
  by (induction m) auto

lemma poke_twice [simp]: "poke a v (poke a w s) = poke a v s"
  by (simp add: poke_def)

lemma deref_poke_same [simp]: "deref (poke a w s) a = Inr w"
  by (simp add: deref_def poke_def)

lemma atomic_count_races:
  assumes start: "reach ini race_step \<lparr>mem = s, racers = rs[i := Running t]\<rparr>" and i: "i < length rs"
    and t: "t = PubClients e ix ((cl, a) # ps) ixs es ''NAME'' md" and step: "thr_step t s = Some (t', s')"
  shows "reach ini race_step \<lparr>mem = s', racers = rs[i := Running t']\<rparr>"
proof (cases "deref s a")
  case (Inl err)
  then show ?thesis using step by (intro reach_racer[OF start i]) (auto simp: t test_counter_def thr_step_def pub_count_def)
next
  case (Inr w)
  let ?w = "w\<lparr>publishedEvent := map_put e 0 (publishedEvent w)\<rparr>"
  show ?thesis
  proof (cases "map_of (publishedEvent w) e")
    case None
    have "reach ini race_step \<lparr>mem = s, racers = rs[i := Insert t]\<rparr>"
      by (rule reach_racer[OF start i]) (simp add: t test_counter_def Inr None)
    then have "reach ini race_step \<lparr>mem = poke a ?w s, racers = rs[i := Ready t]\<rparr>"
      by (rule reach_racer[OF _ i]) (simp add: t insert_counter_def Inr)
    then have "reach ini race_step \<lparr>mem = poke a ?w s, racers = rs[i := Increment t 0]\<rparr>"
      by (rule reach_racer[OF _ i]) (simp add: t read_counter_def)
    then show ?thesis
      by (rule reach_racer[OF _ i])
        (use step Inr None in \<open>auto simp: t write_counter_def thr_step_def pub_count_def chk_int_def is_int32_def
           INT_MIN_def INT_MAX_def map_at_None Let_def\<close>)
  next
    case (Some n)
    have "reach ini race_step \<lparr>mem = s, racers = rs[i := Ready t]\<rparr>"
      by (rule reach_racer[OF start i]) (simp add: t test_counter_def Inr Some)
    then have "reach ini race_step \<lparr>mem = s, racers = rs[i := Increment t n]\<rparr>"
      by (rule reach_racer[OF _ i]) (simp add: t read_counter_def Inr map_at_Some[OF Some])
    then show ?thesis
      by (rule reach_racer[OF _ i])
        (use step Inr map_at_Some[OF Some] in \<open>auto simp: t write_counter_def thr_step_def pub_count_def Let_def split: sum.splits\<close>)
  qed
qed

lemma atomic_step_races:
  assumes i: "i < length (thrs c)" and step: "thr_step (thrs c ! i) (shared c) = Some (t, s)"
    and start: "reach ini race_step (as_race c)"
  shows "reach ini race_step (as_race \<lparr>shared = s, thrs = (thrs c)[i := t]\<rparr>)"
proof -
  let ?rs = "map Running (thrs c)"
  have here: "reach ini race_step \<lparr>mem = shared c, racers = ?rs[i := Running (thrs c ! i)]\<rparr>"
    using start i by (simp add: as_race_def map_update[symmetric])
  have "reach ini race_step \<lparr>mem = s, racers = ?rs[i := Running t]\<rparr>"
  proof (cases "racer_step (Running (thrs c ! i)) (shared c) = Some (Running t, s)")
    case True
    with here i show ?thesis by (intro reach_racer[OF here]) simp_all
  next
    case False
    then obtain e ix cl a ps ixs es md where "thrs c ! i = PubClients e ix ((cl, a) # ps) ixs es ''NAME'' md"
      using step by (auto simp: whole_step_def split: thr.splits list.splits if_splits)
    from atomic_count_races[OF here _ this step] i show ?thesis by simp
  qed
  then show ?thesis by (simp add: as_race_def map_update)
qed


section \<open>The effect of a step\<close>

primrec thr_of :: "racer \<Rightarrow> thr" where
  "thr_of (Running t) = t"
| "thr_of (Insert t) = t"
| "thr_of (Ready t) = t"
| "thr_of (Increment t n) = t"

text \<open>A thread inside an increment is at a subscriber.\<close>

definition at_entry :: "racer \<Rightarrow> bool" where
  "at_entry r \<longleftrightarrow> (\<forall>t. r = Running t \<longrightarrow> False) \<longrightarrow>
     (\<exists>e ix cl a ps ixs es mt md. thr_of r = PubClients e ix ((cl, a) # ps) ixs es mt md)"

text \<open>The value of the counter of event \<open>e\<close> of the wrapper \<open>a\<close> a thread goes by: what it has read, or the 0 it is about
  to insert.\<close>

definition holds :: "racer \<Rightarrow> addr \<Rightarrow> string \<Rightarrow> int \<Rightarrow> bool" where
  "holds r a e n \<longleftrightarrow> (\<exists>ix cl ps ixs es mt md t. t = PubClients e ix ((cl, a) # ps) ixs es mt md
     \<and> (r = Increment t n \<or> r = Insert t \<and> n = 0))"

lemma at_entry_simps [simp]:
  "at_entry (Running t)"
  "at_entry (Insert (PubClients e ix ((cl, a) # ps) ixs es mt md))"
  "at_entry (Ready (PubClients e ix ((cl, a) # ps) ixs es mt md))"
  "at_entry (Increment (PubClients e ix ((cl, a) # ps) ixs es mt md) n)"
  by (simp_all add: at_entry_def)

lemma holds_simps [simp]:
  "\<not> holds (Running t) a e n"
  "\<not> holds (Ready t) a e n"
  "holds (Insert (PubClients e' ix ((cl, b) # ps) ixs es mt md)) a e n \<longleftrightarrow> a = b \<and> e = e' \<and> n = 0"
  "holds (Increment (PubClients e' ix ((cl, b) # ps) ixs es mt md) m) a e n \<longleftrightarrow> a = b \<and> e = e' \<and> n = m"
  by (auto simp: holds_def)

text \<open>What one step does: the thread's deliveries only shrink; the counter grows by what they shrink by, or is set to
  the value held plus what they shrink by; a value the thread holds afterwards is the counter.\<close>

definition moves :: "pubsub \<Rightarrow> racer \<Rightarrow> pubsub \<Rightarrow> racer \<Rightarrow> pubsub \<Rightarrow> bool" where
  "moves s0 r s r' s' \<longleftrightarrow> same_shape s0 s' \<and> publishing s0 (thr_of r') \<and> at_entry r'
     \<and> (\<forall>ix cl a e. lookup2 s0 ix cl = Some a \<longrightarrow>
          due s0 ix a e (thr_of r') \<le> due s0 ix a e (thr_of r)
        \<and> (\<exists>n. (n = count_at s a e \<or> holds r a e n)
             \<and> count_at s' a e + int (due s0 ix a e (thr_of r')) = n + int (due s0 ix a e (thr_of r)))
        \<and> (\<forall>n. holds r' a e n \<longrightarrow> n = count_at s' a e))"

text \<open>The counters, and the values held, are not negative and have room for what the thread still delivers.\<close>

definition room_at :: "pubsub \<Rightarrow> racer \<Rightarrow> pubsub \<Rightarrow> bool" where
  "room_at s0 r s \<longleftrightarrow> (\<forall>ix cl a e n. lookup2 s0 ix cl = Some a \<longrightarrow> n = count_at s a e \<or> holds r a e n \<longrightarrow>
     0 \<le> n \<and> n + int (due s0 ix a e (thr_of r)) \<le> INT_MAX)"

lemma moves_same:
  "same_shape s0 s \<Longrightarrow> publishing s0 (thr_of r') \<Longrightarrow> at_entry r' \<Longrightarrow> thr_of r' = thr_of r \<Longrightarrow>
   (\<And>a e n. holds r' a e n \<Longrightarrow> n = count_at s a e) \<Longrightarrow> moves s0 r s r' s"
  unfolding moves_def by auto

lemma count_put:
  "heap s b = Some w \<Longrightarrow> count_at (poke b (w\<lparr>publishedEvent := map_put e v (publishedEvent w)\<rparr>) s) a e'
     = (if a = b \<and> e' = e then v else count_at s a e')"
  by (auto simp: count_at_def poke_def map_at_def)

lemma moves_whole:
  assumes "pubsub_inv s0" "same_shape s0 s" "publishing s0 t" "room_at s0 (Running t) s" "whole_step t s = Some (r, s')"
  shows "moves s0 (Running t) s r s'"
proof -
  obtain t' where r: "r = Running t'" and step: "thr_step t s = Some (t', s')" using assms(5) by (auto simp: whole_step_def)
  have "room_for s0 t s" using assms(4) unfolding room_at_def room_for_def thr_of.simps by blast
  from publishing_step[OF assms(1-3) this step] have d: "delivers s0 t s t' s'" .
  have "due s0 ix a e t' \<le> due s0 ix a e t
      \<and> (\<exists>n. (n = count_at s a e \<or> holds (Running t) a e n)
           \<and> count_at s' a e + int (due s0 ix a e t') = n + int (due s0 ix a e t))"
    if a: "lookup2 s0 ix cl = Some a" for ix cl a e
  proof -
    have "count_at s' a e + int (due s0 ix a e t') = count_at s a e + int (due s0 ix a e t)" "count_at s a e \<le> count_at s' a e"
      using d a unfolding delivers_def by blast+
    then show ?thesis by (intro conjI exI[of _ "count_at s a e"]) simp_all
  qed
  then show ?thesis using d by (simp add: moves_def r delivers_def)
qed

lemma moves_count:
  assumes inv: "pubsub_inv s0" and shape: "same_shape s0 s" and pub: "publishing s0 (thr_of r)"
    and t: "thr_of r = PubClients e jx ((cl, b) # ps) ixs es mt md" "r \<noteq> Running (thr_of r) \<or> mt = ''NAME''"
    and room: "room_at s0 r s" and step: "racer_step r s = Some (r', s')"
  shows "moves s0 r s r' s'"
proof -
  from pub t(1) have b: "lookup2 s0 jx cl = Some b" and rest: "entries_of s0 jx ps" by (simp_all add: entries_of_def)
  from live_entry[OF inv shape b] obtain w where w: "heap s b = Some w" by blast
  have put: "same_shape s0 (poke b v s)" for v using same_shape_poke[OF shape] w shape by (auto simp: same_shape_def)
  note [simp] = deref_def w
  show ?thesis
  proof (cases r)
    case (Running u)
    with step t have r': "s' = s" "r' = (if map_of (publishedEvent w) e = None then Insert u else Ready u)"
      by (auto simp: test_counter_def split: option.splits)
    have "u = PubClients e jx ((cl, b) # ps) ixs es mt md" using t(1) Running by simp
    then show ?thesis unfolding r' using shape pub Running
      by (intro moves_same) (auto simp: count_at_def map_at_None split: if_splits)
  next
    case (Insert u)
    with step t have r': "r' = Ready u" "s' = poke b (w\<lparr>publishedEvent := map_put e 0 (publishedEvent w)\<rparr>) s"
      by (auto simp: insert_counter_def)
    then show ?thesis using pub t(1) Insert put by (simp add: moves_def count_put[OF w])
  next
    case (Ready u)
    have "map_at 0 e (publishedEvent w) = count_at s b e" by (simp add: count_at_def)
    with step t Ready have "r' = Increment u (count_at s b e)" "s' = s" by (auto simp: read_counter_def)
    then show ?thesis using shape pub t(1) Ready by (auto intro!: moves_same)
  next
    case (Increment u n)
    with t have u: "u = PubClients e jx ((cl, b) # ps) ixs es mt md" by simp
    have "n + int (due s0 jx b e u) \<le> INT_MAX" "0 \<le> n"
      using room b unfolding room_at_def Increment u thr_of.simps by (meson holds_simps(4))+
    then have "is_int32 (n + 1)" by (simp add: is_int32_def INT_MIN_def u)
    then obtain trig where "write_counter e b n s = Inr (trig, poke b (w\<lparr>publishedEvent := map_put e (n + 1) (publishedEvent w)\<rparr>) s)"
      by (auto simp: write_counter_def Let_def)
    with step Increment u have r': "r' = Running (if trig then PubMark e jx cl ps ixs es mt md else PubClients e jx ps ixs es mt md)"
      "s' = poke b (w\<lparr>publishedEvent := map_put e (n + 1) (publishedEvent w)\<rparr>) s" by auto
    have "publishing s0 (thr_of r')" using pub rest b r'(1) t(1) by simp
    moreover have "due s0 ix a e' (thr_of r) = due s0 ix a e' (thr_of r') + (if a = b \<and> e' = e then 1 else 0)" for ix a e'
      by (simp add: t(1) r'(1))
    ultimately show ?thesis using put r' Increment u by (auto simp: moves_def count_put[OF w])
  qed
qed

lemma racer_moves:
  assumes "pubsub_inv s0" "same_shape s0 s" "publishing s0 (thr_of r)" "at_entry r" "room_at s0 r s"
    "racer_step r s = Some (r', s')"
  shows "moves s0 r s r' s'"
proof (cases "\<exists>t. r = Running t \<and> whole_step t s = Some (r', s')")
  case True
  with assms moves_whole show ?thesis by auto
next
  case False
  then obtain e ix cl a ps ixs es mt md where "thr_of r = PubClients e ix ((cl, a) # ps) ixs es mt md"
    "r \<noteq> Running (thr_of r) \<or> mt = ''NAME''"
    using assms(4,6) by (cases r) (auto simp: at_entry_def split: thr.splits list.splits if_splits)
  from moves_count[OF assms(1-3) this assms(5,6)] show ?thesis .
qed

section \<open>The upper bound\<close>

definition left_over :: "pubsub \<Rightarrow> string \<Rightarrow> addr \<Rightarrow> string \<Rightarrow> racer list \<Rightarrow> int" where
  "left_over s0 ix a e rs = int (all_due s0 ix a e (map thr_of rs))"

text \<open>What the counter is to be when every publication has been counted.\<close>

definition total :: "pubsub \<Rightarrow> thr list \<Rightarrow> string \<Rightarrow> addr \<Rightarrow> string \<Rightarrow> int" where
  "total s0 ts ix a e = count_at s0 a e + int (all_due s0 ix a e ts)"

text \<open>A counter, or a value a thread holds for it.\<close>

definition seen :: "race_sys \<Rightarrow> addr \<Rightarrow> string \<Rightarrow> int \<Rightarrow> bool" where
  "seen c a e n \<longleftrightarrow> n = count_at (mem c) a e \<or> (\<exists>r \<in> set (racers c). holds r a e n)"

text \<open>The invariant: no counter, and no value held for it, exceeds what the deliveries made so far can have counted.\<close>

definition bounded_by :: "pubsub \<Rightarrow> thr list \<Rightarrow> race_sys \<Rightarrow> bool" where
  "bounded_by s0 ts c \<longleftrightarrow> same_shape s0 (mem c) \<and> (\<forall>r \<in> set (racers c). publishing s0 (thr_of r) \<and> at_entry r)
     \<and> (\<forall>ix cl a e n. lookup2 s0 ix cl = Some a \<longrightarrow> seen c a e n \<longrightarrow>
          0 \<le> n \<and> n + left_over s0 ix a e (racers c) \<le> total s0 ts ix a e)"

lemma left_over_update: "i < length rs \<Longrightarrow>
   left_over s0 ix a e (rs[i := r]) = left_over s0 ix a e rs - int (due s0 ix a e (thr_of (rs ! i))) + int (due s0 ix a e (thr_of r))"
  unfolding left_over_def map_update by (subst all_due_update) simp_all

lemma due_left_over: "i < length rs \<Longrightarrow> int (due s0 ix a e (thr_of (rs ! i))) \<le> left_over s0 ix a e rs"
  using due_le_all[of i "map thr_of rs" s0 ix a e] by (simp add: left_over_def)

lemma bounded_moves:
  assumes start: "startable s0 ts" and inv: "bounded_by s0 ts c" and i: "i < length (racers c)"
    and step: "racer_step (racers c ! i) (mem c) = Some (r, s)"
  shows "moves s0 (racers c ! i) (mem c) r s"
proof (rule racer_moves[OF _ _ _ _ _ step])
  show "pubsub_inv s0" using start by (simp add: startable_def)
  have mem: "racers c ! i \<in> set (racers c)" using i by simp
  then show "same_shape s0 (mem c)" "publishing s0 (thr_of (racers c ! i))" "at_entry (racers c ! i)"
    using inv unfolding bounded_by_def by blast+
  show "room_at s0 (racers c ! i) (mem c)" unfolding room_at_def
  proof (intro allI impI)
    fix ix cl a e n assume a: "lookup2 s0 ix cl = Some a" and n: "n = count_at (mem c) a e \<or> holds (racers c ! i) a e n"
    then have "seen c a e n" using mem unfolding seen_def by blast
    then have "0 \<le> n" "n + left_over s0 ix a e (racers c) \<le> total s0 ts ix a e" using inv a unfolding bounded_by_def by blast+
    moreover have "total s0 ts ix a e \<le> INT_MAX" using start a unfolding startable_def total_def by blast
    ultimately show "0 \<le> n \<and> n + int (due s0 ix a e (thr_of (racers c ! i))) \<le> INT_MAX"
      using due_left_over[OF i, of s0 ix a e] by linarith
  qed
qed

text \<open>Where a value seen after a step comes from.\<close>

lemma seen_after:
  assumes moves: "moves s0 (racers c ! i) (mem c) r s" and i: "i < length (racers c)" and a: "lookup2 s0 ix cl = Some a"
    and seen: "seen \<lparr>mem = s, racers = (racers c)[i := r]\<rparr> a e n"
  obtains m where "seen c a e m" "n + int (due s0 ix a e (thr_of r)) = m + int (due s0 ix a e (thr_of (racers c ! i)))"
    | j where "j < length (racers c)" "j \<noteq> i" "holds (racers c ! j) a e n" "seen c a e n"
proof -
  from moves a obtain m where m: "m = count_at (mem c) a e \<or> holds (racers c ! i) a e m"
    "count_at s a e + int (due s0 ix a e (thr_of r)) = m + int (due s0 ix a e (thr_of (racers c ! i)))"
    unfolding moves_def by blast
  have held: "holds r a e n \<Longrightarrow> n = count_at s a e" using moves a unfolding moves_def by blast
  from seen consider "n = count_at s a e"
    | j where "j < length (racers c)" "holds ((racers c)[i := r] ! j) a e n" unfolding seen_def
    by (auto simp: in_set_conv_nth)
  then consider "n = count_at s a e" | j where "j < length (racers c)" "j \<noteq> i" "holds (racers c ! j) a e n"
  proof cases
    case (2 j)
    then show thesis using that held i by (cases "j = i") auto
  qed (use that in blast)
  then show thesis
  proof cases
    case 1
    then show thesis using m i that(1)[of m] unfolding seen_def by (metis nth_mem)
  next
    case (2 j)
    then show thesis using that(2)[of j] unfolding seen_def by (metis nth_mem)
  qed
qed

lemma bounded_by_step:
  assumes start: "startable s0 ts" and inv: "bounded_by s0 ts c" and i: "i < length (racers c)"
    and step: "racer_step (racers c ! i) (mem c) = Some (r, s)"
  shows "bounded_by s0 ts \<lparr>mem = s, racers = (racers c)[i := r]\<rparr>"
proof -
  have moves: "moves s0 (racers c ! i) (mem c) r s" by (rule bounded_moves[OF start inv i step])
  have "0 \<le> n \<and> n + left_over s0 ix a e ((racers c)[i := r]) \<le> total s0 ts ix a e"
    if a: "lookup2 s0 ix cl = Some a" and n: "seen \<lparr>mem = s, racers = (racers c)[i := r]\<rparr> a e n" for ix cl a e n
  proof -
    have due: "due s0 ix a e (thr_of r) \<le> due s0 ix a e (thr_of (racers c ! i))" using moves a unfolding moves_def by blast
    have old: "0 \<le> m \<and> m + left_over s0 ix a e (racers c) \<le> total s0 ts ix a e" if "seen c a e m" for m
      using inv a that unfolding bounded_by_def by blast
    from moves i a n show ?thesis
    proof (cases rule: seen_after)
      case (1 m)
      with old[OF this(1)] due show ?thesis unfolding left_over_update[OF i] by linarith
    next
      case (2 j)
      with old[OF this(4)] due show ?thesis unfolding left_over_update[OF i] by linarith
    qed
  qed
  moreover have "publishing s0 (thr_of r') \<and> at_entry r'" if "r' \<in> set ((racers c)[i := r])" for r'
    using that set_update_subset_insert[of "racers c" i r] inv moves unfolding bounded_by_def moves_def by blast
  ultimately show ?thesis using moves by (simp add: bounded_by_def moves_def)
qed

lemma bounded_by_start:
  assumes "startable s0 ts"
  shows "bounded_by s0 ts \<lparr>mem = s0, racers = map Running ts\<rparr>"
proof -
  have "map (thr_of \<circ> Running) ts = ts" by (simp add: comp_def)
  then show ?thesis using assms
    by (auto simp: bounded_by_def startable_def seen_def total_def left_over_def list_all_iff)
qed

interpretation racing: inv_system "\<lambda>c. c = \<lparr>mem = s0, racers = map Running ts\<rparr>" race_step
    "\<lambda>c. startable s0 ts \<longrightarrow> bounded_by s0 ts c" for s0 ts
  by unfold_locales (auto simp: bounded_by_start elim!: race_stepE intro: bounded_by_step)

section \<open>An event of one thread\<close>

text \<open>The thread still has to publish event \<open>e\<close>, or is at it.\<close>

primrec mentions :: "string \<Rightarrow> thr \<Rightarrow> bool" where
  "mentions e (SubCall cl na evs mt meta) = False"
| "mentions e (SubIndex cl jx evs b) = False"
| "mentions e (Unsub jx cl) = False"
| "mentions e (PubNext es mt md) = (e \<in> set es)"
| "mentions e (PubIndexes e' ixs es mt md) = (e' = e \<or> e \<in> set es)"
| "mentions e (PubClients e' jx ps ixs es mt md) = (e' = e \<or> e \<in> set es)"
| "mentions e (PubMark e' jx cl ps ixs es mt md) = (e' = e \<or> e \<in> set es)"
| "mentions e Finished = False"
| "mentions e (Failed err) = False"

lemma due_mentions: "\<not> mentions e t \<Longrightarrow> due s ix a e t = 0"
  by (cases t) (auto simp: count_list_0_iff)

lemma holds_mentions: "holds r a e n \<Longrightarrow> mentions e (thr_of r)"
  by (auto simp: holds_def)

lemma thr_step_mentions: "thr_step t s = Some (t', s') \<Longrightarrow> mentions e t' \<Longrightarrow> mentions e t"
  by (auto simp: thr_step_def Let_def split: thr.splits list.splits option.splits sum.splits prod.splits if_splits)

lemma racer_step_mentions: "racer_step r s = Some (r', s') \<Longrightarrow> mentions e (thr_of r') \<Longrightarrow> mentions e (thr_of r)"
  by (cases r) (auto simp: whole_step_def test_counter_def insert_counter_def read_counter_def dest: thr_step_mentions
      split: thr.splits list.splits option.splits sum.splits prod.splits if_splits)

text \<open>The invariant: only thread \<open>k\<close> has to do with event \<open>e\<close>, and the counters for it, and the values held for them,
  are what the deliveries made so far have counted.\<close>

definition exact_for :: "pubsub \<Rightarrow> thr list \<Rightarrow> nat \<Rightarrow> string \<Rightarrow> race_sys \<Rightarrow> bool" where
  "exact_for s0 ts k e c \<longleftrightarrow> bounded_by s0 ts c
     \<and> (\<forall>j < length (racers c). j \<noteq> k \<longrightarrow> \<not> mentions e (thr_of (racers c ! j)))
     \<and> (\<forall>ix cl a n. lookup2 s0 ix cl = Some a \<longrightarrow> seen c a e n \<longrightarrow> n + left_over s0 ix a e (racers c) = total s0 ts ix a e)"

definition sole_start :: "pubsub \<Rightarrow> thr list \<Rightarrow> nat \<Rightarrow> string \<Rightarrow> bool" where
  "sole_start s0 ts k e \<longleftrightarrow> startable s0 ts \<and> (\<forall>j < length ts. j \<noteq> k \<longrightarrow> \<not> mentions e (ts ! j))"

lemma exact_for_step:
  assumes start: "startable s0 ts" and inv: "exact_for s0 ts k e c" and i: "i < length (racers c)"
    and step: "racer_step (racers c ! i) (mem c) = Some (r, s)"
  shows "exact_for s0 ts k e \<lparr>mem = s, racers = (racers c)[i := r]\<rparr>"
proof -
  have bound: "bounded_by s0 ts c" using inv by (simp add: exact_for_def)
  have moves: "moves s0 (racers c ! i) (mem c) r s" by (rule bounded_moves[OF start bound i step])
  have others: "\<not> mentions e (thr_of (racers c ! j))" if "j < length (racers c)" "j \<noteq> k" for j
    using inv that unfolding exact_for_def by blast
  have "n + left_over s0 ix a e ((racers c)[i := r]) = total s0 ts ix a e"
    if a: "lookup2 s0 ix cl = Some a" and n: "seen \<lparr>mem = s, racers = (racers c)[i := r]\<rparr> a e n" for ix cl a n
  proof -
    have old: "m + left_over s0 ix a e (racers c) = total s0 ts ix a e" if "seen c a e m" for m
      using inv a that unfolding exact_for_def by blast
    from moves i a n show ?thesis
    proof (cases rule: seen_after)
      case (1 m)
      with old[OF this(1)] show ?thesis unfolding left_over_update[OF i] by linarith
    next
      case (2 j)
      then have "i \<noteq> k" using others holds_mentions by blast
      then have "\<not> mentions e (thr_of (racers c ! i))" "\<not> mentions e (thr_of r)"
        using others[OF i] racer_step_mentions[OF step] by blast+
      with old[OF 2(4)] show ?thesis unfolding left_over_update[OF i] by (simp add: due_mentions)
    qed
  qed
  moreover have "\<not> mentions e (thr_of ((racers c)[i := r] ! j))" if "j < length (racers c)" "j \<noteq> k" for j
    using others[OF that] racer_step_mentions[OF step] that by (cases "j = i") auto
  ultimately show ?thesis using bounded_by_step[OF start bound i step] by (simp add: exact_for_def)
qed

lemma exact_for_start:
  assumes "sole_start s0 ts k e"
  shows "exact_for s0 ts k e \<lparr>mem = s0, racers = map Running ts\<rparr>"
proof -
  have "map (thr_of \<circ> Running) ts = ts" by (simp add: comp_def)
  then show ?thesis using assms bounded_by_start
    by (auto simp: exact_for_def sole_start_def seen_def total_def left_over_def)
qed

interpretation sole: inv_system "\<lambda>c. c = \<lparr>mem = s0, racers = map Running ts\<rparr>" race_step
    "\<lambda>c. sole_start s0 ts k e \<longrightarrow> exact_for s0 ts k e c" for s0 ts k e
  by unfold_locales (auto simp: exact_for_start sole_start_def elim!: race_stepE intro: exact_for_step)

section \<open>Properties\<close>

lemma publishers_startable:
  assumes "pubsub_inv s0"
    and "\<forall>ix cl a e. lookup2 s0 ix cl = Some a \<longrightarrow>
      0 \<le> count_at s0 a e \<and> count_at s0 a e + int (count_list (concat (map fst pubs)) e) \<le> INT_MAX"
  shows "startable s0 (publishers pubs)"
  unfolding startable_def
proof (intro conjI allI impI)
  fix ix cl a e assume a: "lookup2 s0 ix cl = Some a"
  from assms(2)[rule_format, OF a, of e] show "0 \<le> count_at s0 a e"
    "count_at s0 a e + int (all_due s0 ix a e (publishers pubs)) \<le> INT_MAX" by (auto simp: publishers_due)
qed (simp_all add: assms(1) publishers_publishing)

lemma publishers_total: "total s0 (publishers pubs) ix a e =
    count_at s0 a e + (if ix \<in> index_of s0 e then int (count_list (concat (map fst pubs)) e) else 0)"
  by (simp add: total_def publishers_due)

lemma finished_left_over: "set rs \<subseteq> {Running Finished} \<Longrightarrow> left_over s0 ix a e rs = 0"
  unfolding left_over_def by (subst finished_due) auto

text \<open>C12: Concurrent publications whose increments may interleave never count a publication twice: over a sound
  registry with room in its counters, no thread fails in any run, and a subscriber's counter for an event never
  exceeds its old value plus the number of times the event is published, nothing if it is not indexed for it.\<close>

theorem racing_publications:
  assumes "pubsub_inv s0"
    and "\<forall>ix cl a e. lookup2 s0 ix cl = Some a \<longrightarrow>
      0 \<le> count_at s0 a e \<and> count_at s0 a e + int (count_list (concat (map fst pubs)) e) \<le> INT_MAX"
    and "reach (\<lambda>c. c = \<lparr>mem = s0, racers = map Running (publishers pubs)\<rparr>) race_step c"
  shows "(\<forall>err. Running (Failed err) \<notin> set (racers c))
    \<and> (\<forall>ix cl a e. lookup2 s0 ix cl = Some a \<longrightarrow>
         count_at (mem c) a e \<le> count_at s0 a e + (if ix \<in> index_of s0 e then int (count_list (concat (map fst pubs)) e) else 0))"
proof -
  have b: "bounded_by s0 (publishers pubs) c"
    using racing.inv_reach[OF assms(3)] publishers_startable[OF assms(1,2)] by blast
  then have "\<forall>err. Running (Failed err) \<notin> set (racers c)" by (force simp: bounded_by_def)
  moreover have "count_at (mem c) a e + left_over s0 ix a e (racers c) \<le> total s0 (publishers pubs) ix a e"
    if "lookup2 s0 ix cl = Some a" for ix cl a e
    using b that unfolding bounded_by_def seen_def by blast
  moreover have "0 \<le> left_over s0 ix a e rs" for ix a e rs by (simp add: left_over_def)
  ultimately show ?thesis unfolding publishers_total by (meson add_increasing2 add_le_cancel_left le_add_same_cancel1 order_trans)
qed

text \<open>C10: However the parts of the increments interleave, each taken as one step, the counters for an event that at
  most one of the clients publishes are exact: over a sound registry with room in its counters, when all handler threads have
  finished, every subscriber is filed as before, and its counter for that event has grown by the number of times
  the event was published if its index event is indexed for it, and not at all otherwise, whatever the other
  clients publish to the same subscribers meanwhile.\<close>

theorem sole_publisher_exact:
  assumes "pubsub_inv s0"
    and "\<forall>ix cl a e. lookup2 s0 ix cl = Some a \<longrightarrow>
      0 \<le> count_at s0 a e \<and> count_at s0 a e + int (count_list (concat (map fst pubs)) e) \<le> INT_MAX"
    and "\<forall>j < length pubs. j \<noteq> k \<longrightarrow> e \<notin> set (fst (pubs ! j))"
    and "reach (\<lambda>c. c = \<lparr>mem = s0, racers = map Running (publishers pubs)\<rparr>) race_step c"
    and "set (racers c) \<subseteq> {Running Finished}"
    and "lookup2 s0 ix cl = Some a"
  shows "lookup2 (mem c) ix cl = Some a
    \<and> count_at (mem c) a e = count_at s0 a e + (if ix \<in> index_of s0 e then int (count_list (concat (map fst pubs)) e) else 0)"
proof -
  have "sole_start s0 (publishers pubs) k e" using publishers_startable[OF assms(1,2)] assms(3)
    by (simp add: sole_start_def publishers_def case_prod_beta)
  then have ex: "exact_for s0 (publishers pubs) k e c" using sole.inv_reach[OF assms(4)] by blast
  then have "count_at (mem c) a e + left_over s0 ix a e (racers c) = total s0 (publishers pubs) ix a e"
    using assms(6) unfolding exact_for_def seen_def by blast
  moreover have "lookup2 (mem c) = lookup2 s0" using ex same_shape_lookup2 unfolding exact_for_def bounded_by_def by blast
  ultimately show ?thesis using assms(6) by (simp add: finished_left_over[OF assms(5)] publishers_total)
qed

fun run_race :: "nat list \<Rightarrow> race_sys \<Rightarrow> race_sys option" where
  "run_race [] c = Some c"
| "run_race (i # sched) c =
     (if i < length (racers c)
      then (case racer_step (racers c ! i) (mem c) of
              None \<Rightarrow> None
            | Some (r, s) \<Rightarrow> run_race sched \<lparr>mem = s, racers = (racers c)[i := r]\<rparr>)
      else None)"

lemma reach_race: "run_race sched c = Some c' \<Longrightarrow> reach ini race_step c \<Longrightarrow> reach ini race_step c'"
proof (induction sched arbitrary: c)
  case (Cons i sched)
  from Cons.prems(1) obtain r s where step: "i < length (racers c)" "racer_step (racers c ! i) (mem c) = Some (r, s)"
    and run: "run_race sched \<lparr>mem = s, racers = (racers c)[i := r]\<rparr> = Some c'"
    by (auto split: if_splits option.splits)
  from race_move[OF step] Cons.prems(2) show ?case by (intro Cons.IH[OF run]) (rule reach_step)
qed simp

definition lost :: "race_sys \<Rightarrow> bool" where
  "lost c \<longleftrightarrow> racers c = [Running Finished, Running Finished] \<and> count_at (mem c) 0 ''a'' = 1
     \<and> map_option iftrigure (heap (mem c) 0) = Some False"

lemma lost_run:
  "case run_race [0, 0, 1, 1, 0, 0, 0, 1, 1, 0, 1, 0, 0, 0, 1, 1, 1] \<lparr>mem = one_sub, racers = map Running (publishers two_pubs)\<rparr>
     of None \<Rightarrow> False | Some c \<Rightarrow> lost c"
  by code_simp

lemma racing_publications_witness:
  "\<exists>c. reach (\<lambda>c. c = \<lparr>mem = one_sub, racers = map Running (publishers two_pubs)\<rparr>) race_step c
     \<and> lost c \<and> count_at (mem c) 0 ''a'' \<le> count_at one_sub 0 ''a'' + 2"
proof -
  let ?c0 = "\<lparr>mem = one_sub, racers = map Running (publishers two_pubs)\<rparr>"
  obtain c where run: "run_race [0, 0, 1, 1, 0, 0, 0, 1, 1, 0, 1, 0, 0, 0, 1, 1, 1] ?c0 = Some c" and l: "lost c"
    using lost_run by (auto split: option.splits)
  have reach: "reach (\<lambda>c. c = ?c0) race_step c" by (rule reach_race[OF run]) (simp add: reach_ini)
  have room: "\<forall>ix cl a e. lookup2 one_sub ix cl = Some a \<longrightarrow>
      0 \<le> count_at one_sub a e \<and> count_at one_sub a e + int (count_list (concat (map fst two_pubs)) e) \<le> INT_MAX"
    by (simp add: one_sub_fields INT_MAX_def two_pubs_def)
  have "lookup2 one_sub ''a'' ''c'' = Some 0" by (simp add: one_sub_fields)
  from conjunct2[OF racing_publications[OF one_sub_fields(1) room reach], rule_format, OF this, of "''a''"]
  have "count_at (mem c) 0 ''a'' \<le> count_at one_sub 0 ''a'' + int (count_list (concat (map fst two_pubs)) ''a'')"
    by (simp add: one_sub_fields(4))
  then show ?thesis using reach l by (intro exI[of _ c]) (simp add: one_sub_fields two_pubs_def)
qed

text \<open>A subscriber of two events, and two clients that publish one each.\<close>

definition two_events :: pubsub where
  "two_events = enroll ''c'' ''a'' [(''a'', 1), (''b'', 1)] (subscribed ''c'' ''h'' [(''a'', 1), (''b'', 1)] ''NAME'' []) pubsub_start"

definition two_clients :: "(string list \<times> string) list" where
  "two_clients = [([''a''], []), ([''b''], [])]"

lemma two_events_fields:
  "pubsub_inv two_events" "lookup2 two_events ix cl = (if ix = ''a'' \<and> cl = ''c'' then Some 0 else None)"
  "count_at two_events 0 e = 0" "''a'' \<in> index_of two_events ''b''"
proof -
  show "pubsub_inv two_events" unfolding two_events_def
    by (rule enroll_inv[OF pubsub_inv_start _ subscribed_wf]) (simp add: subscribed_def, simp only: subscribed_dom order_refl)
  show "lookup2 two_events ix cl = (if ix = ''a'' \<and> cl = ''c'' then Some 0 else None)"
    unfolding two_events_def enroll_lookup2 by (simp add: lookup2_def pubsub_start_def)
  show "count_at two_events 0 e = 0"
    by (simp add: two_events_def count_at_def enroll_heap pubsub_start_def subscribed_def map_at_def)
  show "''a'' \<in> index_of two_events ''b''" unfolding two_events_def enroll_index by simp
qed

lemma two_clients_run:
  "case run_race [0, 1, 0, 1, 0, 1, 0, 1, 0, 1, 0, 1, 1, 0, 1, 0, 1, 0, 1] \<lparr>mem = two_events, racers = map Running (publishers two_clients)\<rparr>
     of None \<Rightarrow> False | Some c \<Rightarrow> racers c = [Running Finished, Running Finished]"
  by code_simp

lemma sole_publisher_exact_witness:
  "\<exists>c. reach (\<lambda>c. c = \<lparr>mem = two_events, racers = map Running (publishers two_clients)\<rparr>) race_step c
     \<and> racers c = [Running Finished, Running Finished] \<and> count_at (mem c) 0 ''b'' = 1"
proof -
  let ?c0 = "\<lparr>mem = two_events, racers = map Running (publishers two_clients)\<rparr>"
  obtain c where run: "run_race [0, 1, 0, 1, 0, 1, 0, 1, 0, 1, 0, 1, 1, 0, 1, 0, 1, 0, 1] ?c0 = Some c"
    and fin: "racers c = [Running Finished, Running Finished]" using two_clients_run by (auto split: option.splits)
  have reach: "reach (\<lambda>c. c = ?c0) race_step c" by (rule reach_race[OF run]) (simp add: reach_ini)
  have room: "\<forall>ix cl a e. lookup2 two_events ix cl = Some a \<longrightarrow>
      0 \<le> count_at two_events a e \<and> count_at two_events a e + int (count_list (concat (map fst two_clients)) e) \<le> INT_MAX"
    by (simp add: two_events_fields INT_MAX_def two_clients_def)
  have sole: "\<forall>j < length two_clients. j \<noteq> 1 \<longrightarrow> ''b'' \<notin> set (fst (two_clients ! j))"
    by (simp add: two_clients_def less_Suc_eq)
  have "lookup2 two_events ''a'' ''c'' = Some 0" by (simp add: two_events_fields)
  from conjunct2[OF sole_publisher_exact[OF two_events_fields(1) room sole reach _ this]]
  have "count_at (mem c) 0 ''b'' = count_at two_events 0 ''b'' + int (count_list (concat (map fst two_clients)) ''b'')"
    by (simp add: fin two_events_fields(4))
  then show ?thesis using reach fin by (intro exI[of _ c]) (simp add: two_events_fields two_clients_def)
qed

text \<open>C11: The increments can lose a publication: a subscriber waits for two publications of an event, two clients
  publish it, and there is a run of the two handler threads in which both finish, the counter is 1 and the subscriber
  is not triggered. Every run in which the increments are atomic is one of the runs considered, and leaves 2.\<close>

theorem lost_update:
  "(\<exists>c. reach (\<lambda>c. c = \<lparr>mem = one_sub, racers = map Running (publishers two_pubs)\<rparr>) race_step c \<and> lost c)
   \<and> (\<forall>c. reach (\<lambda>c. c = \<lparr>shared = one_sub, thrs = publishers two_pubs\<rparr>) (sys_step (\<lambda>_. False)) c \<longrightarrow>
        reach (\<lambda>c. c = \<lparr>mem = one_sub, racers = map Running (publishers two_pubs)\<rparr>) race_step (as_race c) \<and> \<not> lost (as_race c))"
proof (intro conjI allI impI)
  obtain c where run: "run_race [0, 0, 1, 1, 0, 0, 0, 1, 1, 0, 1, 0, 0, 0, 1, 1, 1]
      \<lparr>mem = one_sub, racers = map Running (publishers two_pubs)\<rparr> = Some c" and l: "lost c"
    using lost_run by (auto split: option.splits)
  show "\<exists>c. reach (\<lambda>c. c = \<lparr>mem = one_sub, racers = map Running (publishers two_pubs)\<rparr>) race_step c \<and> lost c"
    using l by (intro exI[of _ c] conjI reach_race[OF run]) (simp_all add: reach_ini)
next
  fix c assume r: "reach (\<lambda>c. c = \<lparr>shared = one_sub, thrs = publishers two_pubs\<rparr>) (sys_step (\<lambda>_. False)) c"
  then show "reach (\<lambda>c. c = \<lparr>mem = one_sub, racers = map Running (publishers two_pubs)\<rparr>) race_step (as_race c)"
  proof (induction rule: reach.induct)
    case (reach_step c c')
    from reach_step(2) show ?case
      by (rule sys_stepE) (use atomic_step_races reach_step.IH in auto)
  qed (simp add: as_race_def reach_ini)
  have "conserved one_sub (publishers two_pubs) c"
    using publications.inv_reach[OF r] one_sub_fields
    by (simp add: startable_def publishers_publishing publishers_due two_pubs_def INT_MAX_def)
  then have "count_at (shared c) 0 ''a'' + int (all_due one_sub ''a'' 0 ''a'' (thrs c)) = 2"
    using one_sub_fields(2)[of "''a''" "''c''"] one_sub_fields(3,4) unfolding conserved_def
    by (auto simp: publishers_due two_pubs_def)
  moreover have "all_due one_sub ''a'' 0 ''a'' (thrs c) = 0" if "racers (as_race c) = [Running Finished, Running Finished]"
    using that by (intro finished_due) (auto simp: as_race_def map_eq_Cons_conv)
  ultimately show "\<not> lost (as_race c)" by (auto simp: lost_def as_race_def)
qed

lemma lost_update_witness:
  "\<exists>c. reach (\<lambda>c. c = \<lparr>mem = one_sub, racers = map Running (publishers two_pubs)\<rparr>) race_step (as_race c)
     \<and> racers (as_race c) = [Running Finished, Running Finished] \<and> \<not> lost (as_race c)"
proof -
  let ?c0 = "\<lparr>shared = one_sub, thrs = publishers two_pubs\<rparr>"
  have "case run_schedule [0, 1, 0, 1, 0, 1, 0, 1, 0, 1, 0, 1, 1] ?c0 of None \<Rightarrow> False | Some c \<Rightarrow> thrs c = [Finished, Finished]"
    by code_simp
  then obtain c where run: "run_schedule [0, 1, 0, 1, 0, 1, 0, 1, 0, 1, 0, 1, 1] ?c0 = Some c"
    and fin: "thrs c = [Finished, Finished]" by (auto split: option.splits)
  have "reach (\<lambda>c. c = ?c0) (sys_step (\<lambda>_. False)) c" by (rule reach_schedule[OF run]) (simp add: reach_ini)
  from conjunct2[OF lost_update, rule_format, OF this] fin show ?thesis by (intro exI[of _ c]) (simp add: as_race_def)
qed

end
