(* ===== verification/EventManager.thy ===== *)
theory EventManager
  imports PubSubClient StrParse
begin

text \<open>
  The event manager of a client process, \<open>src/src/observer/eventmanager.cpp\<close>, with the two back ends that
  start a task, \<open>src/src/runtime/local.cc\<close> and \<open>src/src/runtime/slurm.c\<close>, and the actions of the notify
  server, \<open>startAction\<close> of \<open>src/src/operator/notifyserver.cc\<close>. A process reads trigger configurations in
  JSON, registers each under a fresh client id, subscribes to its events, and runs its actions when it
  is notified under that id. The JSON parser and the generator of ids are libraries: the parsed document
  is the value of the parameter \<open>parse\<close>, an id the parameter \<open>uuid\<close>.
\<close>

section \<open>JSON documents\<close>

datatype json = JNull | JBool bool | JNumber int | JString string | JArray "json list" | JObject "(string \<times> json) list"

text \<open>\<open>d[key]\<close>, \<open>d.HasMember(key)\<close>, \<open>v.GetString()\<close> and the loop over \<open>v.Size()\<close> elements: a missing
  member and a value of another type fail an assertion of the library.\<close>

definition json_at :: "json \<Rightarrow> string \<Rightarrow> json res" where
  "json_at d key = (case d of JObject ms \<Rightarrow> (case map_of ms key of None \<Rightarrow> Inl Assertion_failed | Some v \<Rightarrow> Inr v)
                            | _ \<Rightarrow> Inl Assertion_failed)"

definition json_has :: "json \<Rightarrow> string \<Rightarrow> bool res" where
  "json_has d key = (case d of JObject ms \<Rightarrow> Inr (map_of ms key \<noteq> None) | _ \<Rightarrow> Inl Assertion_failed)"

definition json_string :: "json \<Rightarrow> string res" where
  "json_string v = (case v of JString t \<Rightarrow> Inr t | _ \<Rightarrow> Inl Assertion_failed)"

definition json_strings :: "json \<Rightarrow> string list res" where
  "json_strings v = (case v of JArray vs \<Rightarrow> foldR (\<lambda>x acc. bindR (json_string x) (\<lambda>t. Inr (acc @ [t]))) vs []
                             | _ \<Rightarrow> Inl Assertion_failed)"

definition string_at :: "json \<Rightarrow> string \<Rightarrow> string res" where
  "string_at d key = bindR (json_at d key) json_string"

section \<open>State\<close>

record EventTriggure =
  driver :: string
  etMeta :: string
  etMatch :: string
  eventSubList :: "string list"
  eventPubList :: "string list"
  actionList :: "string list"

record evman =
  clientIdtoConfig :: "(string, EventTriggure option) std_map"   \<comment> \<open>\<open>None\<close> is the null pointer\<close>
  SubscribedClient :: int
  publishClient :: int
  ev_grp :: gm
  ev_cli :: clients
  ev_sent :: "(string \<times> rpc) list"
  ev_commands :: "string list"     \<comment> \<open>what was passed to \<open>system\<close>\<close>

section \<open>Operations\<close>

definition eventPublish :: "int \<Rightarrow> string list \<Rightarrow> string \<Rightarrow> evman \<Rightarrow> evman res option" where
  "eventPublish random pubList meta s =
     (case vec_at pubList 0 of
        Inl e \<Rightarrow> Some (Inl e)
      | Inr eventMsg \<Rightarrow>
          map_option (\<lambda>r. bindR r (\<lambda>(greeter, g, c).
            let s1 = s\<lparr>ev_grp := g, ev_cli := c\<rparr>
            in case greeter of
                 None \<Rightarrow> Inr s1
               | Some addr \<Rightarrow> bindR (chk_int (publishClient s1 + 1)) (\<lambda>_.
                   Inr (s1\<lparr>ev_sent := ev_sent s1 @ [(addr, RpcPublish (publish_request pubList ''CLIENT'' meta ''NAME''))]\<rparr>))))
            (getClientFromEvent random eventMsg (ev_grp s) (ev_cli s)))"

definition eventSubscribe ::
  "int \<Rightarrow> EventTriggure \<Rightarrow> string \<Rightarrow> string \<Rightarrow> string \<Rightarrow> evman \<Rightarrow> evman res option" where
  "eventSubscribe random etrigger clientID notifyAddr eventMsg s =
     map_option (\<lambda>r. bindR r (\<lambda>(greeter, g, c).
       let s1 = s\<lparr>ev_grp := g, ev_cli := c\<rparr>
       in case greeter of
            None \<Rightarrow> Inr s1
          | Some addr \<Rightarrow> bindR (chk_int (SubscribedClient s1 + 1)) (\<lambda>n.
              Inr (s1\<lparr>SubscribedClient := n,
                      ev_sent := ev_sent s1 @ [(addr, RpcSubscribe (subscribe_request (eventSubList etrigger) clientID
                        notifyAddr ''CLIENT'' (etMatch etrigger) (etMeta etrigger)))]\<rparr>))))
       (getClientFromEvent random eventMsg (ev_grp s) (ev_cli s))"

definition jsonIfTriggerorOperator :: "(string \<Rightarrow> json) \<Rightarrow> string \<Rightarrow> int res" where
  "jsonIfTriggerorOperator parse jsonbuffer =
     bindR (string_at (parse jsonbuffer) ''type'') (\<lambda>type.
       Inr (if type = ''TRIGGER'' then 1 else if type = ''OPERATOR'' then 2 else - 1))"

text \<open>The loop joins and removes the queued threads in order; the result is the order of the joins.\<close>

function waitthreadFinish :: "'t list \<Rightarrow> 't list" where
  "waitthreadFinish q = (case list_pop q of None \<Rightarrow> [] | Some (currpid, q') \<Rightarrow> currpid # waitthreadFinish q')"
  by pat_completeness auto

termination
  by (relation "measure length") (auto dest: deque.pop_SomeD)

declare waitthreadFinish.simps [simp del]

text \<open>What \<open>outputTriggure\<close> prints; an unknown id inserts a null pointer, which is then followed.\<close>

definition outputTriggure :: "string \<Rightarrow> evman \<Rightarrow> string list res" where
  "outputTriggure clientId s =
     (case map_at None clientId (clientIdtoConfig s) of
        None \<Rightarrow> Inl (Undefined Null_pointer)
      | Some et \<Rightarrow> Inr ((''driver '' @ driver et) # map ((@) ''sub event '') (eventSubList et) @ map ((@) ''action '') (actionList et)))"

definition fakeaddNewConfig ::
  "string \<Rightarrow> string \<Rightarrow> string list \<Rightarrow> string list \<Rightarrow> string list \<Rightarrow> evman \<Rightarrow> EventTriggure \<times> string \<times> evman" where
  "fakeaddNewConfig uuid driver' subs pubs actions s =
     (let triggure = \<lparr>driver = driver', etMeta = [], etMatch = ''NAME'', eventSubList = subs, eventPubList = pubs, actionList = actions\<rparr>
      in (triggure, uuid, s\<lparr>clientIdtoConfig := map_put uuid (Some triggure) (clientIdtoConfig s)\<rparr>))"

definition addNewConfig :: "(string \<Rightarrow> json) \<Rightarrow> string \<Rightarrow> string \<Rightarrow> evman \<Rightarrow> (EventTriggure \<times> string \<times> evman) res" where
  "addNewConfig parse uuid jsonbuffer s =
     (let d = parse jsonbuffer
      in bindR (string_at d ''matchType'') (\<lambda>matchtype.
         bindR (string_at d ''driver'') (\<lambda>driver'.
         bindR (string_at d ''metaData'') (\<lambda>meta.
         bindR (json_at d ''eventSubList'') (\<lambda>subs.
         bindR (json_at d ''actionList'') (\<lambda>acts.
         bindR (json_strings subs) (\<lambda>ss.
         bindR (json_strings acts) (\<lambda>as.
           let triggure = \<lparr>driver = driver', etMeta = meta, etMatch = matchtype, eventSubList = ss, eventPubList = [], actionList = as\<rparr>
           in Inr (triggure, uuid, s\<lparr>clientIdtoConfig := map_put uuid (Some triggure) (clientIdtoConfig s)\<rparr>)))))))))"

section \<open>Starting tasks\<close>

text \<open>\<open>sprintf\<close> into a buffer of 200 bytes.\<close>

definition sprintf200 :: "string \<Rightarrow> string res" where
  "sprintf200 t = (if length t < 200 then Inr t else Inl (Undefined Buffer_overflow))"

definition localTaskStart :: "string \<Rightarrow> string \<Rightarrow> string list \<Rightarrow> string list res" where
  "localTaskStart batchPath meta cmds =
     bindR (getTsFromRawMeta meta) (\<lambda>ts.
       bindR (if ts > 0 then bindR (chk_int (ts + 1)) (\<lambda>n. bindR (c_rem n 10) (\<lambda>r. Inr (r = 0))) else Inr False) (\<lambda>start.
         if start then bindR (sprintf200 (batchPath @ '' '' @ to_string ts)) (\<lambda>command. Inr (cmds @ [command]))
         else Inr cmds))"

definition slurmTaskStart :: "string \<Rightarrow> int res" where
  "slurmTaskStart batchPath = bindR (sprintf200 (''sbatch '' @ batchPath)) (\<lambda>command. Inr 0)"

definition startAction :: "string \<Rightarrow> string \<Rightarrow> evman \<Rightarrow> evman res" where
  "startAction clientID meta s =
     (case map_of (clientIdtoConfig s) clientID of
        None \<Rightarrow> Inr s
      | Some None \<Rightarrow> Inl (Undefined Null_pointer)
      | Some (Some etrigger) \<Rightarrow>
          if driver etrigger = ''local''
          then bindR (foldR (\<lambda>a cmds. localTaskStart a meta cmds) (actionList etrigger) (ev_commands s))
                 (\<lambda>cmds. Inr (s\<lparr>ev_commands := cmds\<rparr>))
          else Inr s)"

section \<open>Lemmas\<close>

lemma json_strings_collect:
  "foldR (\<lambda>x acc. bindR (json_string x) (\<lambda>t. Inr (acc @ [t]))) (map JString ts) acc = Inr (acc @ ts)"
  by (induction ts arbitrary: acc) (auto simp: json_string_def)

lemma json_strings_array: "json_strings (JArray (map JString ts)) = Inr ts"
  by (simp add: json_strings_def json_strings_collect)

text \<open>The document the configuration files hold for a trigger.\<close>

definition config_json :: "EventTriggure \<Rightarrow> json" where
  "config_json et = JObject [(''matchType'', JString (etMatch et)), (''eventSubList'', JArray (map JString (eventSubList et))),
     (''driver'', JString (driver et)), (''metaData'', JString (etMeta et)), (''actionList'', JArray (map JString (actionList et)))]"

lemma addNewConfig_config:
  assumes "parse buf = config_json et"
  shows "addNewConfig parse uuid buf s = Inr (et\<lparr>eventPubList := []\<rparr>, uuid,
     s\<lparr>clientIdtoConfig := map_put uuid (Some (et\<lparr>eventPubList := []\<rparr>)) (clientIdtoConfig s)\<rparr>)"
  using assms by (cases et) (simp add: addNewConfig_def Let_def config_json_def string_at_def json_at_def json_string_def json_strings_array)

lemma tenth_iff: "0 < ts \<Longrightarrow> (ts + 1) mod 10 = 0 \<longleftrightarrow> ts mod 10 = (9::int)"
  by presburger

lemma localTaskStart_outcome:
  assumes "is_int32 ts" and "ts \<noteq> INT_MAX" and "length (batchPath @ '' '' @ to_string ts) < 200" and "CHR ''%'' \<notin> set grid"
  shows "localTaskStart batchPath (render_meta grid ts) cmds =
    Inr (cmds @ (if 0 < ts \<and> ts mod 10 = 9 then [batchPath @ '' '' @ to_string ts] else []))"
proof -
  have ts: "getTsFromRawMeta (render_meta grid ts) = Inr ts" using assms by (simp add: getTs_render)
  show ?thesis
  proof (cases "0 < ts")
    case True
    with assms(1,2) have "is_int32 (ts + 1)" by (simp add: is_int32_def INT_MIN_def)
    with True assms(3) show ?thesis
      by (simp add: localTaskStart_def ts c_rem_nonneg tenth_iff sprintf200_def)
  next
    case False
    then show ?thesis by (simp add: localTaskStart_def ts)
  qed
qed

lemma waitthreadFinish_all: "waitthreadFinish q = q"
  by (induction q) (simp_all add: waitthreadFinish.simps list_pop_def)

text \<open>The client a process talks to for an event: one of the table of the event's group.\<close>

lemma getClientFromEvent_member:
  assumes "getClientFromEvent random ev g c = Some (Inr (r, g', c'))" and "0 \<le> random"
  shows "\<exists>dir. getClusterDirFromEventMsg ev g = Inr dir
    \<and> (case r of None \<Rightarrow> map_at [] dir (workerClients c') = [] | Some a \<Rightarrow> a \<in> snd ` set (map_at [] dir (workerClients c')))"
proof -
  obtain dir where dir: "getClusterDirFromEventMsg ev g = Inr dir"
    using assms(1) by (cases "getClusterDirFromEventMsg ev g") (auto simp: getClientFromEvent_def)
  obtain g1 c1 where gc: "(if map_of (workerClients c) dir = None then initClients dir g c else Some (g, c)) = Some (g1, c1)"
    using assms(1) dir by (auto simp: getClientFromEvent_def bind_eq_Some_conv)
  let ?c2 = "c1\<lparr>workerClients := map_touch [] dir (workerClients c1)\<rparr>"
  let ?cs = "map_at [] dir (workerClients ?c2)"
  have "if ?cs = [] then r = None \<and> c' = ?c2 else c' = ?c2 \<and> (\<exists>a. r = Some a \<and> a \<in> snd ` set ?cs)"
  proof (cases "?cs = []")
    case True
    then show ?thesis using assms(1) dir gc by (auto simp: getClientFromEvent_def Let_def)
  next
    case False
    let ?n = "int (length ?cs)"
    have "getServerIdFromAddr random ?n = Inr (random mod ?n)" and b: "0 \<le> random mod ?n" "nat (random mod ?n) < length ?cs"
      using False assms(2) by (auto simp: getServerIdFromAddr_def c_rem_nonneg nat_less_iff)
    then have "r = Some (snd (?cs ! nat (random mod ?n)))" "c' = ?c2"
      using assms(1) dir gc False by (auto simp: getClientFromEvent_def Let_def)
    with False b show ?thesis by auto
  qed
  with dir show ?thesis by (force split: if_splits)
qed

section \<open>Properties\<close>

text \<open>C25: from a configuration file to the tasks it starts. A trigger read from its JSON form is registered
  under the new id exactly as written, and a later notification under that id with grid metadata
  of time stamp \<open>ts\<close> starts each of its local actions once, in order, when \<open>ts\<close> is positive and ends in 9,
  and nothing otherwise; a document without its driver aborts the process.\<close>

theorem config_to_tasks:
  assumes "is_int32 ts" and "ts \<noteq> INT_MAX" and "CHR ''%'' \<notin> set grid" and "driver et = ''local''"
    and "\<forall>a \<in> set (actionList et). length (a @ '' '' @ to_string ts) < 200"
    and "parse buf = config_json et" and "parse bad = JObject ms" and "map_of ms ''driver'' = None"
  shows "(\<exists>s1. addNewConfig parse uuid buf s = Inr (et\<lparr>eventPubList := []\<rparr>, uuid, s1)
      \<and> startAction uuid (render_meta grid ts) s1 =
          Inr (s1\<lparr>ev_commands := ev_commands s @ (if 0 < ts \<and> ts mod 10 = 9 then map (\<lambda>a. a @ '' '' @ to_string ts) (actionList et) else [])\<rparr>))
    \<and> \<not> returns (addNewConfig parse uuid bad s)"
proof
  let ?et = "et\<lparr>eventPubList := []\<rparr>" and ?P = "0 < ts \<and> ts mod 10 = 9"
  let ?s1 = "s\<lparr>clientIdtoConfig := map_put uuid (Some ?et) (clientIdtoConfig s)\<rparr>"
  have "foldR (\<lambda>a cmds. localTaskStart a (render_meta grid ts) cmds) as cmds = Inr (cmds @ (if ?P then map (\<lambda>a. a @ '' '' @ to_string ts) as else []))"
    if "\<forall>a \<in> set as. length (a @ '' '' @ to_string ts) < 200" for as cmds
    using that by (induction as arbitrary: cmds) (simp_all add: localTaskStart_outcome[OF assms(1,2) _ assms(3)])
  from this[OF assms(5)] have "startAction uuid (render_meta grid ts) ?s1 =
      Inr (?s1\<lparr>ev_commands := ev_commands s @ (if ?P then map (\<lambda>a. a @ '' '' @ to_string ts) (actionList et) else [])\<rparr>)"
    by (simp add: startAction_def assms(4))
  with addNewConfig_config[of parse buf et, OF assms(6)] show "\<exists>s1. addNewConfig parse uuid buf s = Inr (?et, uuid, s1)
      \<and> startAction uuid (render_meta grid ts) s1 =
          Inr (s1\<lparr>ev_commands := ev_commands s @ (if ?P then map (\<lambda>a. a @ '' '' @ to_string ts) (actionList et) else [])\<rparr>)"
    by blast
  show "\<not> returns (addNewConfig parse uuid bad s)"
    using assms(7,8) by (simp add: addNewConfig_def Let_def returns_bindR string_at_def json_at_def bindR_eq_Inr)
qed

definition demo_evman :: evman where
  "demo_evman = \<lparr>clientIdtoConfig = [], SubscribedClient = 0, publishClient = 0,
     ev_grp = \<lparr>gm_requiredGroupSize = 1, gm_groupNumber = 1, gm_rank = 0, SERVERSTATUS = [], GM_CLUSTERDIR = [],
       workerAddrMap = [], coordinatorAddrSet = [], loadCoordinatorMap = [],
       gm_os = \<lparr>files = (\<lambda>_. None), fds = [], fdLimit = 0\<rparr>\<rparr>,
     ev_cli = \<lparr>workerClients = [(''./multinodeip/cluster0'', [(''h:1'', ''h:1''), (''h:2'', ''h:2'')])], coordinatorClients = []\<rparr>,
     ev_sent = [], ev_commands = []\<rparr>"

definition demo_trigger :: EventTriggure where
  "demo_trigger = \<lparr>driver = ''local'', etMeta = [], etMatch = ''NAME'', eventSubList = [''e''], eventPubList = [],
     actionList = [''./a'', ''./b'']\<rparr>"

definition demo_parse :: "string \<Rightarrow> json" where
  "demo_parse b = (if b = ''good'' then config_json demo_trigger else JObject [])"

theorem config_to_tasks_witness:
  "\<exists>s1 s2. addNewConfig demo_parse ''id'' ''good'' demo_evman = Inr (demo_trigger, ''id'', s1)
      \<and> startAction ''id'' (render_meta ''GRID[]'' 19) s1 = Inr s2 \<and> ev_commands s2 = [''./a 19'', ''./b 19'']"
proof -
  have n: "to_string 19 = ''19''" by code_simp
  have t: "demo_trigger\<lparr>eventPubList := []\<rparr> = demo_trigger" "driver demo_trigger = ''local''"
    "actionList demo_trigger = [''./a'', ''./b'']" "ev_commands demo_evman = []"
    by (simp_all add: demo_trigger_def demo_evman_def)
  from config_to_tasks[of 19 "''GRID[]''" demo_trigger demo_parse "''good''" "''bad''" "[]" "''id''" demo_evman]
  show ?thesis by (auto simp: t n demo_parse_def is_int32_def INT_MIN_def INT_MAX_def)
qed

text \<open>A client sends each publication to one server of the event's group. \<open>eventPublish\<close> asks the placement
  for the group of the first event; when the table of that group has clients it sends exactly one
  request, to one of them, with all events; when it has none it sends nothing. An empty list of events
  reads past the end of a vector.\<close>

theorem eventPublish_one_server:
  assumes "0 \<le> random" and "eventPublish random (e # es) meta s = Some (Inr s')"
  shows "\<exists>dir. getClusterDirFromEventMsg e (ev_grp s) = Inr dir
    \<and> (if map_at [] dir (workerClients (ev_cli s')) = [] then ev_sent s' = ev_sent s
       else \<exists>a \<in> snd ` set (map_at [] dir (workerClients (ev_cli s'))).
              ev_sent s' = ev_sent s @ [(a, RpcPublish (publish_request (e # es) ''CLIENT'' meta ''NAME''))])
    \<and> eventPublish random [] meta s = Some (Inl (Undefined Vector_index))"
proof -
  obtain r g c where g: "getClientFromEvent random e (ev_grp s) (ev_cli s) = Some (Inr (r, g, c))"
    using assms(2) by (auto simp: eventPublish_def bindR_eq_Inr)
  have "ev_cli s' = c \<and> (case r of None \<Rightarrow> ev_sent s' = ev_sent s
      | Some a \<Rightarrow> ev_sent s' = ev_sent s @ [(a, RpcPublish (publish_request (e # es) ''CLIENT'' meta ''NAME''))])"
    using assms(2) by (auto simp: eventPublish_def g bindR_eq_Inr Let_def split: option.splits)
  moreover obtain dir where "getClusterDirFromEventMsg e (ev_grp s) = Inr dir"
    "case r of None \<Rightarrow> map_at [] dir (workerClients c) = [] | Some a \<Rightarrow> a \<in> snd ` set (map_at [] dir (workerClients c))"
    using getClientFromEvent_member[OF g assms(1)] by blast
  ultimately show ?thesis
    by (intro exI[of _ dir]) (cases r; force simp: eventPublish_def)
qed

theorem eventPublish_one_server_witness:
  "\<exists>s'. eventPublish 7 [''e_3''] ''m'' demo_evman = Some (Inr s') \<and> ev_sent s' \<noteq> []"
proof -
  have "(case eventPublish 7 [''e_3''] ''m'' demo_evman of Some (Inr s') \<Rightarrow>
      workerClients (ev_cli s') = [(''./multinodeip/cluster0'', [(''h:1'', ''h:1''), (''h:2'', ''h:2'')])] | _ \<Rightarrow> False)
    \<and> getClusterDirFromEventMsg ''e_3'' (ev_grp demo_evman) = Inr ''./multinodeip/cluster0'' \<and> ev_sent demo_evman = []" by code_simp
  then obtain s' where "eventPublish 7 [''e_3''] ''m'' demo_evman = Some (Inr s')"
    "workerClients (ev_cli s') = [(''./multinodeip/cluster0'', [(''h:1'', ''h:1''), (''h:2'', ''h:2'')])]"
    "getClusterDirFromEventMsg ''e_3'' (ev_grp demo_evman) = Inr ''./multinodeip/cluster0''" "ev_sent demo_evman = []"
    by (auto split: option.splits sum.splits)
  with eventPublish_one_server[of 7 "''e_3''" "[]" "''m''" demo_evman s'] show ?thesis by (auto simp: map_at_def)
qed

end
