(* ===== verification/EventNotify.thy ===== *)
theory EventNotify
  imports EventManager
begin

text \<open>
  The test client \<open>src/tests/eventNotify.cpp\<close>, which drives the whole system: a process of a given rank registers
  triggers, subscribes to their events and publishes them. It composes the event manager with the placement of
  events on groups. The identifiers drawn by \<open>uuid_generate\<close> and the numbers of \<open>rand()\<close> are functions of the
  iteration; logging, sleeping and the thread of the notify server have no effect on the state.
\<close>

section \<open>Operations\<close>

definition fake_event :: "evman \<Rightarrow> nat \<Rightarrow> string" where
  "fake_event s i = to_string (gm_rank (ev_grp s)) @ ''fakeSub_'' @ to_string (int i)"

definition fake_action :: "nat \<Rightarrow> string" where
  "fake_action i = ''fakeaction'' @ to_string (int i)"

definition fakePublishTest :: "(nat \<Rightarrow> int) \<Rightarrow> int \<Rightarrow> evman \<Rightarrow> evman res option" where
  "fakePublishTest random pubSize s =
     foldRO (\<lambda>i s.
       let meta = to_string (gm_rank (ev_grp s)) @ ''metadataTest'' @ to_string (int i)
       in map_option (\<lambda>r. bindR r (\<lambda>s1.
            bindR (chk_int (publishClient s1 + 1)) (\<lambda>n. Inr (s1\<lparr>publishClient := n\<rparr>))))
          (eventPublish (random i) [fake_event s i] meta s)) [0..<nat pubSize] s"

text \<open>Registering a trigger and subscribing to it; an empty id is not subscribed.\<close>

definition register_fake ::
  "int \<Rightarrow> string \<Rightarrow> string \<Rightarrow> string list \<Rightarrow> string list \<Rightarrow> string list \<Rightarrow> string \<Rightarrow> evman \<Rightarrow> evman res option" where
  "register_fake random uuid notifyAddr subs pubs actions ev s =
     (let (etrigger, clientID, s1) = fakeaddNewConfig uuid ''local'' subs pubs actions s
      in if clientID \<noteq> [] then eventSubscribe random etrigger clientID notifyAddr ev s1 else Some (Inr s1))"

definition onePubMultipleSameSub ::
  "(nat \<Rightarrow> int) \<Rightarrow> int \<Rightarrow> (nat \<Rightarrow> string) \<Rightarrow> int \<Rightarrow> string \<Rightarrow> evman \<Rightarrow> evman res option" where
  "onePubMultipleSameSub random pubRandom uuid subSize notifyAddr s =
     (let testEvent = ''fakeOnePubMultipleSub_0''
      in Option.bind (foldRO (\<lambda>i. register_fake (random i) (uuid i) notifyAddr [testEvent] [testEvent] [fake_action i] testEvent)
             [0..<nat subSize] s) (\<lambda>r.
         case r of
           Inl e \<Rightarrow> Some (Inl e)
         | Inr s1 \<Rightarrow> if gm_rank (ev_grp s1) = 0 then eventPublish pubRandom [testEvent] ''metadataTest'' s1 else Some (Inr s1)))"

definition multipleSub ::
  "int \<Rightarrow> (nat \<Rightarrow> int) \<Rightarrow> string \<Rightarrow> int \<Rightarrow> string \<Rightarrow> evman \<Rightarrow> evman res option" where
  "multipleSub subRandom random uuid subSize notifyAddr s =
     (let subs = map (fake_event s) [0..<nat subSize];
          actions = map fake_action [0..<nat subSize];
          (etrigger, clientID, s1) = fakeaddNewConfig uuid ''local'' subs [] actions s
      in Option.bind
           (if clientID \<noteq> []
            then (case vec_at subs 0 of
                    Inl e \<Rightarrow> Some (Inl e)
                  | Inr ev \<Rightarrow> eventSubscribe subRandom etrigger clientID notifyAddr ev s1)
            else Some (Inr s1)) (\<lambda>r.
           case r of
             Inl e \<Rightarrow> Some (Inl e)
           | Inr s2 \<Rightarrow> foldRO (\<lambda>j s. eventPublish (random j) [subs ! j] ''metadataTest'' s) [0..<nat subSize] s2))"

definition fakegothroughFolderRegister ::
  "(nat \<Rightarrow> int) \<Rightarrow> (nat \<Rightarrow> int) \<Rightarrow> (nat \<Rightarrow> string) \<Rightarrow> int \<Rightarrow> string \<Rightarrow> evman \<Rightarrow> evman res option" where
  "fakegothroughFolderRegister subRandom pubRandom uuid subSize notifyAddr s =
     Option.bind
       (foldRO (\<lambda>i s. register_fake (subRandom i) (uuid i) notifyAddr [fake_event s i] [] [fake_action i] (fake_event s i) s)
          [0..<nat subSize] s) (\<lambda>r.
       case r of Inl e \<Rightarrow> Some (Inl e) | Inr s1 \<Rightarrow> fakePublishTest pubRandom subSize s1)"

text \<open>\<open>main\<close> up to its idle loop, with the address of the notify server; the result of a wrong number of arguments
  is the unchanged state.\<close>

definition main_notify ::
  "(nat \<Rightarrow> int) \<Rightarrow> (nat \<Rightarrow> int) \<Rightarrow> (nat \<Rightarrow> string) \<Rightarrow> int \<Rightarrow> string list \<Rightarrow> string \<Rightarrow> evman \<Rightarrow> evman res option" where
  "main_notify subRandom pubRandom uuid world_rank argv notifyAddr s =
     (if length argv \<noteq> 7 then Some (Inr s)
      else case
        bindR (atoi (argv ! 1)) (\<lambda>subSize.
        bindR (atoi (argv ! 2)) (\<lambda>requiredNotifiedNum.
        bindR (atoi (argv ! 4)) (\<lambda>groupNumber.
        bindR (atoi (argv ! 5)) (\<lambda>groupSize.
        bindR (atoi (argv ! 6)) (\<lambda>logLevel. Inr (subSize, groupNumber, groupSize))))))
      of
        Inl e \<Rightarrow> Some (Inl e)
      | Inr (subSize, groupNumber, groupSize) \<Rightarrow>
          fakegothroughFolderRegister subRandom pubRandom uuid subSize notifyAddr
            (s\<lparr>ev_grp := (ev_grp s)\<lparr>gm_groupNumber := groupNumber, gm_requiredGroupSize := groupSize, gm_rank := world_rank\<rparr>\<rparr>))"

section \<open>Lemmas\<close>

definition group_dir :: "evman \<Rightarrow> int \<Rightarrow> string" where
  "group_dir s k = ''./multinodeip/cluster'' @ to_string (k mod gm_groupNumber (ev_grp s))"

definition group_table :: "evman \<Rightarrow> int \<Rightarrow> (string, string) std_map" where
  "group_table s k = map_at [] (group_dir s k) (workerClients (ev_cli s))"

text \<open>The server a request about event \<open>i\<close> goes to.\<close>

definition server_for :: "evman \<Rightarrow> int \<Rightarrow> nat \<Rightarrow> string" where
  "server_for s random i = (let t = group_table s (int i) in snd (t ! nat (random mod int (length t))))"

text \<open>The process knows servers of every group.\<close>

definition connected :: "evman \<Rightarrow> bool" where
  "connected s \<longleftrightarrow> 0 < gm_groupNumber (ev_grp s)
     \<and> (\<forall>k. 0 \<le> k \<longrightarrow> map_of (workerClients (ev_cli s)) (group_dir s k) \<noteq> None \<and> group_table s k \<noteq> [])"

lemma fake_event_dir:
  assumes "0 < gm_groupNumber (ev_grp s)" "is_int32 (int i)"
  shows "getClusterDirFromEventMsg (fake_event s i) (ev_grp s) = Inr (group_dir s (int i))"
proof -
  have free: "CHR ''_'' \<notin> set (to_string (gm_rank (ev_grp s)) @ ''fakeSub'')"
    using to_string_free[of "CHR ''_''"] by (simp add: is_digit_def)
  have "fake_event s i = (to_string (gm_rank (ev_grp s)) @ ''fakeSub'') @ ''_'' @ to_string (int i)"
    by (simp add: fake_event_def)
  then show ?thesis
    using conjunct1[OF event_placement[OF assms(1)], rule_format, of "to_string (gm_rank (ev_grp s)) @ ''fakeSub''" "int i"] free assms(2)
    by (simp add: group_dir_def)
qed

lemma client_of_event:
  assumes "connected s" "is_int32 (int i)" "0 \<le> random"
  shows "getClientFromEvent random (fake_event s i) (ev_grp s) (ev_cli s) = Some (Inr (Some (server_for s random i), ev_grp s, ev_cli s))"
proof -
  obtain t where t: "map_of (workerClients (ev_cli s)) (group_dir s (int i)) = Some t"
    using assms(1) unfolding connected_def by (metis not_None_eq of_nat_0_le_iff)
  then have tab: "group_table s (int i) = t" by (simp add: group_table_def map_at_def)
  then have "t \<noteq> []" using assms(1) by (auto simp: connected_def)
  then have len: "0 < int (length t)" by simp
  have "getClusterDirFromEventMsg (fake_event s i) (ev_grp s) = Inr (group_dir s (int i))"
    using assms(1,2) by (intro fake_event_dir) (simp_all add: connected_def)
  moreover have "getServerIdFromAddr random (int (length t)) = Inr (random mod int (length t))"
    using assms(3) len by (simp add: getServerIdFromAddr_def c_rem_nonneg)
  moreover have "0 \<le> random mod int (length t)" "nat (random mod int (length t)) < length t" using len by (simp_all add: nat_less_iff)
  ultimately show ?thesis using t \<open>t \<noteq> []\<close> tab
    by (simp add: getClientFromEvent_def map_at_def Let_def server_for_def)
qed

lemma publish_connected:
  assumes "connected s" "is_int32 (int i)" "0 \<le> random" "is_int32 (publishClient s + 1)"
  shows "eventPublish random [fake_event s i] meta s =
    Some (Inr (s\<lparr>ev_sent := ev_sent s @ [(server_for s random i, RpcPublish (publish_request [fake_event s i] ''CLIENT'' meta ''NAME''))]\<rparr>))"
  using assms by (simp add: eventPublish_def client_of_event Let_def)

lemma subscribe_connected:
  assumes "connected s" "is_int32 (int i)" "0 \<le> random" "is_int32 (SubscribedClient s + 1)"
  shows "eventSubscribe random et cl notifyAddr (fake_event s i) s =
    Some (Inr (s\<lparr>SubscribedClient := SubscribedClient s + 1,
      ev_sent := ev_sent s @ [(server_for s random i, RpcSubscribe (subscribe_request (eventSubList et) cl notifyAddr ''CLIENT'' (etMatch et) (etMeta et)))]\<rparr>))"
  using assms by (simp add: eventSubscribe_def client_of_event Let_def)

text \<open>The loops change the log of requests, the counters and the triggers, and nothing the placement depends on.\<close>

definition same_groups :: "evman \<Rightarrow> evman \<Rightarrow> bool" where
  "same_groups s s' \<longleftrightarrow> ev_grp s' = ev_grp s \<and> ev_cli s' = ev_cli s"

lemma same_groups_simps:
  assumes "same_groups s s'"
  shows "connected s' = connected s" "server_for s' = server_for s" "fake_event s' = fake_event s"
  using assms by (simp_all add: same_groups_def connected_def server_for_def group_table_def group_dir_def fake_event_def fun_eq_iff)

definition subscription_of :: "evman \<Rightarrow> (nat \<Rightarrow> int) \<Rightarrow> (nat \<Rightarrow> string) \<Rightarrow> string \<Rightarrow> nat \<Rightarrow> string \<times> rpc" where
  "subscription_of s random uuid notifyAddr i =
     (server_for s (random i) i, RpcSubscribe (subscribe_request [fake_event s i] (uuid i) notifyAddr ''CLIENT'' ''NAME'' []))"

definition publication_of :: "evman \<Rightarrow> (nat \<Rightarrow> int) \<Rightarrow> string \<Rightarrow> nat \<Rightarrow> string \<times> rpc" where
  "publication_of s random meta i =
     (server_for s (random i) i, RpcPublish (publish_request [fake_event s i] ''CLIENT'' meta ''NAME''))"

definition test_meta :: "evman \<Rightarrow> nat \<Rightarrow> string" where
  "test_meta s i = to_string (gm_rank (ev_grp s)) @ ''metadataTest'' @ to_string (int i)"

lemma subscribe_loop:
  assumes "connected s" "\<And>i. 0 \<le> random i" "\<And>i. uuid i \<noteq> []" "0 \<le> SubscribedClient s" "SubscribedClient s + int n \<le> INT_MAX"
  shows "\<exists>s'. foldRO (\<lambda>i s. register_fake (random i) (uuid i) notifyAddr [fake_event s i] [] [fake_action i] (fake_event s i) s) [0..<n] s = Some (Inr s')
    \<and> same_groups s s' \<and> ev_sent s' = ev_sent s @ map (subscription_of s random uuid notifyAddr) [0..<n]
    \<and> publishClient s' = publishClient s \<and> SubscribedClient s' = SubscribedClient s + int n"
proof (rule foldRO_upt)
  let ?P = "\<lambda>i s'. same_groups s s' \<and> ev_sent s' = ev_sent s @ map (subscription_of s random uuid notifyAddr) [0..<i]
    \<and> publishClient s' = publishClient s \<and> SubscribedClient s' = SubscribedClient s + int i"
  show "?P 0 s" by (simp add: same_groups_def)
  fix i s1 assume i: "i < n" and P: "?P i s1"
  let ?s2 = "snd (snd (fakeaddNewConfig (uuid i) ''local'' [fake_event s1 i] [] [fake_action i] s1))"
  have same: "same_groups s ?s2" using P by (simp add: fakeaddNewConfig_def same_groups_def Let_def)
  have fit: "is_int32 (int i)" "is_int32 (SubscribedClient ?s2 + 1)"
    using assms(4,5) i P by (simp_all add: is_int32_def INT_MIN_def fakeaddNewConfig_def Let_def)
  have "connected ?s2" using assms(1) same_groups_simps[OF same] by simp
  from subscribe_connected[OF this fit(1) assms(2)[of i] fit(2)] P assms(3)[of i] same_groups_simps[of s s1] same_groups_simps[OF same]
  show "\<exists>s'. register_fake (random i) (uuid i) notifyAddr [fake_event s1 i] [] [fake_action i] (fake_event s1 i) s1 = Some (Inr s') \<and> ?P (Suc i) s'"
    by (simp add: register_fake_def fakeaddNewConfig_def same_groups_def subscription_of_def Let_def)
qed

lemma publish_loop:
  assumes "connected s" "\<And>i. 0 \<le> random i" "0 \<le> publishClient s" "publishClient s + int n \<le> INT_MAX"
  shows "\<exists>s'. fakePublishTest random (int n) s = Some (Inr s')
    \<and> same_groups s s' \<and> ev_sent s' = ev_sent s @ map (\<lambda>i. publication_of s random (test_meta s i) i) [0..<n]
    \<and> publishClient s' = publishClient s + int n"
  unfolding fakePublishTest_def nat_int
proof (rule foldRO_upt)
  let ?P = "\<lambda>i s'. same_groups s s' \<and> ev_sent s' = ev_sent s @ map (\<lambda>i. publication_of s random (test_meta s i) i) [0..<i]
    \<and> publishClient s' = publishClient s + int i"
  show "?P 0 s" by (simp add: same_groups_def)
  fix i s1 assume i: "i < n" and P: "?P i s1"
  then have same: "same_groups s s1" by simp
  have fit: "is_int32 (int i)" "is_int32 (publishClient s1 + 1)"
    using assms(3,4) i P by (simp_all add: is_int32_def INT_MIN_def)
  have "connected s1" using assms(1) same_groups_simps[OF same] by simp
  note pub = publish_connected[OF this fit(1) assms(2)[of i] fit(2)]
  show "\<exists>s'. (let meta = to_string (gm_rank (ev_grp s1)) @ ''metadataTest'' @ to_string (int i)
       in map_option (\<lambda>r. bindR r (\<lambda>s1. bindR (chk_int (publishClient s1 + 1)) (\<lambda>n. Inr (s1\<lparr>publishClient := n\<rparr>))))
          (eventPublish (random i) [fake_event s1 i] meta s1)) = Some (Inr s') \<and> ?P (Suc i) s'"
    unfolding Let_def pub using P fit(2) same_groups_simps[OF same] by (simp add: same_groups_def publication_of_def test_meta_def)
qed

section \<open>Properties\<close>

text \<open>C26: What the test client asks of the servers, end to end. A process that knows servers of every group registers
  and subscribes to its events one by one, then publishes them one by one: it sends exactly one subscription and one
  publication for each event, in that order, and both requests about event \<open>i\<close> go to servers of the group
  \<open>i mod groups\<close>, so every event is counted where its subscription is.\<close>

theorem register_then_publish:
  assumes "connected s" "\<And>i. 0 \<le> subRandom i" "\<And>i. 0 \<le> pubRandom i" "\<And>i. uuid i \<noteq> []"
    and "0 \<le> SubscribedClient s" "SubscribedClient s + int n \<le> INT_MAX"
    and "0 \<le> publishClient s" "publishClient s + int n \<le> INT_MAX"
  shows "\<exists>s'. fakegothroughFolderRegister subRandom pubRandom uuid (int n) notifyAddr s = Some (Inr s')
    \<and> ev_sent s' = ev_sent s
        @ map (\<lambda>i. (server_for s (subRandom i) i,
            RpcSubscribe (subscribe_request [fake_event s i] (uuid i) notifyAddr ''CLIENT'' ''NAME'' []))) [0..<n]
        @ map (\<lambda>i. (server_for s (pubRandom i) i,
            RpcPublish (publish_request [fake_event s i] ''CLIENT'' (test_meta s i) ''NAME''))) [0..<n]
    \<and> (\<forall>i r. 0 \<le> r \<longrightarrow> server_for s r i \<in> snd ` set (group_table s (int i)))"
proof -
  obtain s1 where s1: "foldRO (\<lambda>i s. register_fake (subRandom i) (uuid i) notifyAddr [fake_event s i] [] [fake_action i] (fake_event s i) s) [0..<n] s = Some (Inr s1)"
      "same_groups s s1" "ev_sent s1 = ev_sent s @ map (subscription_of s subRandom uuid notifyAddr) [0..<n]"
      "publishClient s1 = publishClient s"
    using subscribe_loop[of s subRandom uuid n notifyAddr] assms(1,2,4,5,6) by blast
  have "connected s1" using assms(1) same_groups_simps[OF s1(2)] by simp
  with publish_loop[of s1 pubRandom n] assms(3,7,8) s1(4) obtain s2 where
    s2: "fakePublishTest pubRandom (int n) s1 = Some (Inr s2)"
      "ev_sent s2 = ev_sent s1 @ map (\<lambda>i. publication_of s1 pubRandom (test_meta s1 i) i) [0..<n]" by auto
  have "test_meta s1 = test_meta s" using s1(2) by (simp add: test_meta_def same_groups_def fun_eq_iff)
  then have "ev_sent s2 = ev_sent s @ map (subscription_of s subRandom uuid notifyAddr) [0..<n]
      @ map (\<lambda>i. publication_of s pubRandom (test_meta s i) i) [0..<n]"
    using s2(2) s1(3) same_groups_simps[OF s1(2)] by (simp add: publication_of_def)
  moreover have "server_for s r i \<in> snd ` set (group_table s (int i))" if "0 \<le> r" for r i
  proof -
    have "0 < int (length (group_table s (int i)))" using assms(1) by (simp add: connected_def)
    then have "nat (r mod int (length (group_table s (int i)))) < length (group_table s (int i))" by (simp add: nat_less_iff)
    then show ?thesis unfolding server_for_def Let_def by (intro imageI nth_mem)
  qed
  moreover have "fakegothroughFolderRegister subRandom pubRandom uuid (int n) notifyAddr s = Some (Inr s2)"
    using s1(1) s2(1) by (simp add: fakegothroughFolderRegister_def)
  ultimately show ?thesis unfolding subscription_of_def publication_of_def by blast
qed

definition demo_groups :: evman where
  "demo_groups = demo_evman\<lparr>ev_grp := (ev_grp demo_evman)\<lparr>gm_groupNumber := 2\<rparr>,
     ev_cli := (ev_cli demo_evman)\<lparr>workerClients :=
       [(''./multinodeip/cluster0'', [(''h:1'', ''h:1'')]), (''./multinodeip/cluster1'', [(''h:2'', ''h:2'')])]\<rparr>\<rparr>"

lemma demo_groups_connected: "connected demo_groups"
proof -
  have n: "gm_groupNumber (ev_grp demo_groups) = 2" by (simp add: demo_groups_def)
  have str: "to_string 0 = ''0''" "to_string 1 = ''1''" by code_simp+
  have "map_of (workerClients (ev_cli demo_groups)) (group_dir demo_groups k) \<noteq> None \<and> group_table demo_groups k \<noteq> []" for k
  proof -
    have "k mod 2 = 0 \<or> k mod 2 = 1" by presburger
    then consider "k mod 2 = 0" | "k mod 2 = 1" by blast
    then show ?thesis
      by cases (simp_all add: group_table_def group_dir_def n str, simp_all add: demo_groups_def map_at_def)
  qed
  then show ?thesis by (simp add: connected_def n)
qed

lemma register_then_publish_witness:
  "\<exists>s'. fakegothroughFolderRegister (\<lambda>_. 7) (\<lambda>_. 4) (\<lambda>i. ''u'') (int 3) ''h:9'' demo_groups = Some (Inr s') \<and> length (ev_sent s') = 6"
proof -
  have z: "SubscribedClient demo_groups = 0" "publishClient demo_groups = 0" "ev_sent demo_groups = []"
    by (simp_all add: demo_groups_def demo_evman_def)
  show ?thesis
    using register_then_publish[of demo_groups "\<lambda>_. 7" "\<lambda>_. 4" "\<lambda>i. ''u''" 3 "''h:9''"] demo_groups_connected
    by (auto simp: z INT_MAX_def)
qed

text \<open>A subscription to several events is sent to one group only: \<open>multipleSub\<close> subscribes to all its events at a
  server of the first event's group and publishes each event to the group of that event. With more than one group
  the publication of the second event goes to a group that has no server in common with the first, so it is not
  sent to any server that could have got the subscription.\<close>

theorem multiple_events_split:
  assumes "connected s" "0 \<le> subRandom" "\<And>i. 0 \<le> random i" "uuid \<noteq> []"
    and "is_int32 (SubscribedClient s + 1)" "is_int32 (publishClient s + 1)" "0 < n" "int n \<le> INT_MAX"
  shows "\<exists>s'. multipleSub subRandom random uuid (int n) notifyAddr s = Some (Inr s')
    \<and> ev_sent s' = ev_sent s
        @ [(server_for s subRandom 0,
            RpcSubscribe (subscribe_request (map (fake_event s) [0..<n]) uuid notifyAddr ''CLIENT'' ''NAME'' []))]
        @ map (publication_of s random ''metadataTest'') [0..<n]
    \<and> (1 < n \<and> snd ` set (group_table s 0) \<inter> snd ` set (group_table s 1) = {} \<longrightarrow>
        server_for s (random 1) 1 \<notin> snd ` set (group_table s 0))"
proof -
  define et where "et = fst (fakeaddNewConfig uuid ''local'' (map (fake_event s) [0..<n]) [] (map fake_action [0..<n]) s)"
  define s1 where "s1 = snd (snd (fakeaddNewConfig uuid ''local'' (map (fake_event s) [0..<n]) [] (map fake_action [0..<n]) s))"
  have add: "fakeaddNewConfig uuid ''local'' (map (fake_event s) [0..<n]) [] (map fake_action [0..<n]) s = (et, uuid, s1)"
    by (simp add: et_def s1_def fakeaddNewConfig_def Let_def)
  have same: "same_groups s s1" "ev_sent s1 = ev_sent s" "SubscribedClient s1 = SubscribedClient s" "publishClient s1 = publishClient s"
    by (simp_all add: s1_def same_groups_def fakeaddNewConfig_def Let_def)
  note keep = same_groups_simps[OF same(1)]
  have et: "eventSubList et = map (fake_event s) [0..<n]" "etMatch et = ''NAME''" "etMeta et = []"
    by (simp_all add: et_def fakeaddNewConfig_def Let_def)
  define s2 where "s2 = s1\<lparr>SubscribedClient := SubscribedClient s1 + 1, ev_sent := ev_sent s1 @ [(server_for s subRandom 0,
      RpcSubscribe (subscribe_request (map (fake_event s) [0..<n]) uuid notifyAddr ''CLIENT'' ''NAME'' []))]\<rparr>"
  have sub: "eventSubscribe subRandom et uuid notifyAddr (fake_event s 0) s1 = Some (Inr s2)"
    using subscribe_connected[of s1 0 subRandom et uuid notifyAddr] assms(1,2,5) same keep
    by (simp add: et s2_def is_int32_def INT_MIN_def INT_MAX_def)
  have same2: "same_groups s s2" "publishClient s2 = publishClient s" using same by (simp_all add: s2_def same_groups_def)
  let ?P = "\<lambda>i s'. same_groups s s' \<and> publishClient s' = publishClient s
    \<and> ev_sent s' = ev_sent s2 @ map (publication_of s random ''metadataTest'') [0..<i]"
  have "\<exists>s'. foldRO (\<lambda>j s3. eventPublish (random j) [map (fake_event s) [0..<n] ! j] ''metadataTest'' s3) [0..<n] s2 = Some (Inr s') \<and> ?P n s'"
  proof (rule foldRO_upt)
    show "?P 0 s2" using same2 by simp
    fix i s3 assume i: "i < n" and P: "?P i s3"
    then have fit: "is_int32 (int i)" "is_int32 (publishClient s3 + 1)" and k: "same_groups s s3"
      using assms(6,8) by (simp_all add: is_int32_def INT_MIN_def)
    have "connected s3" using assms(1) same_groups_simps[OF k] by simp
    from publish_connected[OF this fit(1) assms(3)[of i] fit(2), of "''metadataTest''"] P i same_groups_simps[OF k]
    show "\<exists>s'. eventPublish (random i) [map (fake_event s) [0..<n] ! i] ''metadataTest'' s3 = Some (Inr s') \<and> ?P (Suc i) s'"
      by (simp add: same_groups_def publication_of_def)
  qed
  then obtain s' where s': "foldRO (\<lambda>j s3. eventPublish (random j) [map (fake_event s) [0..<n] ! j] ''metadataTest'' s3) [0..<n] s2 = Some (Inr s')"
    "ev_sent s' = ev_sent s2 @ map (publication_of s random ''metadataTest'') [0..<n]" by blast
  have "multipleSub subRandom random uuid (int n) notifyAddr s = Some (Inr s')"
    using add sub s'(1) assms(4,7) by (simp add: multipleSub_def Let_def)
  moreover have "server_for s (random 1) 1 \<in> snd ` set (group_table s 1)"
  proof -
    have "0 < int (length (group_table s 1))" using assms(1) by (simp add: connected_def)
    then have "nat (random 1 mod int (length (group_table s 1))) < length (group_table s 1)" by (simp add: nat_less_iff)
    then show ?thesis unfolding server_for_def Let_def by (simp add: image_iff) (metis nth_mem surjective_pairing)
  qed
  ultimately show ?thesis using s'(2) same(2) by (intro exI[of _ s']) (auto simp: s2_def)
qed

lemma multiple_events_split_witness:
  "\<exists>s'. multipleSub 7 (\<lambda>_. 4) ''u'' (int 2) ''h:9'' demo_groups = Some (Inr s') \<and> length (ev_sent s') = 3
     \<and> server_for demo_groups 4 1 \<notin> snd ` set (group_table demo_groups 0)"
proof -
  have z: "SubscribedClient demo_groups = 0" "publishClient demo_groups = 0" "ev_sent demo_groups = []"
    by (simp_all add: demo_groups_def demo_evman_def)
  have str: "to_string 0 = ''0''" "to_string 1 = ''1''" by code_simp+
  have d: "group_table demo_groups 0 = [(''h:1'', ''h:1'')]" "group_table demo_groups 1 = [(''h:2'', ''h:2'')]"
    by (simp_all add: group_table_def group_dir_def demo_groups_def str map_at_def)
  show ?thesis
    using multiple_events_split[of demo_groups 7 "\<lambda>_. 4" "''u''" 2 "''h:9''"] demo_groups_connected
    by (auto simp: z INT_MAX_def is_int32_def INT_MIN_def d)
qed

end
