(* ===== verification/DoubleMath.thy ===== *)
theory DoubleMath
  imports Double
begin

text \<open>
  More of the \<open>double\<close> arithmetic of \<open>Double\<close>, for the particle simulation: rounding commutes with negation, a
  small term is absorbed by a large one, and the square root of the C library, which is the exact root rounded to
  53 significant bits. What the simulation relies on of the root is the locale \<open>double_root\<close>.
\<close>

section \<open>Rounding\<close>

lemma nearest_even_minus: "nearest_even (- r) = - nearest_even r"
proof -
  define f d where "f = \<lfloor>r\<rfloor>" and "d = r - of_int f"
  have d: "0 \<le> d" "d < 1" unfolding d_def f_def by linarith+
  have r: "r = of_int f + d" by (simp add: d_def)
  show ?thesis
  proof (cases "d = 0")
    case True
    then have "r = of_int f" using r by simp
    then show ?thesis using nearest_even_int[of f] nearest_even_int[of "- f"] by simp
  next
    case False
    then have fl: "\<lfloor>- r\<rfloor> = - f - 1" using d r by (intro floor_unique) auto
    have rest: "- r - of_int (- f - 1) = 1 - d" using r by simp
    have "nearest_even (- r) = (if 1 - d < 1 / 2 then - f - 1 else if 1 - d > 1 / 2 then - f else if even f then - f else - f - 1)"
      unfolding nearest_even_def Let_def fl rest by simp
    moreover have "nearest_even r = (if d < 1 / 2 then f else if d > 1 / 2 then f + 1 else if even f then f else f + 1)"
      by (simp add: nearest_even_def Let_def d_def f_def)
    ultimately show ?thesis by auto
  qed
qed

lemma nearest_even_near: "\<bar>r - of_int n\<bar> < 1 / 2 \<Longrightarrow> nearest_even r = n"
proof -
  assume "\<bar>r - of_int n\<bar> < 1 / 2"
  then have "\<bar>of_int (nearest_even r) - of_int n\<bar> < (1 :: rat)" using nearest_even_err[of r] by linarith
  then have "\<bar>of_int (nearest_even r - n)\<bar> < (1 :: rat)" by simp
  then show ?thesis by (simp flip: of_int_abs)
qed

lemma fl_minus [simp]: "fl (- x) = - fl x"
proof -
  have "exponent_of (- x) = exponent_of x" by (simp add: exponent_of_def)
  then show ?thesis by (simp add: fl_def Let_def nearest_even_minus)
qed

lemma fl_zero [simp]: "fl 0 = 0"
  by (simp add: fl_def)

lemma fl_bounds: "\<bar>fl x\<bar> \<le> \<bar>x\<bar> * (1 + 1 / 2 ^ 53)" "\<bar>x\<bar> * (1 - 1 / 2 ^ 53) \<le> \<bar>fl x\<bar>"
proof -
  have "\<bar>fl x - x\<bar> \<le> \<bar>x\<bar> * (1 / 2 ^ 53)" using dbl.rnd_err[of x] by simp
  then show "\<bar>fl x\<bar> \<le> \<bar>x\<bar> * (1 + 1 / 2 ^ 53)" "\<bar>x\<bar> * (1 - 1 / 2 ^ 53) \<le> \<bar>fl x\<bar>"
    unfolding distrib_left right_diff_distrib by linarith+
qed

lemma fl_pos: "0 < x \<Longrightarrow> 0 < fl x"
proof -
  assume "0 < x"
  moreover have "\<bar>fl x - x\<bar> \<le> x / 2 ^ 53" using dbl.rnd_err[of x] \<open>0 < x\<close> by simp
  moreover have "x / 2 ^ 53 < x" using \<open>0 < x\<close> by simp
  ultimately show "0 < fl x" by linarith
qed

lemma fl_nonneg: "0 \<le> x \<Longrightarrow> 0 \<le> fl x"
  using fl_pos[of x] by (cases "x = 0") auto

lemma fl_pos_bounds:
  assumes "0 \<le> x"
  shows "fl x \<le> x * (1 + 1 / 2 ^ 53)" "x * (1 - 1 / 2 ^ 53) \<le> fl x"
  using fl_bounds[of x] fl_nonneg[OF assms] assms by simp_all

lemma exponent_of_less: "x \<noteq> 0 \<Longrightarrow> \<bar>x\<bar> < (2 :: rat) powi (exponent_of x + 1)"
proof -
  assume "x \<noteq> 0"
  obtain p q where pq: "quotient_of \<bar>x\<bar> = (p, q)" by (cases "quotient_of \<bar>x\<bar>")
  have q: "0 < q" and x: "\<bar>x\<bar> = of_int p / of_int q"
    using quotient_of_denom_pos[OF pq] quotient_of_div[OF pq] by simp_all
  have "0 < of_int p / (of_int q :: rat)" using \<open>x \<noteq> 0\<close> by (simp flip: x)
  with q have p: "0 < p" by (simp add: zero_less_divide_iff)
  have "of_int p / of_int q < (2 :: rat) powi bitlen p / 2 powi (bitlen q - 1)"
    using bitlen_rat[OF p] bitlen_rat[OF q] p q by (intro frac_less) auto
  also have "\<dots> = 2 powi (bitlen p - bitlen q + 1)" by (simp add: power_int_diff power_int_add)
  finally have "\<bar>x\<bar> < 2 powi (bitlen p - bitlen q + 1)" by (simp add: x)
  then show "\<bar>x\<bar> < 2 powi (exponent_of x + 1)" by (auto simp: exponent_of_def pq Let_def not_le)
qed

text \<open>The exponent is the position of the leading bit, so doubling a number shifts it and rounding keeps the order.\<close>

lemma exponent_of_eq:
  assumes "(2 :: rat) powi e \<le> \<bar>x\<bar>" "\<bar>x\<bar> < 2 powi (e + 1)"
  shows "exponent_of x = e"
proof -
  have "(0 :: rat) < 2 powi e" by simp
  then have "0 < \<bar>x\<bar>" using assms(1) by (rule order_less_le_trans)
  then have "x \<noteq> 0" by simp
  then have "(2 :: rat) powi exponent_of x < 2 powi (e + 1)" "(2 :: rat) powi e < 2 powi (exponent_of x + 1)"
    using exponent_of_le exponent_of_less assms by fastforce+
  then have "exponent_of x < e + 1" "e < exponent_of x + 1"
    using power_int_increasing[of _ _ "2 :: rat"] by (meson not_le one_le_numeral)+
  then show ?thesis by simp
qed

lemma fl_scale: "fl (x * 2 powi k) = fl x * 2 powi k"
proof (cases "x = 0")
  case False
  have add: "(2 :: rat) powi (i + k) = 2 powi i * 2 powi k" for i by (simp add: power_int_add)
  have k: "0 < (2 :: rat) powi k" by simp
  have "exponent_of (x * 2 powi k) = exponent_of x + k"
  proof (rule exponent_of_eq)
    show "2 powi (exponent_of x + k) \<le> \<bar>x * 2 powi k\<bar>" using exponent_of_le[OF False] unfolding add by (simp add: abs_mult)
    have "(2 :: rat) powi (exponent_of x + k + 1) = 2 powi (exponent_of x + 1) * 2 powi k"
      using add[of "exponent_of x + 1"] by (simp only: ac_simps)
    then show "\<bar>x * 2 powi k\<bar> < 2 powi (exponent_of x + k + 1)"
      using exponent_of_less[OF False] k by (simp only: abs_mult abs_of_pos mult_less_cancel_right_disj) simp
  qed
  then have "exponent_of (x * 2 powi k) - 52 = exponent_of x - 52 + k" by simp
  then have u: "(2 :: rat) powi (exponent_of (x * 2 powi k) - 52) = 2 powi (exponent_of x - 52) * 2 powi k" by (simp only: add)
  have "x * 2 powi k / (u * 2 powi k) = x / u" for u :: rat using k by simp
  then show ?thesis using False k unfolding fl_def Let_def u by simp
qed simp

lemma fl_double [simp]: "fl (2 * x) = 2 * fl x"
  using fl_scale[of x 1] by (simp add: mult.commute)

lemma fl_float: "\<bar>m\<bar> \<le> 2 ^ 53 \<Longrightarrow> fl (of_int m * 2 powi k) = of_int m * 2 powi k"
proof (cases "\<bar>m\<bar> = 2 ^ 53")
  case True
  have "fl (2 * of_int (2 ^ 52)) = 2 * of_int (2 ^ 52)" unfolding fl_double by (subst fl_int) auto
  then have p: "fl (of_int (2 ^ 53)) = of_int (2 ^ 53)" by simp
  have "m = 2 ^ 53 \<or> m = - (2 ^ 53)" using True by linarith
  then have "fl (of_int m) = of_int m" using p fl_minus[of "of_int (2 ^ 53)"] by (auto simp del: of_int_power)
  then show ?thesis by (simp add: fl_scale)
next
  case False
  assume "\<bar>m\<bar> \<le> 2 ^ 53"
  then show ?thesis using False by (simp add: fl_scale fl_int)
qed

lemma nearest_even_mono: "r \<le> s \<Longrightarrow> nearest_even r \<le> nearest_even s"
proof -
  assume rs: "r \<le> s"
  have range: "\<lfloor>t\<rfloor> \<le> nearest_even t" "nearest_even t \<le> \<lfloor>t\<rfloor> + 1" for t by (auto simp: nearest_even_def Let_def)
  show ?thesis
  proof (cases "\<lfloor>r\<rfloor> = \<lfloor>s\<rfloor>")
    case True
    then show ?thesis using rs by (auto simp: nearest_even_def Let_def)
  next
    case False
    then have "\<lfloor>r\<rfloor> + 1 \<le> \<lfloor>s\<rfloor>" using floor_mono[OF rs] by simp
    then show ?thesis using range(2)[of r] range(1)[of s] by simp
  qed
qed

lemma fl_mono_pos:
  assumes "0 < x" "x \<le> y"
  shows "fl x \<le> fl y"
proof -
  define ex ey where "ex = exponent_of x" and "ey = exponent_of y"
  have nz: "x \<noteq> 0" "y \<noteq> 0" and ab: "\<bar>x\<bar> = x" "\<bar>y\<bar> = y" using assms by auto
  have x: "2 powi ex \<le> x" "x < 2 powi (ex + 1)" and y: "2 powi ey \<le> y"
    using exponent_of_le[OF nz(1)] exponent_of_less[OF nz(1)] exponent_of_le[OF nz(2)] by (simp_all add: ex_def ey_def ab)
  have "(2 :: rat) powi ex < 2 powi (ey + 1)" using x(1) assms(2) exponent_of_less[OF nz(2)] by (simp add: ey_def ab)
  then have le: "ex \<le> ey" using power_int_increasing[of "ey + 1" ex "2 :: rat"] by (cases "ex < ey + 1") auto
  have fx: "fl x = of_int (nearest_even (x / 2 powi (ex - 52))) * 2 powi (ex - 52)"
    and fy: "fl y = of_int (nearest_even (y / 2 powi (ey - 52))) * 2 powi (ey - 52)"
    using nz by (simp_all add: fl_def Let_def ex_def ey_def)
  show ?thesis
  proof (cases "ex = ey")
    case True
    have "nearest_even (x / 2 powi (ex - 52)) \<le> nearest_even (y / 2 powi (ex - 52))"
      using assms(2) by (intro nearest_even_mono divide_right_mono) auto
    then show ?thesis unfolding fx fy True by (intro mult_right_mono) auto
  next
    case False
    have x52: "(2 :: rat) powi (ex + 1) = of_int (2 ^ 53) * 2 powi (ex - 52)"
      using power_int_add[of "2 :: rat" "ex - 52" 53] by (simp add: algebra_simps)
    have y52: "(2 :: rat) powi ey = of_int (2 ^ 52) * 2 powi (ey - 52)"
      using power_int_add[of "2 :: rat" "ey - 52" 52] by (simp add: algebra_simps)
    have "x / 2 powi (ex - 52) \<le> of_int (2 ^ 53)" using x(2) unfolding x52 by (subst pos_divide_le_eq) simp_all
    then have "nearest_even (x / 2 powi (ex - 52)) \<le> 2 ^ 53" using nearest_even_mono nearest_even_int by metis
    then have "fl x \<le> 2 powi (ex + 1)" unfolding fx x52 by (intro mult_right_mono) (simp_all only: of_int_le_iff, simp)
    also have "\<dots> \<le> 2 powi ey" using False le by (intro power_int_increasing) auto
    also have "of_int (2 ^ 52) \<le> y / 2 powi (ey - 52)" using y unfolding y52 by (subst pos_le_divide_eq) simp_all
    then have "2 ^ 52 \<le> nearest_even (y / 2 powi (ey - 52))" using nearest_even_mono nearest_even_int by metis
    then have "2 powi ey \<le> fl y" unfolding fy y52 by (intro mult_right_mono) (simp_all only: of_int_le_iff, simp)
    finally show ?thesis .
  qed
qed

lemma fl_mono: "x \<le> y \<Longrightarrow> fl x \<le> fl y"
proof -
  assume xy: "x \<le> y"
  consider "0 < x" | "x \<le> 0" "0 \<le> y" | "y < 0" by linarith
  then show ?thesis
  proof cases
    case 2
    then show ?thesis using fl_nonneg[of y] fl_nonneg[of "- x"] by simp
  next
    case 3
    then show ?thesis using fl_mono_pos[of "- y" "- x"] xy by simp
  qed (use fl_mono_pos xy in blast)
qed

text \<open>A term smaller than a quarter of a unit in the last place of a \<open>double\<close> is absorbed.\<close>

lemma exponent_close:
  assumes "0 < x" "0 \<le> d" "d \<le> x / 2"
  shows "exponent_of (x - d) = exponent_of x \<or> exponent_of (x - d) = exponent_of x - 1"
proof -
  have pos: "0 < x - d" using assms by simp
  have "(2 :: rat) powi exponent_of (x - d) < 2 powi (exponent_of x + 1)"
    using exponent_of_le[of "x - d"] exponent_of_less[of x] pos assms by simp
  then have up: "exponent_of (x - d) \<le> exponent_of x"
    using power_int_increasing[of "exponent_of x + 1" "exponent_of (x - d)" "2 :: rat"]
    by (cases "exponent_of (x - d) < exponent_of x + 1") auto
  have half: "(2 :: rat) powi (exponent_of x - 1) = 2 powi exponent_of x / 2" by (simp add: power_int_diff)
  have "(2 :: rat) powi (exponent_of x - 1) \<le> x / 2" unfolding half using exponent_of_le[of x] assms(1) by simp
  also have "\<dots> \<le> x - d" using assms(3) by simp
  also have "\<dots> < 2 powi (exponent_of (x - d) + 1)" using exponent_of_less[of "x - d"] pos by simp
  finally have "exponent_of x - 1 < exponent_of (x - d) + 1"
    using power_int_increasing[of "exponent_of (x - d) + 1" "exponent_of x - 1" "2 :: rat"]
    by (cases "exponent_of x - 1 < exponent_of (x - d) + 1") auto
  with up show ?thesis by auto
qed

lemma fl_absorb:
  assumes x: "fl x = x" "0 < x" and d: "0 \<le> d" "d \<le> x / 2 ^ 55"
  shows "fl (x - d) = x"
proof -
  define u where "u = (2 :: rat) powi (exponent_of x - 52)"
  have u: "0 < u" by (simp add: u_def)
  obtain n where n: "x = of_int n * u" using x by (metis fl_def less_irrefl u_def)
  have "x / 2 ^ 55 \<le> x / 2" using x(2) by simp
  then have d2: "d \<le> x / 2" using d(2) by (rule order_trans[rotated])
  then have pos: "0 < x - d" using x(2) by simp
  have "x < 2 powi (exponent_of x + 1)" using exponent_of_less[of x] x(2) by simp
  also have "\<dots> = 2 ^ 53 * u"
    using power_int_add[of "2 :: rat" "exponent_of x - 52" 53] by (simp add: u_def algebra_simps)
  finally have small: "d < u / 4" using d(2) by simp
  show ?thesis
  proof (cases "exponent_of (x - d) = exponent_of x")
    case True
    have "nearest_even ((x - d) / u) = n"
      using small u d(1) by (intro nearest_even_near) (simp add: n diff_divide_distrib)
    moreover have "fl (x - d) = of_int (nearest_even ((x - d) / u)) * u"
      using pos by (simp add: fl_def Let_def True u_def)
    ultimately show ?thesis using n by simp
  next
    case False
    then have e: "exponent_of (x - d) = exponent_of x - 1" using exponent_close[OF x(2) d(1) d2] by simp
    have half: "(2 :: rat) powi (exponent_of (x - d) - 52) = u / 2"
      using power_int_diff[of "2 :: rat" "exponent_of x - 52" 1] by (simp add: e u_def algebra_simps)
    have "(x - d) / (u / 2) - of_int (2 * n) = - (2 * (d / u))" using u by (simp add: n diff_divide_distrib)
    moreover have "0 \<le> d / u" "d / u < 1 / 4" using small u d(1) by (simp_all add: divide_simps)
    ultimately have "nearest_even ((x - d) / (u / 2)) = 2 * n" by (intro nearest_even_near) linarith
    moreover have "fl (x - d) = of_int (nearest_even ((x - d) / (u / 2))) * (u / 2)"
      using pos by (simp only: fl_def Let_def half if_False less_irrefl split: if_splits) simp
    ultimately show ?thesis using n by simp
  qed
qed

section \<open>Square root\<close>

text \<open>The integer root, digit by digit in base 4, and the root rounded to 53 bits.\<close>

fun isqrt :: "nat \<Rightarrow> nat" where
  "isqrt n = (if n = 0 then 0 else let r = 2 * isqrt (n div 4) in if (r + 1) * (r + 1) \<le> n then r + 1 else r)"

declare isqrt.simps [simp del]

definition sqrt_fl :: "rat \<Rightarrow> rat" where
  "sqrt_fl x =
     (if x \<le> 0 then 0
      else let u = (2 :: rat) powi (exponent_of x div 2 - 52);
               y = x / (u * u);
               m = int (isqrt (nat \<lfloor>y\<rfloor>))
           in (if y < (of_int m + 1 / 2) * (of_int m + 1 / 2) then of_int m else of_int m + 1) * u)"

text \<open>The contract: the error is at most half a unit in the last place.\<close>

locale double_root =
  fixes root :: "rat \<Rightarrow> rat"
  assumes root_zero: "root 0 = 0"
    and root_pos: "0 < x \<Longrightarrow> 0 < root x"
    and root_low: "0 < x \<Longrightarrow> root x * root x * (1 - 1 / 2 ^ 53) * (1 - 1 / 2 ^ 53) \<le> x"
    and root_high: "0 < x \<Longrightarrow> x \<le> root x * root x * (1 + 1 / 2 ^ 53) * (1 + 1 / 2 ^ 53)"
begin

lemma root_less: "0 < x \<Longrightarrow> x < b * b \<Longrightarrow> 0 < b \<Longrightarrow> root x < 2 * b"
proof (rule ccontr)
  assume x: "0 < x" "x < b * b" "0 < b" and "\<not> root x < 2 * b"
  then have "2 * b * (2 * b) \<le> root x * root x" by (intro mult_mono) auto
  then have "2 * b * (2 * b) * ((1 - 1 / 2 ^ 53) * (1 - 1 / 2 ^ 53)) \<le> root x * root x * ((1 - 1 / 2 ^ 53) * (1 - 1 / 2 ^ 53))"
    by (intro mult_right_mono) auto
  also have "\<dots> \<le> x" using root_low[OF x(1)] by (simp only: mult.assoc)
  also have "\<dots> < b * b" by (rule x(2))
  finally have "b * b * (4 * ((1 - 1 / 2 ^ 53) * (1 - 1 / 2 ^ 53))) < b * b * 1" by (simp add: algebra_simps)
  moreover have "(1 :: rat) \<le> 4 * ((1 - 1 / 2 ^ 53) * (1 - 1 / 2 ^ 53))" by simp
  then have "b * b * 1 \<le> b * b * (4 * ((1 - 1 / 2 ^ 53) * (1 - 1 / 2 ^ 53)))"
    using x(3) by (intro mult_left_mono) auto
  ultimately show False by simp
qed

end

lemma isqrt_bounds: "isqrt n * isqrt n \<le> n \<and> n < (isqrt n + 1) * (isqrt n + 1)"
proof (induction n rule: isqrt.induct)
  case (1 n)
  show ?case
  proof (cases "n = 0")
    case True
    then show ?thesis by (simp add: isqrt.simps)
  next
    case False
    define r where "r = isqrt (n div 4)"
    have IH: "r * r \<le> n div 4" "n div 4 < (r + 1) * (r + 1)" using 1 False by (auto simp: r_def)
    have "4 * (r * r) \<le> n" using IH(1) by linarith
    moreover have "n < 4 * ((r + 1) * (r + 1))" using IH(2) by linarith
    ultimately show ?thesis using False
      by (subst (1 2 3 4) isqrt.simps) (simp add: Let_def algebra_simps flip: r_def)
  qed
qed


lemma sqrt_fl_bounds:
  assumes "0 < x"
  shows "0 < sqrt_fl x \<and> sqrt_fl x * sqrt_fl x * (1 - 1 / 2 ^ 53) * (1 - 1 / 2 ^ 53) \<le> x
    \<and> x \<le> sqrt_fl x * sqrt_fl x * (1 + 1 / 2 ^ 53) * (1 + 1 / 2 ^ 53)"
proof -
  define e where "e = exponent_of x div 2"
  define u where "u = (2 :: rat) powi (e - 52)"
  define y where "y = x / (u * u)"
  define m where "m = int (isqrt (nat \<lfloor>y\<rfloor>))"
  define t where "t = (if y < (of_int m + 1 / 2) * (of_int m + 1 / 2) then of_int m else of_int m + 1 :: rat)"
  have u: "0 < u" by (simp add: u_def)
  have s: "sqrt_fl x = t * u" using assms by (simp add: sqrt_fl_def Let_def t_def m_def y_def u_def e_def)
  have x: "x = y * (u * u)" using u by (simp add: y_def)
  have "(2 :: rat) powi (2 * e) \<le> 2 powi exponent_of x" by (intro power_int_increasing) (simp_all add: e_def)
  also have "\<dots> \<le> x" using exponent_of_le[of x] assms by simp
  also have "(2 :: rat) powi (2 * e) = 2 ^ 104 * (u * u)"
    using power_int_add[of "2 :: rat" "e - 52" "e - 52"] power_int_add[of "2 :: rat" "2 * e - 104" 104]
    by (simp add: u_def algebra_simps)
  finally have y: "2 ^ 104 \<le> y" using u unfolding x by simp
  then have fy: "0 \<le> \<lfloor>y\<rfloor>" by simp
  then obtain k where k: "\<lfloor>y\<rfloor> = int k" by (metis zero_le_imp_eq_int)
  have "int (isqrt k * isqrt k) \<le> int k" "int k < int ((isqrt k + 1) * (isqrt k + 1))"
    using isqrt_bounds[of k] by (simp_all only: of_nat_le_iff of_nat_less_iff)
  then have "m * m \<le> \<lfloor>y\<rfloor>" "\<lfloor>y\<rfloor> < (m + 1) * (m + 1)"
    by (simp_all add: m_def k algebra_simps)
  then have "of_int (m * m) \<le> y" "y < of_int ((m + 1) * (m + 1))" by (simp_all only: le_floor_iff floor_less_iff)
  then have my: "of_int m * of_int m \<le> y" "y < (of_int m + 1) * (of_int m + 1)" by simp_all
  have m0: "0 \<le> m" by (simp add: m_def)
  have "\<not> m < 2 ^ 52"
  proof
    assume "m < 2 ^ 52"
    then have "m + 1 \<le> 2 ^ 52" by simp
    then have "of_int (m + 1) \<le> (of_int (2 ^ 52) :: rat)" by (simp only: of_int_le_iff)
    then have "(of_int m + 1 :: rat) \<le> 2 ^ 52" by simp
    then have "(of_int m + 1 :: rat) * (of_int m + 1) \<le> 2 ^ 52 * 2 ^ 52" using m0 by (intro mult_mono) auto
    with my(2) y show False by simp
  qed
  then have m: "(2 :: rat) ^ 52 \<le> of_int m" by (metis not_le of_int_le_iff of_int_numeral of_int_power)
  then have t: "2 ^ 52 \<le> t" by (simp add: t_def)
  have near: "(t - 1 / 2) * (t - 1 / 2) \<le> y \<and> y \<le> (t + 1 / 2) * (t + 1 / 2)"
  proof (cases "y < (of_int m + 1 / 2) * (of_int m + 1 / 2)")
    case True
    have "(of_int m - 1 / 2 :: rat) * (of_int m - 1 / 2) \<le> of_int m * of_int m"
      using m by (intro mult_mono) auto
    then show ?thesis using True my(1) by (simp add: t_def)
  next
    case False
    have "(of_int m + 1 :: rat) * (of_int m + 1) \<le> (of_int m + 1 + 1 / 2) * (of_int m + 1 + 1 / 2)"
      using m by (intro mult_mono) auto
    then show ?thesis using False my(2) by (simp add: t_def add.commute)
  qed
  have d: "t * (1 - 1 / 2 ^ 53) \<le> t - 1 / 2" "t + 1 / 2 \<le> t * (1 + 1 / 2 ^ 53)" using t by simp_all
  have "t * (1 - 1 / 2 ^ 53) * (t * (1 - 1 / 2 ^ 53)) \<le> (t - 1 / 2) * (t - 1 / 2)"
    using d(1) t by (intro mult_mono) auto
  moreover have "(t + 1 / 2) * (t + 1 / 2) \<le> t * (1 + 1 / 2 ^ 53) * (t * (1 + 1 / 2 ^ 53))"
    using d(2) t by (intro mult_mono) auto
  ultimately have "t * (1 - 1 / 2 ^ 53) * (t * (1 - 1 / 2 ^ 53)) \<le> y" "y \<le> t * (1 + 1 / 2 ^ 53) * (t * (1 + 1 / 2 ^ 53))"
    using near order_trans by blast+
  then have "t * t * (1 - 1 / 2 ^ 53) * (1 - 1 / 2 ^ 53) * (u * u) \<le> y * (u * u)"
    "y * (u * u) \<le> t * t * (1 + 1 / 2 ^ 53) * (1 + 1 / 2 ^ 53) * (u * u)"
    using u by (intro mult_right_mono; simp only: ac_simps; simp)+
  then have "t * u * (t * u) * (1 - 1 / 2 ^ 53) * (1 - 1 / 2 ^ 53) \<le> x" "x \<le> t * u * (t * u) * (1 + 1 / 2 ^ 53) * (1 + 1 / 2 ^ 53)"
    unfolding x by (simp_all only: ac_simps)
  moreover have "0 < t * u" using t u by simp
  ultimately show ?thesis by (simp only: s)
qed

lemma fl_sqrt_fl [simp]: "fl (sqrt_fl x) = sqrt_fl x"
proof (cases "x \<le> 0")
  case False
  define e where "e = exponent_of x div 2"
  define u where "u = (2 :: rat) powi (e - 52)"
  define y where "y = x / (u * u)"
  define m where "m = int (isqrt (nat \<lfloor>y\<rfloor>))"
  have u: "0 < u" by (simp add: u_def)
  have "x < 2 powi (exponent_of x + 1)" using exponent_of_less[of x] False by simp
  also have "\<dots> \<le> 2 powi (2 * e + 2)" by (intro power_int_increasing) (simp_all add: e_def)
  also have "(2 :: rat) powi (2 * e + 2) = 2 ^ 106 * (u * u)"
    using power_int_add[of "2 :: rat" "e - 52" "e - 52"] power_int_add[of "2 :: rat" "2 * e - 104" 106]
    by (simp add: u_def algebra_simps)
  finally have y: "y < 2 ^ 106" using u by (simp add: y_def divide_less_eq)
  have "0 \<le> y" using False u by (simp add: y_def)
  then have fy: "0 \<le> \<lfloor>y\<rfloor>" "\<lfloor>y\<rfloor> < 2 ^ 106" using y by (simp_all add: floor_less_iff)
  have "m * m \<le> int (nat \<lfloor>y\<rfloor>)"
    using isqrt_bounds[of "nat \<lfloor>y\<rfloor>"] unfolding m_def by (metis of_nat_le_iff of_nat_mult)
  also have "\<dots> = \<lfloor>y\<rfloor>" using fy(1) by (rule int_nat_eq[THEN trans, OF if_P])
  also have "\<dots> < 2 ^ 53 * 2 ^ 53" using fy(2) by (simp only: power_add[symmetric]) simp_all
  finally have "m * m < 2 ^ 53 * 2 ^ 53" .
  then have "m < 2 ^ 53" using mult_mono[of "2 ^ 53" m "2 ^ 53" m] by (cases "m < 2 ^ 53") auto
  moreover have "0 \<le> m" by (simp add: m_def)
  ultimately have f: "fl (of_int m * u) = of_int m * u" "fl (of_int (m + 1) * u) = of_int (m + 1) * u"
    unfolding u_def by (intro fl_float; simp)+
  have "sqrt_fl x = (if y < (of_int m + 1 / 2) * (of_int m + 1 / 2) then of_int m * u else of_int (m + 1) * u)"
    using False by (simp add: sqrt_fl_def Let_def m_def y_def u_def e_def)
  then show ?thesis using f by presburger
qed (simp add: sqrt_fl_def)

interpretation droot: double_root sqrt_fl
  by unfold_locales (simp add: sqrt_fl_def, use sqrt_fl_bounds in blast, use sqrt_fl_bounds in blast, use sqrt_fl_bounds in blast)

end
