(* ===== verification/Particles.thy ===== *)
theory Particles
  imports DoubleMath OsFiles StdString "HOL-Library.Multiset"
begin

text \<open>
  The particle simulation that produces the program's events (\<open>example/simulation/common.cpp\<close>), and the
  copy of it the tests link against the publish client (\<open>tests/nbodytest/common.cpp\<close>). Each \<open>double\<close>
  operation is rounded by \<open>fl\<close>, in the order the expression is evaluated. The particles of the example
  live in memory from \<open>malloc\<close>, which holds no value until it is assigned: an acceleration is an \<open>option\<close>,
  \<open>None\<close> while it is uninitialised, and reading it then is undefined. \<open>lrand48\<close> and \<open>drand48\<close> are the
  functions \<open>lr\<close> and \<open>dr\<close> of the number of the call.
\<close>

section \<open>State\<close>

record particle =
  px :: rat
  py :: rat
  pz :: rat
  vx :: rat
  vy :: rat
  vz :: rat
  ax :: "rat option"
  ay :: "rat option"
  az :: "rat option"

text \<open>The statistics of one step, kept through the pointers \<open>dmin\<close>, \<open>davg\<close> and \<open>navg\<close>.\<close>

record stats =
  dmin :: rat
  davg :: rat
  navg :: int

definition density :: rat where "density = fl (1 / 2000)"
definition mass :: rat where "mass = fl (1 / 100)"
definition cutoff :: rat where "cutoff = fl (1 / 100)"
definition min_r :: rat where "min_r = fl (cutoff / 100)"
definition dt :: rat where "dt = fl (1 / 2000)"

section \<open>Initialisation\<close>

text \<open>\<open>set_size\<close> of a negative number gives no number; \<open>init_particles\<close> fails on it before the size is read.\<close>

definition set_size :: "int \<Rightarrow> rat" where
  "set_size n = sqrt_fl (fl (density * of_int n))"

definition coord :: "rat \<Rightarrow> int \<Rightarrow> int \<Rightarrow> rat" where
  "coord box a s = fl (fl (box * fl (1 + of_int a)) / of_int (1 + s))"

definition velocity :: "rat \<Rightarrow> rat" where
  "velocity d = fl (fl (d * 2) - 1)"

text \<open>One round of the placement loop: draw a free cell \<open>k\<close>, fill its slot with the last free one, and put
  particle \<open>i\<close> at the cell. \<open>a\<close> is what the memory of the accelerations holds.\<close>

definition seed ::
  "int \<Rightarrow> rat \<Rightarrow> int \<Rightarrow> int \<Rightarrow> int \<Rightarrow> (nat \<Rightarrow> nat) \<Rightarrow> (nat \<Rightarrow> rat \<times> rat \<times> rat) \<Rightarrow> rat option \<Rightarrow>
   nat \<Rightarrow> int list \<times> particle list \<Rightarrow> (int list \<times> particle list) res" where
  "seed n box sx sy sz lr dr a i s =
     (let (sh, ps) = s; j = lr i mod (nat n - i); (d1, d2, d3) = dr i in
      bindR (vec_at sh j) (\<lambda>k.
      bindR (vec_at sh (nat n - i - 1)) (\<lambda>l.
        Inr (sh[j := l],
             ps @ [\<lparr>px = coord box (k mod sx) sx, py = coord box (k div sx) sy, pz = coord box (k div sx) sz,
                    vx = velocity d1, vy = velocity d2, vz = velocity d3, ax = a, ay = a, az = a\<rparr>]))))"

definition init_particles ::
  "int \<Rightarrow> rat \<Rightarrow> (nat \<Rightarrow> nat) \<Rightarrow> (nat \<Rightarrow> rat \<times> rat \<times> rat) \<Rightarrow> particle list res" where
  "init_particles n box lr dr =
     (if n < 0 then Inl (Undefined Bad_conversion)
      else let sx = \<lceil>sqrt_fl (of_int n)\<rceil> in
        bindR (chk_int (n + sx)) (\<lambda>t.
          if sx = 0 then Inl (Undefined Division_by_zero)
          else let sy = (t - 1) div sx; sz = (t - 1) div sx in
            bindR (foldR (seed n box sx sy sz lr dr None) [0..<nat n] (map int [0..<nat n], [])) (\<lambda>s. Inr (snd s))))"

section \<open>Forces\<close>

text \<open>\<open>p.ax += d\<close>.\<close>

definition add_acc :: "rat option \<Rightarrow> rat \<Rightarrow> rat res" where
  "add_acc a d = (case a of None \<Rightarrow> Inl (Undefined Uninitialized) | Some a \<Rightarrow> Inr (fl (a + d)))"

definition dist2 :: "particle \<Rightarrow> particle \<Rightarrow> rat" where
  "dist2 p q =
     (let dx = px q - px p; dy = py q - py p; dz = pz q - pz p
      in fl (fl (fl (fl dx * fl dx) + fl (fl dy * fl dy)) + fl (fl dz * fl dz)))"

definition note_pair :: "rat \<Rightarrow> stats \<Rightarrow> stats res" where
  "note_pair r2 st =
     (if r2 = 0 then Inr st
      else let st1 = (if fl (r2 / fl (cutoff * cutoff)) < fl (dmin st * dmin st)
                      then st\<lparr>dmin := fl (sqrt_fl r2 / cutoff)\<rparr> else st)
           in bindR (chk_int (navg st + 1)) (\<lambda>n.
                Inr (st1\<lparr>davg := fl (davg st + fl (sqrt_fl r2 / cutoff)), navg := n\<rparr>)))"

definition coefficient :: "rat \<Rightarrow> rat" where
  "coefficient r2 =
     (let r2' = max r2 (fl (min_r * min_r)); r = sqrt_fl r2'
      in fl (fl (fl (1 - fl (cutoff / r)) / r2') / mass))"

definition apply_force :: "particle \<Rightarrow> particle \<Rightarrow> stats \<Rightarrow> (particle \<times> stats) res" where
  "apply_force p q st =
     (let dx = fl (px q - px p); dy = fl (py q - py p); dz = fl (pz q - pz p); r2 = dist2 p q in
      if fl (cutoff * cutoff) < r2 then Inr (p, st)
      else bindR (note_pair r2 st) (\<lambda>st'.
           let coef = coefficient r2 in
           bindR (add_acc (ax p) (fl (coef * dx))) (\<lambda>a.
           bindR (add_acc (ay p) (fl (coef * dy))) (\<lambda>b.
           bindR (add_acc (az p) (fl (coef * dz))) (\<lambda>c.
             Inr (p\<lparr>ax := Some a, ay := Some b, az := Some c\<rparr>, st'))))))"

section \<open>Motion\<close>

text \<open>\<open>v + a * dt\<close>, for an acceleration that may be uninitialised.\<close>

definition accelerate :: "rat \<Rightarrow> rat \<Rightarrow> rat option \<Rightarrow> rat res" where
  "accelerate h v a = (case a of None \<Rightarrow> Inl (Undefined Uninitialized) | Some a \<Rightarrow> Inr (fl (v + fl (a * h))))"

definition drift :: "rat \<Rightarrow> particle \<Rightarrow> particle res" where
  "drift h p =
     bindR (accelerate h (vx p) (ax p)) (\<lambda>u.
     bindR (accelerate h (vy p) (ay p)) (\<lambda>v.
     bindR (accelerate h (vz p) (az p)) (\<lambda>w.
       Inr (p\<lparr>vx := u, vy := v, vz := w,
              px := fl (px p + fl (u * h)), py := fl (py p + fl (v * h)), pz := fl (pz p + fl (w * h))\<rparr>))))"

definition outside :: "rat \<Rightarrow> rat \<Rightarrow> bool" where
  "outside box x \<longleftrightarrow> x < 0 \<or> box < x"

definition reflect :: "rat \<Rightarrow> rat \<Rightarrow> rat" where
  "reflect box x = (if x < 0 then - x else fl (fl (2 * box) - x))"

text \<open>A \<open>while\<close> loop that may not end: \<open>None\<close>.\<close>

partial_function (option) bounce :: "rat \<Rightarrow> rat \<Rightarrow> rat \<Rightarrow> (rat \<times> rat) option" where
  "bounce box x v = (if outside box x then bounce box (reflect box x) (- v) else Some (x, v))"

declare bounce.simps [code]

definition move :: "rat \<Rightarrow> particle \<Rightarrow> particle res option" where
  "move box p =
     (case drift dt p of
        Inl e \<Rightarrow> Some (Inl e)
      | Inr q \<Rightarrow>
          Option.bind (bounce box (px q) (vx q)) (\<lambda>(x, u).
          Option.bind (bounce box (py q) (vy q)) (\<lambda>(y, v).
          Option.bind (bounce box (pz q) (vz q)) (\<lambda>(z, w).
            Some (Inr (q\<lparr>px := x, vx := u, py := y, vy := v, pz := z, vz := w\<rparr>))))))"

section \<open>Output\<close>

text \<open>The decimal exponent of a number, its six significant digits (ties to even), and the conversion \<open>%g\<close>:
  a plain number for exponents from \<open>-4\<close> to 5, else one with an exponent; trailing zeros are dropped.\<close>

definition exponent10 :: "rat \<Rightarrow> int" where
  "exponent10 x =
     (let (p, q) = quotient_of \<bar>x\<bar>; k = int (length (to_string p)) - int (length (to_string q))
      in if (10 :: rat) powi k \<le> \<bar>x\<bar> then k else k - 1)"

definition drop_zeros :: "string \<Rightarrow> string" where
  "drop_zeros ds = rev (dropWhile (\<lambda>c. c = CHR ''0'') (rev ds))"

definition point :: "string \<Rightarrow> string \<Rightarrow> string" where
  "point ds fs = ds @ (if drop_zeros fs = [] then [] else ''.'' @ drop_zeros fs)"

definition format_g :: "rat \<Rightarrow> string" where
  "format_g x =
     (if x = 0 then ''0''
      else let e0 = exponent10 x; m0 = nearest_even (\<bar>x\<bar> / 10 powi (e0 - 5));
               (m, e) = (if m0 = 1000000 then (100000, e0 + 1) else (m0, e0));
               ds = to_string m
           in (if x < 0 then ''-'' else []) @
              (if e < - 4 \<or> 6 \<le> e
               then point (take 1 ds) (drop 1 ds) @ ''e'' @ (if e < 0 then ''-'' else ''+'') @
                    (if \<bar>e\<bar> < 10 then ''0'' else []) @ to_string \<bar>e\<bar>
               else if e < 0 then point ''0'' (replicate (nat (- e - 1)) CHR ''0'' @ ds)
               else point (take (nat e + 1) ds) (drop (nat e + 1) ds)))"

definition row :: "particle \<Rightarrow> string" where
  "row p = format_g (px p) @ '','' @ format_g (py p) @ '','' @ format_g (pz p) @ [CHR 0x0A]"

definition csv_header :: string where
  "csv_header = ''x coord, y coord, z coord'' @ [CHR 0x0A]"

text \<open>The static flag \<open>first\<close> is passed and returned with the text written.\<close>

definition save :: "bool \<Rightarrow> particle list \<Rightarrow> string \<times> bool" where
  "save first ps = ((if first then csv_header else []) @ concat (map row ps), False)"

section \<open>Command line\<close>

definition find_option :: "string list \<Rightarrow> string \<Rightarrow> int" where
  "find_option argv opt =
     (case filter (\<lambda>i. argv ! i = opt) [1..<length argv] of [] \<Rightarrow> - 1 | i # _ \<Rightarrow> int i)"

definition read_int :: "string list \<Rightarrow> string \<Rightarrow> int \<Rightarrow> int res" where
  "read_int argv opt default_value =
     (let iplace = find_option argv opt in
      if 0 \<le> iplace \<and> iplace < int (length argv) - 1 then atoi (argv ! (nat iplace + 1)) else Inr default_value)"

definition read_string :: "string list \<Rightarrow> string \<Rightarrow> string option \<Rightarrow> string option" where
  "read_string argv opt default_value =
     (let iplace = find_option argv opt in
      if 0 \<le> iplace \<and> iplace < int (length argv) - 1 then Some (argv ! (nat iplace + 1)) else default_value)"

text \<open>\<open>read_timer\<close> from the time of its first call (seconds and microseconds) and the current time.\<close>

definition read_timer :: "int \<times> int \<Rightarrow> int \<times> int \<Rightarrow> rat" where
  "read_timer start now =
     (case (start, now) of ((s0, u0), (s1, u1)) \<Rightarrow>
        fl (fl (of_int (s1 - s0)) + fl (fl (1 / 1000000) * of_int (u1 - u0))))"

section \<open>The copy of the tests\<close>

text \<open>A tenth of the time step; the accelerations are assigned when a particle is created; a third side of
  its own; and a wall is tested once per step.\<close>

definition dt_test :: rat where "dt_test = fl (1 / 20000)"

definition init_particles_test ::
  "int \<Rightarrow> rat \<Rightarrow> (nat \<Rightarrow> nat) \<Rightarrow> (nat \<Rightarrow> rat \<times> rat \<times> rat) \<Rightarrow> particle list res" where
  "init_particles_test n box lr dr =
     (if n < 0 then Inl (Undefined Bad_conversion)
      else let sx = \<lceil>sqrt_fl (of_int n)\<rceil> in
        bindR (chk_int (n + sx)) (\<lambda>t.
          if sx = 0 then Inl (Undefined Division_by_zero)
          else let sy = (t - 1) div sx in
            bindR (chk_int (n + sy)) (\<lambda>t'.
              if sy = 0 then Inl (Undefined Division_by_zero)
              else let sz = (t' - 1) div sy in
                bindR (foldR (seed n box sx sy sz lr dr (Some dt_test)) [0..<nat n] (map int [0..<nat n], []))
                  (\<lambda>s. Inr (snd s)))))"

definition bounce_once :: "rat \<Rightarrow> rat \<Rightarrow> rat \<Rightarrow> rat \<times> rat" where
  "bounce_once box x v = (if outside box x then (reflect box x, - v) else (x, v))"

definition move_one_test :: "rat \<Rightarrow> particle \<Rightarrow> particle res" where
  "move_one_test box p =
     bindR (drift dt_test p) (\<lambda>q.
       let (x, u) = bounce_once box (px q) (vx q);
           (y, v) = bounce_once box (py q) (vy q);
           (z, w) = bounce_once box (pz q) (vz q)
       in Inr (q\<lparr>px := x, vx := u, py := y, vy := v, pz := z, vz := w\<rparr>))"

definition move_test :: "rat \<Rightarrow> particle list \<Rightarrow> particle list res" where
  "move_test box ps =
     foldR (\<lambda>i qs. bindR (move_one_test box (qs ! i)) (\<lambda>q. Inr (qs[i := q]))) [0..<length ps] ps"

definition save_test :: "particle list \<Rightarrow> string" where
  "save_test ps = concat (map row ps)"

section \<open>Lemmas: the grid\<close>

text \<open>A rounded product of positive terms stays within two roundings of the exact value.\<close>

lemma coord_bounds:
  assumes "0 < box" "0 \<le> a" "a < 2 ^ 40" "0 \<le> s"
  shows "coord box a s \<le> box * of_int (1 + a) / of_int (1 + s) * ((1 + 1 / 2 ^ 53) * (1 + 1 / 2 ^ 53))"
    and "box * of_int (1 + a) / of_int (1 + s) * ((1 - 1 / 2 ^ 53) * (1 - 1 / 2 ^ 53)) \<le> coord box a s"
proof -
  let ?u = "box * of_int (1 + a)" and ?d = "of_int (1 + s) :: rat"
  have one: "fl (1 + of_int a) = of_int (1 + a)" using fl_int[of "1 + a"] assms(2,3) by simp
  have u: "0 \<le> ?u" and d: "0 < ?d" using assms by auto
  have v: "0 \<le> fl ?u / ?d" using fl_nonneg[OF u] d by simp
  have "coord box a s \<le> fl ?u / ?d * (1 + 1 / 2 ^ 53)" unfolding coord_def one by (rule fl_pos_bounds(1)[OF v])
  also have "\<dots> \<le> ?u * (1 + 1 / 2 ^ 53) / ?d * (1 + 1 / 2 ^ 53)"
    using fl_pos_bounds(1)[OF u] d by (intro mult_right_mono divide_right_mono) auto
  finally show "coord box a s \<le> ?u / ?d * ((1 + 1 / 2 ^ 53) * (1 + 1 / 2 ^ 53))" by (simp only: mult.assoc times_divide_eq_left)
  have "?u * (1 - 1 / 2 ^ 53) / ?d * (1 - 1 / 2 ^ 53) \<le> fl ?u / ?d * (1 - 1 / 2 ^ 53)"
    using fl_pos_bounds(2)[OF u] d by (intro mult_right_mono divide_right_mono) auto
  also have "\<dots> \<le> coord box a s" unfolding coord_def one by (rule fl_pos_bounds(2)[OF v])
  finally show "?u / ?d * ((1 - 1 / 2 ^ 53) * (1 - 1 / 2 ^ 53)) \<le> coord box a s" by (simp only: mult.assoc times_divide_eq_left)
qed

lemma coord_pos: "0 < box \<Longrightarrow> 0 \<le> a \<Longrightarrow> a < 2 ^ 40 \<Longrightarrow> 0 \<le> s \<Longrightarrow> 0 < coord box a s"
  by (rule less_le_trans[OF _ coord_bounds(2)]) auto

lemma coord_less:
  assumes "0 < box" "0 \<le> a" "a < b" "b < 2 ^ 40" "0 \<le> s"
  shows "coord box a s < coord box b s"
proof -
  let ?c = "box / of_int (1 + s)" and ?A = "of_int (1 + a) :: rat" and ?B = "of_int (1 + b) :: rat"
  have c: "0 < ?c" using assms by simp
  have "a + 2 \<le> 1 + b" using assms by simp
  then have "of_int (a + 2) \<le> ?B" by (simp only: of_int_le_iff)
  then have B: "?A + 1 \<le> ?B" by simp
  have "1 + a \<le> 2 ^ 40" using assms by simp
  then have "?A \<le> of_int (2 ^ 40)" by (simp only: of_int_le_iff)
  then have A: "?A \<le> 2 ^ 40" by simp
  have "?A * ((1 + 1 / 2 ^ 53) * (1 + 1 / 2 ^ 53)) < (?A + 1) * ((1 - 1 / 2 ^ 53) * (1 - 1 / 2 ^ 53))"
    using A by (simp add: algebra_simps)
  also have "\<dots> \<le> ?B * ((1 - 1 / 2 ^ 53) * (1 - 1 / 2 ^ 53))" using B by (intro mult_right_mono) auto
  finally have "?c * (?A * ((1 + 1 / 2 ^ 53) * (1 + 1 / 2 ^ 53))) < ?c * (?B * ((1 - 1 / 2 ^ 53) * (1 - 1 / 2 ^ 53)))"
    using c by (intro mult_strict_left_mono)
  then have "box * ?A / of_int (1 + s) * ((1 + 1 / 2 ^ 53) * (1 + 1 / 2 ^ 53))
      < box * ?B / of_int (1 + s) * ((1 - 1 / 2 ^ 53) * (1 - 1 / 2 ^ 53))"
    by (simp only: times_divide_eq_left mult.assoc)
  then show ?thesis
    using coord_bounds(1)[of box a s] coord_bounds(2)[of box b s] assms by linarith
qed

lemma coord_inj:
  assumes "0 < box" "0 \<le> s" "0 \<le> a" "a < 2 ^ 40" "0 \<le> b" "b < 2 ^ 40" "coord box a s = coord box b s"
  shows "a = b"
  using coord_less[of box a b s] coord_less[of box b a s] assms by (cases a b rule: linorder_cases) auto

lemma coord_inside:
  assumes "0 < box" "0 \<le> a" "a < s" "s < 2 ^ 40"
  shows "coord box a s < box"
proof -
  have "(of_int (1 + a) :: rat) \<le> of_int s" using assms by (simp only: of_int_le_iff)
  moreover have "(of_int s :: rat) \<le> of_int (2 ^ 40)" using assms by (simp only: of_int_le_iff)
  ultimately have "of_int (1 + a) * ((1 + 1 / 2 ^ 53) * (1 + 1 / 2 ^ 53)) < (of_int (1 + s) :: rat)" by (simp add: algebra_simps)
  then have "box * (of_int (1 + a) * ((1 + 1 / 2 ^ 53) * (1 + 1 / 2 ^ 53))) < box * of_int (1 + s)"
    using assms(1) by (rule mult_strict_left_mono)
  then have "box * of_int (1 + a) / of_int (1 + s) * ((1 + 1 / 2 ^ 53) * (1 + 1 / 2 ^ 53)) < box"
    using assms by (simp add: divide_less_eq mult.assoc)
  then show ?thesis using coord_bounds(1)[of box a s] assms by linarith
qed

text \<open>Drawing without replacement: the slot of the drawn entry gets the last one, and the list shrinks.\<close>

lemma draw_one:
  assumes "j < m" "m \<le> length xs"
  shows "add_mset (xs ! j) (mset (take (m - 1) (xs[j := xs ! (m - 1)]))) = mset (take m xs)"
proof -
  define ys where "ys = take m xs"
  have ys: "ys \<noteq> []" "j < length ys" "length ys = m" "ys ! j = xs ! j" using assms by (auto simp: ys_def)
  then have "last ys = ys ! (m - 1)" by (simp add: last_conv_nth)
  with ys assms have ys_last: "last ys = xs ! (m - 1)" by (simp add: ys_def)
  have "take m (xs[j := xs ! (m - 1)]) = ys[j := last ys]" unfolding ys_last by (simp add: ys_def take_update_swap)
  moreover have "take (m - 1) zs = butlast (take m zs)" if "m \<le> length zs" for zs :: "'a list"
    using that by (simp add: butlast_take)
  ultimately have t: "take (m - 1) (xs[j := xs ! (m - 1)]) = butlast (ys[j := last ys])" using assms by simp
  have "ys[j := last ys] \<noteq> []" using ys by simp
  then have "mset (butlast (ys[j := last ys]) @ [last (ys[j := last ys])]) = mset (ys[j := last ys])" by (subst append_butlast_last_id) auto
  moreover have "last (ys[j := last ys]) = last ys" using ys by (simp add: last_list_update)
  moreover have "mset (ys[j := last ys]) = add_mset (last ys) (mset ys - {#ys ! j#})" using ys by (simp add: mset_update)
  ultimately have "add_mset (last ys) (mset (butlast (ys[j := last ys]))) = add_mset (last ys) (mset ys - {#ys ! j#})" by simp
  then have "mset (butlast (ys[j := last ys])) = mset ys - {#ys ! j#}" by simp
  moreover have "ys ! j \<in># mset ys" using nth_mem[OF ys(2)] by simp
  ultimately show ?thesis using ys unfolding t by (simp flip: ys_def)
qed

definition cell :: "rat \<Rightarrow> int \<Rightarrow> int \<Rightarrow> int \<Rightarrow> int \<Rightarrow> rat \<times> rat \<times> rat" where
  "cell box sx sy sz k = (coord box (k mod sx) sx, coord box (k div sx) sy, coord box (k div sx) sz)"

definition position :: "particle \<Rightarrow> rat \<times> rat \<times> rat" where
  "position p = (px p, py p, pz p)"

text \<open>The invariant of the placement loop: the free cells and the cells of the placed particles are all cells.\<close>

definition placed :: "int \<Rightarrow> rat \<Rightarrow> int \<Rightarrow> int \<Rightarrow> int \<Rightarrow> rat option \<Rightarrow> nat \<Rightarrow> int list \<times> particle list \<Rightarrow> bool" where
  "placed n box sx sy sz a i s \<longleftrightarrow>
     (\<exists>ks. length (fst s) = nat n \<and> map position (snd s) = map (cell box sx sy sz) ks
        \<and> mset (take (nat n - i) (fst s)) + mset ks = mset (map int [0..<nat n])
        \<and> (\<forall>p \<in> set (snd s). ax p = a \<and> ay p = a \<and> az p = a))"

lemma seed_placed:
  assumes "placed n box sx sy sz a i s" "i < nat n"
  shows "\<exists>s'. seed n box sx sy sz lr dr a i s = Inr s' \<and> placed n box sx sy sz a (Suc i) s'"
proof -
  obtain sh ps where s: "s = (sh, ps)" by (cases s)
  with assms(1) obtain ks where ks: "length sh = nat n" "map position ps = map (cell box sx sy sz) ks"
      "mset (take (nat n - i) sh) + mset ks = mset (map int [0..<nat n])" "\<forall>p \<in> set ps. ax p = a \<and> ay p = a \<and> az p = a"
    unfolding placed_def fst_conv snd_conv by auto
  define m j where "m = nat n - i" and "j = lr i mod (nat n - i)"
  obtain d1 d2 d3 where d: "dr i = (d1, d2, d3)" by (cases "dr i")
  have m: "j < m" "m \<le> length sh" "m - 1 < length sh" using assms(2) ks(1) by (auto simp: m_def j_def)
  then have m4: "j < length sh" by simp
  have j: "lr i mod m = j" by (simp add: j_def m_def)
  define p where "p = \<lparr>px = coord box (sh ! j mod sx) sx, py = coord box (sh ! j div sx) sy, pz = coord box (sh ! j div sx) sz,
    vx = velocity d1, vy = velocity d2, vz = velocity d3, ax = a, ay = a, az = a\<rparr>"
  have "seed n box sx sy sz lr dr a i s = Inr (sh[j := sh ! (m - 1)], ps @ [p])"
    using m m4 by (simp add: seed_def s d Let_def p_def j flip: m_def)
  moreover have "placed n box sx sy sz a (Suc i) (sh[j := sh ! (m - 1)], ps @ [p])"
    unfolding placed_def
  proof (intro exI[of _ "ks @ [sh ! j]"] conjI)
    have "nat n - Suc i = m - 1" by (simp add: m_def)
    then show "mset (take (nat n - Suc i) (fst (sh[j := sh ! (m - 1)], ps @ [p]))) + mset (ks @ [sh ! j]) = mset (map int [0..<nat n])"
      using draw_one[OF m(1,2)] ks(3) by (simp flip: m_def) (metis union_mset_add_mset_left)
    show "map position (snd (sh[j := sh ! (m - 1)], ps @ [p])) = map (cell box sx sy sz) (ks @ [sh ! j])"
      using ks(2) by (simp add: position_def cell_def p_def)
  qed (use ks in \<open>auto simp: p_def\<close>)
  ultimately show ?thesis by blast
qed

lemma seed_loop:
  obtains sh ps ks where "foldR (seed n box sx sy sz lr dr a) [0..<nat n] (map int [0..<nat n], []) = Inr (sh, ps)"
    "map position ps = map (cell box sx sy sz) ks" "mset ks = mset (map int [0..<nat n])"
    "\<forall>p \<in> set ps. ax p = a \<and> ay p = a \<and> az p = a"
proof -
  have "placed n box sx sy sz a 0 (map int [0..<nat n], [])" by (simp add: placed_def)
  then obtain s where "foldR (seed n box sx sy sz lr dr a) [0..<nat n] (map int [0..<nat n], []) = Inr s"
      "placed n box sx sy sz a (nat n) s"
    using foldR_upt[of "placed n box sx sy sz a" _ "nat n" "seed n box sx sy sz lr dr a"] seed_placed by blast
  then show thesis using that unfolding placed_def by (cases s) auto
qed

text \<open>The sides of the grid are positive and small, and hold every cell.\<close>

lemma side_bounds:
  assumes "0 < n" "is_int32 n"
  shows "0 < \<lceil>sqrt_fl (of_int n)\<rceil>" "\<lceil>sqrt_fl (of_int n)\<rceil> \<le> 2 ^ 17"
proof -
  have "(0 :: rat) < of_int n" using assms(1) by simp
  moreover have "n < 2 ^ 32" using assms(2) by (simp add: is_int32_def INT_MAX_def)
  then have "(of_int n :: rat) < of_int (2 ^ 32)" by (simp only: of_int_less_iff)
  ultimately have "sqrt_fl (of_int n) < 2 * 2 ^ 16" "0 < sqrt_fl (of_int n)"
    using droot.root_less[of "of_int n" "2 ^ 16"] droot.root_pos[of "of_int n"] by simp_all
  then show "0 < \<lceil>sqrt_fl (of_int n)\<rceil>" "\<lceil>sqrt_fl (of_int n)\<rceil> \<le> 2 ^ 17" by (simp_all add: ceiling_le_iff)
qed

lemma rows_bound:
  assumes "0 < sx" "0 \<le> k" "k < (n :: int)"
  shows "0 \<le> k div sx" "k div sx < (n + sx - 1) div sx" "(n + sx - 1) div sx \<le> n"
proof -
  have "(n - 1 + 1 * sx) div sx = 1 + (n - 1) div sx" using assms(1) by (intro div_mult_self1) simp
  then have e: "(n + sx - 1) div sx = (n - 1) div sx + 1" by (simp add: algebra_simps)
  show "0 \<le> k div sx" using assms by (simp add: pos_imp_zdiv_nonneg_iff)
  show "k div sx < (n + sx - 1) div sx" unfolding e using zdiv_mono1[of k "n - 1" sx] assms by simp
  have "(n - 1) div sx \<le> n - 1" using assms zdiv_mono2[of "n - 1" 1 sx] by simp
  then show "(n + sx - 1) div sx \<le> n" unfolding e by simp
qed

section \<open>Lemmas: walls\<close>

lemma reflect_far:
  assumes "0 < box" "fl box = box" "fl x = x" "2 ^ 56 * box \<le> \<bar>x\<bar>"
  shows "outside box x" "\<bar>reflect box x\<bar> = \<bar>x\<bar>" "fl (reflect box x) = reflect box x"
proof -
  show out: "outside box x" using assms by (auto simp: outside_def abs_if split: if_splits)
  have "fl (x - 2 * box) = x" if "box < x" using assms that by (intro fl_absorb) auto
  then have "fl (2 * fl box - x) = - x" if "box < x"
    using that fl_minus[of "x - 2 * box"] assms(2) by simp
  then show "\<bar>reflect box x\<bar> = \<bar>x\<bar>" "fl (reflect box x) = reflect box x"
    using out assms(3) by (auto simp: outside_def reflect_def)
qed

definition far :: "rat \<Rightarrow> rat \<Rightarrow> bool" where
  "far box x \<longleftrightarrow> 0 < box \<and> fl box = box \<and> fl x = x \<and> 2 ^ 56 * box \<le> \<bar>x\<bar>"

lemma far_reflect: "far box x \<Longrightarrow> outside box x \<and> far box (reflect box x)"
  using reflect_far[of box x] by (auto simp: far_def)

lemma bounce_far:
  assumes "bounce box x v = Some y"
  shows "\<not> far box x"
proof -
  have "bounce box x v = Some y \<Longrightarrow> \<not> far box x"
    by (rule bounce.raw_induct[of "\<lambda>b x v y. \<not> far b x" "((box, x), v)" y, unfolded prod.case])
      (metis far_reflect)
  then show ?thesis using assms .
qed

lemma reflect_in:
  assumes "0 < box" "fl box = box" "box < x" "x \<le> 2 * box"
  shows "\<not> outside box (reflect box x)"
  using fl_nonneg[of "2 * box - x"] fl_mono[of "2 * box - x" box] assms by (simp add: reflect_def outside_def)

lemma reflect_back:
  assumes "0 < box" "fl box = box" "2 * box < x" "x \<le> of_nat (Suc k) * box" "k \<le> 2 ^ 53"
  shows "\<bar>reflect box x\<bar> \<le> of_nat k * box"
proof -
  have "(of_nat k :: rat) \<le> of_nat (2 ^ 53)" using assms(5) by (simp only: of_nat_le_iff)
  then have k: "(of_nat k :: rat) \<le> 2 ^ 53" by simp
  have "\<bar>reflect box x\<bar> = fl (x - 2 * box)"
    using assms fl_minus[of "x - 2 * box"] fl_nonneg[of "x - 2 * box"] by (simp add: reflect_def)
  also have "\<dots> \<le> (x - 2 * box) * (1 + 1 / 2 ^ 53)" using assms by (intro fl_pos_bounds) auto
  also have "\<dots> \<le> ((of_nat k - 1) * box) * (1 + 1 / 2 ^ 53)"
    using assms(4) by (intro mult_right_mono) (simp_all add: algebra_simps)
  also have "\<dots> = ((of_nat k - 1) * (1 + 1 / 2 ^ 53)) * box" by (simp only: ac_simps)
  also have "\<dots> \<le> of_nat k * box" using k assms(1) by (intro mult_right_mono) (simp_all add: algebra_simps)
  finally show ?thesis .
qed

lemma bounce_near:
  assumes "0 < box" "fl box = box" "k \<le> 2 ^ 53" "\<bar>x\<bar> \<le> of_nat k * box"
  shows "\<exists>y u. bounce box x v = Some (y, u) \<and> \<not> outside box y \<and> (u = v \<or> u = - v)"
  using assms(3,4)
proof (induction k arbitrary: x v)
  case 0
  then have "\<not> outside box x" using assms(1) by (simp add: outside_def)
  then show ?case by (subst bounce.simps) simp
next
  case (Suc k)
  have pos: "\<exists>y u. bounce box x v = Some (y, u) \<and> \<not> outside box y \<and> (u = v \<or> u = - v)"
    if x: "0 \<le> x" "x \<le> of_nat (Suc k) * box" for x v
  proof -
    consider "\<not> outside box x" | "box < x" "x \<le> 2 * box" | "box < x" "2 * box < x"
      using x(1) by (cases "box < x"; cases "x \<le> 2 * box") (auto simp: outside_def)
    then show ?thesis
    proof cases
      case 1
      then show ?thesis by (subst bounce.simps) simp
    next
      case 2
      then show ?thesis using reflect_in[OF assms(1,2) 2] by (subst bounce.simps, subst bounce.simps) simp
    next
      case 3
      have "\<bar>reflect box x\<bar> \<le> of_nat k * box" using reflect_back[OF assms(1,2) 3(2) x(2)] Suc.prems(1) by simp
      then obtain y u where "bounce box (reflect box x) (- v) = Some (y, u)" "\<not> outside box y" "u = - v \<or> u = v"
        using Suc.IH[of "reflect box x" "- v"] Suc.prems(1) by auto
      then show ?thesis using 3 by (subst bounce.simps) (auto simp: outside_def)
    qed
  qed
  show ?case
  proof (cases "0 \<le> x")
    case True
    then show ?thesis using pos Suc.prems(2) by simp
  next
    case False
    then obtain y u where "bounce box (- x) (- v) = Some (y, u)" "\<not> outside box y" "u = - v \<or> u = v"
      using pos[of "- x" "- v"] Suc.prems(2) by auto
    then show ?thesis using False by (subst bounce.simps) (auto simp: outside_def reflect_def)
  qed
qed

section \<open>Lemmas: forces\<close>

lemma note_pair_returns:
  "navg st < INT_MAX \<Longrightarrow> 0 \<le> navg st \<Longrightarrow> \<exists>st'. note_pair r2 st = Inr st' \<and> navg st \<le> navg st' \<and> navg st' \<le> navg st + 1"
  by (simp add: note_pair_def Let_def is_int32_def INT_MIN_def)

text \<open>The accelerations of a particle have values.\<close>

definition assigned :: "particle \<Rightarrow> bool" where
  "assigned p \<longleftrightarrow> ax p \<noteq> None \<and> ay p \<noteq> None \<and> az p \<noteq> None"

lemma apply_force_returns:
  assumes "assigned p" "0 \<le> navg st" "navg st < INT_MAX"
  shows "\<exists>p' st'. apply_force p q st = Inr (p', st') \<and> assigned p' \<and> navg st \<le> navg st' \<and> navg st' \<le> navg st + 1"
proof -
  obtain st' where st: "note_pair (dist2 p q) st = Inr st'" "navg st \<le> navg st'" "navg st' \<le> navg st + 1"
    using note_pair_returns[of st] assms by blast
  then show ?thesis using assms(1)
    by (auto simp: apply_force_def Let_def assigned_def add_acc_def)
qed

lemma dist2_sym: "dist2 p q = dist2 q p"
proof -
  have "fl (x - y) * fl (x - y) = fl (y - x) * fl (y - x)" for x y
    using fl_minus[of "y - x"] by simp
  then show ?thesis unfolding dist2_def Let_def by presburger
qed

lemma apply_force_self_az:
  "apply_force p p st = (case (ax p, ay p, az p) of (Some a, Some b, Some c) \<Rightarrow>
     Inr (p\<lparr>ax := Some (fl a), ay := Some (fl b), az := Some (fl c)\<rparr>, st) | _ \<Rightarrow> Inl (Undefined Uninitialized))"
proof -
  have "\<not> fl (cutoff * cutoff) < 0" using fl_nonneg[of "cutoff * cutoff"] by simp
  then show ?thesis
    by (auto simp: apply_force_def dist2_def note_pair_def add_acc_def Let_def split: option.splits)
qed

lemma bounce_inside: "bounce box x v = Some y \<Longrightarrow> \<not> outside box (fst y)"
  by (rule bounce.raw_induct[of "\<lambda>b x v y. \<not> outside b (fst y)" "((box, x), v)" y, unfolded prod.case])
    (auto split: if_splits)

lemma set_size_pos: "0 < n \<Longrightarrow> 0 < set_size n"
  unfolding set_size_def by (intro droot.root_pos fl_pos mult_pos_pos) (simp_all add: density_def fl_pos)

lemma set_size_fl [simp]: "fl (set_size n) = set_size n"
  by (simp add: set_size_def)

section \<open>Properties\<close>

text \<open>C39: The particles start on a grid inside the box: for every positive number of particles whose sum with the
  side of the grid is an \<open>int\<close>, and whatever the random numbers, \<open>init_particles\<close> places every particle, no two
  at the same point, and every coordinate lies strictly between 0 and the size.\<close>

theorem init_grid:
  assumes "0 < n" and "is_int32 (n + \<lceil>sqrt_fl (of_int n)\<rceil>)"
  shows "\<exists>ps. init_particles n (set_size n) lr dr = Inr ps \<and> length ps = nat n \<and> distinct (map position ps)
    \<and> (\<forall>p \<in> set ps. \<forall>c \<in> {px p, py p, pz p}. 0 < c \<and> c < set_size n)"
proof -
  define sx sy where "sx = \<lceil>sqrt_fl (of_int n)\<rceil>" and "sy = (n + sx - 1) div sx"
  have "0 < sx" using droot.root_pos[of "of_int n"] assms(1) by (simp add: sx_def)
  then have small: "is_int32 n" using assms unfolding is_int32_def INT_MAX_def INT_MIN_def sx_def by linarith
  then have n40: "n < 2 ^ 40" by (simp add: is_int32_def INT_MAX_def)
  have sx: "0 < sx" "sx < 2 ^ 40" using side_bounds[OF assms(1) small] by (simp_all add: sx_def)
  note box = set_size_pos[OF assms(1)]
  obtain sh ps ks where loop: "foldR (seed n (set_size n) sx sy sy lr dr None) [0..<nat n] (map int [0..<nat n], []) = Inr (sh, ps)"
      and pos: "map position ps = map (cell (set_size n) sx sy sy) ks" and perm: "mset ks = mset (map int [0..<nat n])"
    by (rule seed_loop)
  have len: "length ps = nat n" using arg_cong[OF pos, of length] arg_cong[OF perm, of size] by simp
  have range: "0 \<le> k mod sx" "k mod sx < sx" "k mod sx < 2 ^ 40" "0 \<le> k div sx" "k div sx < sy" "sy < 2 ^ 40" if "k \<in> set ks" for k
  proof -
    have k: "0 \<le> k" "k < n" using that mset_eq_setD[OF perm] by auto
    show "0 \<le> k mod sx" and m: "k mod sx < sx" using sx by simp_all
    show "k mod sx < 2 ^ 40" using m sx(2) by (rule less_trans)
    show "0 \<le> k div sx" "k div sx < sy" "sy < 2 ^ 40"
      using rows_bound[OF sx(1) k] n40 unfolding sy_def by linarith+
  qed
  have "inj_on (cell (set_size n) sx sy sy) (set ks)"
  proof (rule inj_onI)
    fix k l assume kl: "k \<in> set ks" "l \<in> set ks" "cell (set_size n) sx sy sy k = cell (set_size n) sx sy sy l"
    have "k mod sx = l mod sx" using kl(3) range(1,3)[OF kl(1)] range(1,3)[OF kl(2)] sx box
      by (intro coord_inj[of "set_size n" sx]) (simp_all add: cell_def)
    moreover have "k div sx = l div sx" using kl range[OF kl(1)] range[OF kl(2)] box
      by (intro coord_inj[of "set_size n" sy]) (auto simp: cell_def)
    ultimately show "k = l" by (metis div_mult_mod_eq)
  qed
  moreover have "distinct ks" using perm by (metis distinct_map distinct_upt inj_on_of_nat mset_eq_imp_distinct_iff)
  ultimately have "distinct (map position ps)" unfolding pos by (simp add: distinct_map)
  moreover have "0 < c \<and> c < set_size n" if p: "p \<in> set ps" and c: "c \<in> {px p, py p, pz p}" for p c
  proof -
    have "position p \<in> set (map (cell (set_size n) sx sy sy) ks)" using p unfolding pos[symmetric] by simp
    then obtain k where k: "k \<in> set ks" "position p = cell (set_size n) sx sy sy k" by auto
    then have "c = coord (set_size n) (k mod sx) sx \<or> c = coord (set_size n) (k div sx) sy"
      using c by (auto simp: position_def cell_def)
    then show ?thesis
      using range[OF k(1)] sx box coord_pos[of "set_size n"] coord_inside[of "set_size n"] by fastforce
  qed
  moreover have "init_particles n (set_size n) lr dr = Inr ps"
    using assms loop sx(1) by (simp add: init_particles_def sy_def flip: sx_def)
  ultimately show ?thesis using len by blast
qed

lemma init_grid_witness:
  "\<exists>ps. init_particles 1000 (set_size 1000) id (\<lambda>_. (0, 0, 0)) = Inr ps \<and> length ps = nat 1000 \<and> distinct (map position ps)
    \<and> (\<forall>p \<in> set ps. \<forall>c \<in> {px p, py p, pz p}. 0 < c \<and> c < set_size 1000)"
proof (rule init_grid)
  show "is_int32 (1000 + \<lceil>sqrt_fl (of_int 1000)\<rceil>)"
    using side_bounds[of 1000] by (simp add: is_int32_def INT_MAX_def INT_MIN_def)
qed simp

text \<open>C40: A step ends inside the box: when the drift takes a particle at most \<open>2^53\<close> box sizes from the origin in each
  direction, the loops that reflect it at the walls end, \<open>move\<close> leaves it inside the box, and the reflections
  change the signs of the velocities only.\<close>

theorem move_inside:
  assumes "0 < n" and "drift dt p = Inr q"
    and "\<bar>px q\<bar> \<le> 2 ^ 53 * set_size n" "\<bar>py q\<bar> \<le> 2 ^ 53 * set_size n" "\<bar>pz q\<bar> \<le> 2 ^ 53 * set_size n"
  shows "\<exists>r. move (set_size n) p = Some (Inr r)
    \<and> \<not> outside (set_size n) (px r) \<and> \<not> outside (set_size n) (py r) \<and> \<not> outside (set_size n) (pz r)
    \<and> \<bar>vx r\<bar> = \<bar>vx q\<bar> \<and> \<bar>vy r\<bar> = \<bar>vy q\<bar> \<and> \<bar>vz r\<bar> = \<bar>vz q\<bar>"
proof -
  have b: "\<exists>y u. bounce (set_size n) x v = Some (y, u) \<and> \<not> outside (set_size n) y \<and> \<bar>u\<bar> = \<bar>v\<bar>"
    if "\<bar>x\<bar> \<le> 2 ^ 53 * set_size n" for x v
    using bounce_near[of "set_size n" "2 ^ 53" x v] set_size_pos[OF assms(1)] that by fastforce
  show ?thesis
    using b[OF assms(3), of "vx q"] b[OF assms(4), of "vy q"] b[OF assms(5), of "vz q"] assms(2)
    by (fastforce simp: move_def)
qed

lemma move_inside_witness:
  "\<exists>r. move (set_size 1) \<lparr>px = 0, py = 0, pz = 0, vx = 0, vy = 0, vz = 0, ax = Some 0, ay = Some 0, az = Some 0\<rparr> = Some (Inr r)
    \<and> \<not> outside (set_size 1) (px r) \<and> \<not> outside (set_size 1) (py r) \<and> \<not> outside (set_size 1) (pz r)
    \<and> \<bar>vx r\<bar> = \<bar>0\<bar> \<and> \<bar>vy r\<bar> = \<bar>0\<bar> \<and> \<bar>vz r\<bar> = \<bar>0\<bar>"
  using move_inside[of 1 "\<lparr>px = 0, py = 0, pz = 0, vx = 0, vy = 0, vz = 0, ax = Some 0, ay = Some 0, az = Some 0\<rparr>"
      "\<lparr>px = 0, py = 0, pz = 0, vx = 0, vy = 0, vz = 0, ax = Some 0, ay = Some 0, az = Some 0\<rparr>"]
    set_size_pos[of 1]
  by (simp add: drift_def accelerate_def)

text \<open>Far outside, a step never ends: a position of at least \<open>2^56\<close> box sizes absorbs the width of the box, so the
  reflection only changes its sign and the loop runs for ever.\<close>

theorem move_hangs:
  assumes "drift dt p = Inr q" and "far box (px q)"
  shows "move box p = None"
  using bounce_far[of box "px q" "vx q"] assms by (cases "bounce box (px q) (vx q)") (auto simp: move_def)

lemma move_hangs_witness:
  "move 1 \<lparr>px = 2 ^ 60, py = 0, pz = 0, vx = 0, vy = 0, vz = 0, ax = Some 0, ay = Some 0, az = Some 0\<rparr> = None"
proof (rule move_hangs)
  have f: "fl (2 ^ 60) = 2 ^ 60" using fl_float[of 1 60] by simp
  then show "drift dt \<lparr>px = 2 ^ 60, py = 0, pz = 0, vx = 0, vy = 0, vz = 0, ax = Some 0, ay = Some 0, az = Some 0\<rparr>
      = Inr \<lparr>px = 2 ^ 60, py = 0, pz = 0, vx = 0, vy = 0, vz = 0, ax = Some 0, ay = Some 0, az = Some 0\<rparr>"
    by (simp add: drift_def accelerate_def)
  show "far 1 (px \<lparr>px = 2 ^ 60, py = 0, pz = 0, vx = 0, vy = 0, vz = 0, ax = Some 0, ay = Some 0, az = Some 0\<rparr>)"
    using f fl_int[of 1] by (simp add: far_def)
qed

text \<open>Newton's third law in floating point: of two particles at rest that are close enough to interact, with the
  accelerations reset, each gets exactly the negated acceleration of the other, and both calls record the same
  distance in the statistics.\<close>

theorem forces_opposite:
  assumes "apply_force (p\<lparr>ax := Some 0, ay := Some 0, az := Some 0\<rparr>) q st = Inr (p', st1)"
    and "apply_force (q\<lparr>ax := Some 0, ay := Some 0, az := Some 0\<rparr>) p st = Inr (q', st2)"
  shows "ax q' = map_option uminus (ax p') \<and> ay q' = map_option uminus (ay p') \<and> az q' = map_option uminus (az p')
    \<and> st1 = st2"
proof -
  define P Q where "P = p\<lparr>ax := Some 0, ay := Some 0, az := Some 0\<rparr>" and "Q = q\<lparr>ax := Some 0, ay := Some 0, az := Some 0\<rparr>"
  have d: "dist2 P q = dist2 p q" "dist2 Q p = dist2 p q"
    using dist2_sym[of q p] by (simp_all add: dist2_def P_def Q_def)
  have m: "fl (c * fl (x - y)) = - fl (c * fl (y - x))" for c x y
    using fl_minus[of "y - x"] fl_minus[of "c * fl (y - x)"] by simp
  show ?thesis
  proof (cases "fl (cutoff * cutoff) < dist2 p q")
    case True
    then show ?thesis using assms by (auto simp: apply_force_def d Let_def simp flip: P_def Q_def) (auto simp: P_def Q_def)
  next
    case False
    then obtain st' where "note_pair (dist2 p q) st = Inr st'"
      using assms(1) by (auto simp: apply_force_def d Let_def bindR_eq_Inr simp flip: P_def)
    then show ?thesis using False assms unfolding P_def[symmetric] Q_def[symmetric]
      by (auto simp: apply_force_def d Let_def) (simp_all add: P_def Q_def add_acc_def m[of _ "px p"] m[of _ "py p"] m[of _ "pz p"], auto)
  qed
qed

lemma forces_opposite_witness:
  "\<exists>p' q' st1 st2. apply_force \<lparr>px = 0, py = 0, pz = 0, vx = 0, vy = 0, vz = 0, ax = Some 0, ay = Some 0, az = Some 0\<rparr>
      \<lparr>px = 1 / 256, py = 0, pz = 0, vx = 0, vy = 0, vz = 0, ax = None, ay = None, az = None\<rparr> \<lparr>dmin = 1, davg = 0, navg = 0\<rparr> = Inr (p', st1)
    \<and> apply_force \<lparr>px = 1 / 256, py = 0, pz = 0, vx = 0, vy = 0, vz = 0, ax = Some 0, ay = Some 0, az = Some 0\<rparr>
      \<lparr>px = 0, py = 0, pz = 0, vx = 0, vy = 0, vz = 0, ax = None, ay = None, az = None\<rparr> \<lparr>dmin = 1, davg = 0, navg = 0\<rparr> = Inr (q', st2)
    \<and> ax q' = map_option uminus (ax p') \<and> st1 = st2"
proof -
  let ?st = "\<lparr>dmin = 1, davg = 0, navg = 0\<rparr>"
  let ?p = "\<lparr>px = 0, py = 0, pz = 0, vx = 0, vy = 0, vz = 0, ax = None, ay = None, az = None\<rparr>"
  let ?q = "\<lparr>px = 1 / 256, py = 0, pz = 0, vx = 0, vy = 0, vz = 0, ax = None, ay = None, az = None\<rparr>"
  obtain p' st1 where p: "apply_force (?p\<lparr>ax := Some 0, ay := Some 0, az := Some 0\<rparr>) ?q ?st = Inr (p', st1)"
    using apply_force_returns[of "?p\<lparr>ax := Some 0, ay := Some 0, az := Some 0\<rparr>" ?st ?q] by (auto simp: assigned_def INT_MAX_def)
  obtain q' st2 where q: "apply_force (?q\<lparr>ax := Some 0, ay := Some 0, az := Some 0\<rparr>) ?p ?st = Inr (q', st2)"
    using apply_force_returns[of "?q\<lparr>ax := Some 0, ay := Some 0, az := Some 0\<rparr>" ?st ?p] by (auto simp: assigned_def INT_MAX_def)
  from forces_opposite[OF p q] p q show ?thesis by auto
qed

text \<open>The copy of the tests tests each wall once: its single reflection agrees with the loop of the example
  exactly when it lands inside the box.\<close>

theorem bounce_once_agrees:
  "bounce box x v = Some (bounce_once box x v) \<longleftrightarrow> \<not> outside box (fst (bounce_once box x v))"
proof
  show "\<not> outside box (fst (bounce_once box x v))" if "bounce box x v = Some (bounce_once box x v)"
    using bounce_inside[OF that] .
  show "bounce box x v = Some (bounce_once box x v)" if "\<not> outside box (fst (bounce_once box x v))"
    using that by (cases "outside box x") (subst bounce.simps, simp add: bounce_once_def bounce.simps)+
qed

end
