(* ===== verification/Serial.thy ===== *)
theory Serial
  imports Particles
begin

text \<open>
  The main programs of the simulation: \<open>example/simulation/serial.cpp\<close> and the copy of the tests,
  \<open>tests/nbodytest/serial.cpp\<close>. A run reads its options, places the particles, and repeats a time step that
  computes the forces, moves the particles and, unless \<open>-no\<close> is given, collects statistics and writes a file of
  positions. The time a run takes is a parameter.
\<close>

section \<open>State\<close>

record sim =
  parts :: "particle list"
  absmin :: rat
  absavg :: rat
  nabsavg :: int
  first :: bool   \<comment> \<open>the static flag of \<open>save\<close>\<close>
  disk :: os

definition NSTEPS :: nat where "NSTEPS = 100"
definition NSTEPS_test :: nat where "NSTEPS_test = 1000"
definition SAVEFREQ :: nat where "SAVEFREQ = 1"

text \<open>What a run ends with: the help text, or the number of particles and, without \<open>-no\<close>, the smallest and the
  average distance with the two warnings.\<close>

datatype outcome = Usage | Ran int "(rat \<times> rat \<times> bool \<times> bool) option"

section \<open>The parts of a time step\<close>

text \<open>The forces on all particles; the third acceleration keeps its value.\<close>

definition force_on :: "nat \<Rightarrow> nat \<Rightarrow> particle list \<times> stats \<Rightarrow> (particle list \<times> stats) res" where
  "force_on i j s =
     (case s of (ps, st) \<Rightarrow> bindR (apply_force (ps ! i) (ps ! j) st) (\<lambda>(p, st'). Inr (ps[i := p], st')))"

definition forces :: "particle list \<Rightarrow> (particle list \<times> stats) res" where
  "forces ps =
     foldR (\<lambda>i (ps, st). foldR (force_on i) [0..<length ps] (ps[i := (ps ! i)\<lparr>ax := Some 0, ay := Some 0\<rparr>], st))
       [0..<length ps] (ps, \<lparr>dmin = 1, davg = 0, navg = 0\<rparr>)"

definition move_all :: "rat \<Rightarrow> particle list \<Rightarrow> particle list res option" where
  "move_all box ps =
     foldRO (\<lambda>i qs. Option.bind (move box (qs ! i)) (\<lambda>r. Some (bindR r (\<lambda>q. Inr (qs[i := q]))))) [0..<length ps] ps"

definition tally :: "stats \<Rightarrow> sim \<Rightarrow> sim" where
  "tally st s =
     (let s1 = (if navg st \<noteq> 0
                then s\<lparr>absavg := fl (absavg s + fl (davg st / of_int (navg st))), nabsavg := nabsavg s + 1\<rparr> else s)
      in if dmin st < absmin s1 then s1\<lparr>absmin := dmin st\<rparr> else s1)"

text \<open>The name of the file of a step; without \<open>-o\<close> the folder is a null pointer.\<close>

definition csv_name :: "string option \<Rightarrow> nat \<Rightarrow> string res" where
  "csv_name savefolder k =
     (case savefolder of
        None \<Rightarrow> Inl (Undefined Null_pointer)
      | Some d \<Rightarrow> sprintf100 (d @ (if k < 10 then ''/output_0'' else ''/output_'') @ to_string (int k) @ ''.csv''))"

definition csv_name_test :: "string option \<Rightarrow> nat \<Rightarrow> string res" where
  "csv_name_test savefolder k =
     (case savefolder of
        None \<Rightarrow> Inl (Undefined Null_pointer)
      | Some d \<Rightarrow> sprintf100 (d @ ''/output_'' @ to_string (int k) @ ''.csv''))"

text \<open>A file that cannot be opened is a null pointer to \<open>fprintf\<close>.\<close>

definition write_csv :: "string \<Rightarrow> string \<Rightarrow> sim \<Rightarrow> sim res" where
  "write_csv path content s =
     (case write_file path content (disk s) of
        (False, _) \<Rightarrow> Inl (Undefined Null_pointer)
      | (True, d) \<Rightarrow> Inr (s\<lparr>disk := d\<rparr>))"

definition sim_step :: "string list \<Rightarrow> rat \<Rightarrow> string option \<Rightarrow> nat \<Rightarrow> sim \<Rightarrow> sim res option" where
  "sim_step argv box savefolder k s =
     (case forces (parts s) of
        Inl e \<Rightarrow> Some (Inl e)
      | Inr (ps, st) \<Rightarrow>
          Option.bind (move_all box ps) (\<lambda>r. Some (bindR r (\<lambda>qs.
            let s1 = s\<lparr>parts := qs\<rparr> in
            if find_option argv ''-no'' = - 1
            then let s2 = tally st s1 in
              bindR (csv_name savefolder k) (\<lambda>path.
                if k mod SAVEFREQ = 0
                then let (content, f) = save (first s2) (parts s2)
                     in bindR (write_csv path content s2) (\<lambda>s3. Inr (s3\<lparr>first := f\<rparr>))
                else Inr s2)
            else Inr s1))))"

definition sim_step_test :: "string list \<Rightarrow> rat \<Rightarrow> string option \<Rightarrow> nat \<Rightarrow> sim \<Rightarrow> sim res" where
  "sim_step_test argv box savefolder k s =
     bindR (forces (parts s)) (\<lambda>(ps, st).
     bindR (move_test box ps) (\<lambda>qs.
       let s1 = s\<lparr>parts := qs\<rparr> in
       if find_option argv ''-no'' = - 1
       then let s2 = tally st s1 in
         bindR (csv_name_test savefolder k) (\<lambda>path.
           if k mod SAVEFREQ = 0 then write_csv path (csv_header @ save_test (parts s2)) s2 else Inr s2)
       else Inr s1))"

section \<open>Main\<close>

text \<open>The summary file: opened with \<open>"a"\<close> before the run, written and closed after it.\<close>

definition open_append :: "string \<Rightarrow> os \<Rightarrow> nat option \<times> os" where
  "open_append p s =
     (if \<not> can_open s then (None, s)
      else let fd = lowest_fd s; s' = s\<lparr>fds := fds s @ [fd]\<rparr> in
        case files s p of
          Some (DirNode _) \<Rightarrow> (None, s)
        | Some (FileNode _) \<Rightarrow> (Some fd, s')
        | None \<Rightarrow> (if is_dir (dir_name p) s then (Some fd, s'\<lparr>files := link p (FileNode []) (files s)\<rparr>) else (None, s)))"

definition append_close :: "string \<Rightarrow> nat \<Rightarrow> string \<Rightarrow> os \<Rightarrow> os" where
  "append_close p fd content s =
     s\<lparr>files := (case files s p of Some (FileNode c) \<Rightarrow> (files s)(p \<mapsto> FileNode (c @ content)) | _ \<Rightarrow> files s),
       fds := remove1 fd (fds s)\<rparr>"

definition start_sim :: "particle list \<Rightarrow> os \<Rightarrow> sim" where
  "start_sim ps s = \<lparr>parts = ps, absmin = 1, absavg = 0, nabsavg = 0, first = True, disk = s\<rparr>"

definition open_summary :: "string option \<Rightarrow> os \<Rightarrow> nat option \<times> os" where
  "open_summary sumname s = (case sumname of None \<Rightarrow> (None, s) | Some p \<Rightarrow> open_append p s)"

definition finish_run :: "string list \<Rightarrow> int \<Rightarrow> string option \<Rightarrow> nat option \<Rightarrow> rat \<Rightarrow> sim \<Rightarrow> outcome \<times> os" where
  "finish_run argv n sumname fsum elapsed s =
     (let report = (if find_option argv ''-no'' = - 1
                    then let avg = (if nabsavg s \<noteq> 0 then fl (absavg s / of_int (nabsavg s)) else absavg s)
                         in Some (absmin s, avg, absmin s < fl (2 / 5), avg < fl (4 / 5))
                    else None);
          d = (case (sumname, fsum) of
                 (Some p, Some fd) \<Rightarrow> append_close p fd (to_string n @ '' '' @ format_g elapsed @ [CHR 0x0A]) (disk s)
               | _ \<Rightarrow> disk s)
      in (Ran n report, d))"

definition main_serial ::
  "string list \<Rightarrow> (nat \<Rightarrow> nat) \<Rightarrow> (nat \<Rightarrow> rat \<times> rat \<times> rat) \<Rightarrow> rat \<Rightarrow> os \<Rightarrow> (outcome \<times> os) res option" where
  "main_serial argv lr dr elapsed sys =
     (if 0 \<le> find_option argv ''-h'' then Some (Inr (Usage, sys))
      else case read_int argv ''-n'' 1000 of
        Inl e \<Rightarrow> Some (Inl e)
      | Inr n \<Rightarrow>
          let savefolder = read_string argv ''-o'' None;
              sumname = read_string argv ''-s'' None;
              (fsum, sys1) = open_summary sumname sys;
              box = set_size n
          in case init_particles n box lr dr of
               Inl e \<Rightarrow> Some (Inl e)
             | Inr ps \<Rightarrow>
                 Option.bind (foldRO (sim_step argv box savefolder) [0..<NSTEPS] (start_sim ps sys1)) (\<lambda>r.
                   Some (bindR r (\<lambda>s. Inr (finish_run argv n sumname fsum elapsed s)))))"

definition main_nbody ::
  "string list \<Rightarrow> (nat \<Rightarrow> nat) \<Rightarrow> (nat \<Rightarrow> rat \<times> rat \<times> rat) \<Rightarrow> rat \<Rightarrow> os \<Rightarrow> (outcome \<times> os) res" where
  "main_nbody argv lr dr elapsed sys =
     (if 0 \<le> find_option argv ''-h'' then Inr (Usage, sys)
      else bindR (read_int argv ''-n'' 1000) (\<lambda>n.
        let savefolder = read_string argv ''-o'' None;
            sumname = read_string argv ''-s'' None;
            (fsum, sys1) = open_summary sumname sys;
            box = set_size n
        in bindR (init_particles_test n box lr dr) (\<lambda>ps.
           bindR (foldR (sim_step_test argv box savefolder) [0..<NSTEPS_test] (start_sim ps sys1)) (\<lambda>s.
             Inr (finish_run argv n sumname fsum elapsed s)))))"

text \<open>The event of the tests: the first time fewer than 100 particles are left; \<open>firstSend\<close> is passed and returned.\<close>

definition detectEvent :: "particle list \<Rightarrow> int \<Rightarrow> bool \<times> int" where
  "detectEvent ps firstSend = (if length ps < 100 \<and> firstSend = 0 then (True, 1) else (False, firstSend))"

section \<open>Lemmas\<close>

lemma atoi_cases: obtains n where "atoi t = Inr n" | "atoi t = Inl (Undefined Signed_overflow)"
proof (cases "stoi t")
  case (Inl e)
  then show thesis using that by (cases e) (simp_all add: atoi_def)
qed (use that in \<open>simp add: atoi_def\<close>)

lemma read_int_cases: obtains n where "read_int argv opt d = Inr n" | "read_int argv opt d = Inl (Undefined Signed_overflow)"
  using atoi_cases[of "argv ! (nat (find_option argv opt) + 1)"]
  unfolding read_int_def Let_def by (metis (full_types))

lemma init_particles_cases:
  obtains u where "init_particles n box lr dr = Inl (Undefined u)"
  | ps where "init_particles n box lr dr = Inr ps" "ps \<noteq> []" "\<forall>p \<in> set ps. az p = None"
proof (cases "n < 0 \<or> \<not> is_int32 (n + \<lceil>sqrt_fl (of_int n)\<rceil>) \<or> \<lceil>sqrt_fl (of_int n)\<rceil> = 0")
  case True
  have "\<exists>u. init_particles n box lr dr = Inl (Undefined u)"
    using True by (auto simp: init_particles_def Let_def chk_int_def)
  then show thesis using that(1) by blast
next
  case False
  let ?sx = "\<lceil>sqrt_fl (of_int n)\<rceil>"
  let ?sy = "(n + ?sx - 1) div ?sx"
  obtain sh ps ks where loop: "foldR (seed n box ?sx ?sy ?sy lr dr None) [0..<nat n] (map int [0..<nat n], []) = Inr (sh, ps)"
      and pos: "map position ps = map (cell box ?sx ?sy ?sy) ks" and perm: "mset ks = mset (map int [0..<nat n])"
      and acc: "\<forall>p \<in> set ps. ax p = None \<and> ay p = None \<and> az p = None"
    by (rule seed_loop)
  have "n \<noteq> 0" using False by (auto simp: sqrt_fl_def)
  then have "0 < nat n" using False by simp
  moreover have "length ps = nat n" using arg_cong[OF pos, of length] arg_cong[OF perm, of size] by simp
  ultimately have "ps \<noteq> []" by auto
  then show thesis using that(2)[of ps] False loop acc by (simp add: init_particles_def)
qed

text \<open>The pair of a particle with itself reads its third acceleration.\<close>

lemma forces_uninitialised:
  assumes "ps \<noteq> []" "\<forall>p \<in> set ps. az p = None"
  shows "forces ps = Inl (Undefined Uninitialized)"
proof -
  from assms obtain p qs where ps: "ps = p # qs" "az p = None" by (cases ps) auto
  have "0 < length ps" by (simp add: ps(1))
  then have u: "[0..<length ps] = 0 # [1..<length ps]" by (simp only: upt_conv_Cons) simp
  have "foldR (force_on 0) [0..<length ps] (ps[0 := (ps ! 0)\<lparr>ax := Some 0, ay := Some 0\<rparr>], st) = Inl (Undefined Uninitialized)" for st
    unfolding u using ps by (simp add: force_on_def apply_force_self_az)
  then show ?thesis unfolding forces_def by (subst u) simp
qed

text \<open>One particle alone: the forces reset the first two accelerations and keep the third.\<close>

lemma forces_single:
  "az p = Some c \<Longrightarrow>
   forces [p] = Inr ([p\<lparr>ax := Some 0, ay := Some 0, az := Some (fl c)\<rparr>], \<lparr>dmin = 1, davg = 0, navg = 0\<rparr>)"
  by (simp add: forces_def force_on_def apply_force_self_az)

lemma force_on_returns:
  assumes "i < n" "j < n" "length ps = n" "n \<le> 46340"
    and "\<forall>p \<in> set ps. az p \<noteq> None" "\<forall>k \<le> i. assigned (ps ! k)" "0 \<le> navg st" "navg st \<le> int (i * n + j)"
  shows "\<exists>qs st'. force_on i j (ps, st) = Inr (qs, st') \<and> length qs = n \<and> (\<forall>p \<in> set qs. az p \<noteq> None)
    \<and> (\<forall>k \<le> i. assigned (qs ! k)) \<and> 0 \<le> navg st' \<and> navg st' \<le> int (i * n + Suc j)"
proof -
  have "i * n + j < Suc i * n" using assms(2) by simp
  also have "\<dots> \<le> n * n" using assms(1) by (intro mult_right_mono) auto
  also have "\<dots> \<le> 46340 * 46340" using assms(4) by (intro mult_mono) auto
  finally have "int (i * n + j) < int (46340 * 46340)" by (simp only: of_nat_less_iff)
  then have "navg st < INT_MAX" using assms(8) by (simp add: INT_MAX_def)
  then obtain q st' where q: "apply_force (ps ! i) (ps ! j) st = Inr (q, st')" "assigned q"
      "navg st \<le> navg st'" "navg st' \<le> navg st + 1"
    using apply_force_returns[of "ps ! i" st "ps ! j"] assms(6,7) by blast
  have "az q \<noteq> None" using q(2) by (simp add: assigned_def)
  then have "\<forall>p \<in> set (ps[i := q]). az p \<noteq> None" using assms(5) set_update_subset_insert[of ps i q] by blast
  moreover have "\<forall>k \<le> i. assigned (ps[i := q] ! k)" using assms(1,3,6) q(2) by (simp add: nth_list_update)
  ultimately show ?thesis using q assms(3,7,8) by (simp add: force_on_def)
qed

lemma forces_returns:
  assumes "length ps \<le> 46340" "\<forall>p \<in> set ps. az p \<noteq> None"
  shows "\<exists>qs st. forces ps = Inr (qs, st) \<and> length qs = length ps \<and> (\<forall>p \<in> set qs. assigned p)"
proof -
  define n where "n = length ps"
  define Q where "Q = (\<lambda>i j (qs, st :: stats). length qs = n \<and> (\<forall>p \<in> set qs. az p \<noteq> None) \<and> (\<forall>k \<le> i. assigned (qs ! k))
    \<and> 0 \<le> navg st \<and> navg st \<le> int (i * n + j))"
  define P where "P = (\<lambda>i (qs, st :: stats). length qs = n \<and> (\<forall>p \<in> set qs. az p \<noteq> None) \<and> (\<forall>k < i. assigned (qs ! k))
    \<and> 0 \<le> navg st \<and> navg st \<le> int (i * n))"
  have inner: "\<exists>s'. force_on i j s = Inr s' \<and> Q i (Suc j) s'" if "i < n" "j < n" "Q i j s" for i j s
    using that force_on_returns[of i n j "fst s" "snd s"] assms(1) by (cases s) (auto simp: Q_def n_def)
  have outer: "\<exists>s'. foldR (force_on i) [0..<length qs] (qs[i := (qs ! i)\<lparr>ax := Some 0, ay := Some 0\<rparr>], st) = Inr s' \<and> P (Suc i) s'"
    if i: "i < n" "P i (qs, st)" for i qs st
  proof -
    have qi: "qs ! i \<in> set qs" "length qs = n" using i by (auto simp: P_def)
    define r where "r = (qs ! i)\<lparr>ax := Some 0, ay := Some 0\<rparr>"
    have "assigned r" "az r \<noteq> None" using i(2) qi(1) by (auto simp: assigned_def r_def P_def)
    then have "Q i 0 (qs[i := r], st)"
      using i set_update_subset_insert[of qs i r] by (auto simp: Q_def P_def nth_list_update le_less)
    then obtain s' where "foldR (force_on i) [0..<n] (qs[i := r], st) = Inr s'" "Q i n s'"
      using foldR_upt[of "Q i" _ n "force_on i"] inner[OF i(1)] by blast
    moreover from this(2) have "P (Suc i) s'" by (cases s') (auto simp: Q_def P_def algebra_simps less_Suc_eq_le)
    ultimately show ?thesis using qi(2) by (simp add: r_def)
  qed
  have "P 0 (ps, \<lparr>dmin = 1, davg = 0, navg = 0\<rparr>)" using assms(2) by (simp add: P_def n_def)
  then have "\<exists>s. foldR (\<lambda>i (ps, st). foldR (force_on i) [0..<length ps] (ps[i := (ps ! i)\<lparr>ax := Some 0, ay := Some 0\<rparr>], st))
      [0..<n] (ps, \<lparr>dmin = 1, davg = 0, navg = 0\<rparr>) = Inr s \<and> P n s"
  proof (rule foldR_upt)
    fix i s assume "i < n" "P i s"
    then show "\<exists>s'. (case s of (ps, st) \<Rightarrow> foldR (force_on i) [0..<length ps]
        (ps[i := (ps ! i)\<lparr>ax := Some 0, ay := Some 0\<rparr>], st)) = Inr s' \<and> P (Suc i) s'"
      using outer[of i "fst s" "snd s"] by (cases s) simp
  qed
  then obtain s where s: "forces ps = Inr s" "P n s" unfolding forces_def n_def by blast
  obtain qs st where [simp]: "s = (qs, st)" by (cases s)
  show ?thesis using s by (auto simp: P_def n_def in_set_conv_nth)
qed

lemma move_test_returns:
  assumes "\<forall>p \<in> set ps. assigned p"
  shows "\<exists>qs. move_test box ps = Inr qs \<and> length qs = length ps \<and> (\<forall>p \<in> set qs. assigned p)"
  unfolding move_test_def
proof (rule foldR_total)
  show "length ps = length ps \<and> (\<forall>p \<in> set ps. assigned p)" using assms by simp
  fix i qs
  assume i: "i \<in> set [0..<length ps]" and qs: "length qs = length ps \<and> (\<forall>p \<in> set qs. assigned p)"
  then have a: "assigned (qs ! i)" by simp
  then have "\<exists>q. move_one_test box (qs ! i) = Inr q \<and> assigned q"
    by (auto simp: move_one_test_def drift_def accelerate_def assigned_def split: prod.split)
  then obtain q where q: "move_one_test box (qs ! i) = Inr q" "assigned q" by blast
  then have "\<forall>p \<in> set (qs[i := q]). assigned p" using qs set_update_subset_insert[of qs i q] by blast
  then show "\<exists>qs'. bindR (move_one_test box (qs ! i)) (\<lambda>q. Inr (qs[i := q])) = Inr qs' \<and> length qs' = length ps \<and> (\<forall>p \<in> set qs'. assigned p)"
    using q(1) qs by simp
qed

lemma init_particles_test_returns:
  assumes "0 < n" "n \<le> 46340"
  shows "\<exists>ps. init_particles_test n box lr dr = Inr ps \<and> length ps = nat n \<and> (\<forall>p \<in> set ps. assigned p)"
proof -
  have n32: "is_int32 n" using assms by (simp add: is_int32_def INT_MAX_def INT_MIN_def)
  define sx sy where "sx = \<lceil>sqrt_fl (of_int n)\<rceil>" and "sy = (n + sx - 1) div sx"
  have sx: "0 < sx" "sx \<le> 2 ^ 17" using side_bounds[OF assms(1) n32] by (simp_all add: sx_def)
  have sy: "0 < sy" "sy \<le> n" using rows_bound[OF sx(1), of 0 n] assms(1) by (simp_all add: sy_def)
  have fit: "is_int32 (n + sx)" "is_int32 (n + sy)" using assms sx sy by (simp_all add: is_int32_def INT_MAX_def INT_MIN_def)
  obtain sh ps ks where loop: "foldR (seed n box sx sy ((n + sy - 1) div sy) lr dr (Some dt_test)) [0..<nat n] (map int [0..<nat n], []) = Inr (sh, ps)"
      and pos: "map position ps = map (cell box sx sy ((n + sy - 1) div sy)) ks" and perm: "mset ks = mset (map int [0..<nat n])"
      and acc: "\<forall>p \<in> set ps. ax p = Some dt_test \<and> ay p = Some dt_test \<and> az p = Some dt_test"
    by (rule seed_loop)
  have "length ps = nat n" using arg_cong[OF pos, of length] arg_cong[OF perm, of size] by simp
  moreover have "init_particles_test n box lr dr = Inr ps"
    using assms fit sx sy loop by (simp add: init_particles_test_def sy_def[symmetric] Let_def flip: sx_def)
  ultimately show ?thesis using acc by (auto simp: assigned_def)
qed

section \<open>Properties\<close>

text \<open>C38: Every run of the example simulation has undefined behaviour, whatever its options other than \<open>-h\<close>: the
  memory of the particles comes from \<open>malloc\<close>, the loop of a step assigns the first two accelerations only, and
  the force of a particle on itself already adds to the third; a number of particles that is not positive fails
  even earlier.\<close>

theorem serial_undefined:
  assumes "find_option argv ''-h'' < 0"
  shows "\<exists>u. main_serial argv lr dr elapsed sys = Some (Inl (Undefined u))"
proof (rule read_int_cases[of argv "''-n''" 1000])
  fix n assume n: "read_int argv ''-n'' 1000 = Inr n"
  obtain fsum sys1 where o: "open_summary (read_string argv ''-s'' None) sys = (fsum, sys1)" by fastforce
  show ?thesis
  proof (rule init_particles_cases[of n "set_size n" lr dr])
    fix u assume "init_particles n (set_size n) lr dr = Inl (Undefined u)"
    then show ?thesis using assms n o by (simp add: main_serial_def)
  next
    fix ps assume ps: "init_particles n (set_size n) lr dr = Inr ps" "ps \<noteq> []" "\<forall>p \<in> set ps. az p = None"
    have "0 < NSTEPS" by (simp add: NSTEPS_def)
    then have "[0..<NSTEPS] = 0 # [1..<NSTEPS]" by (simp only: upt_conv_Cons) simp
    then have "foldRO (sim_step argv (set_size n) (read_string argv ''-o'' None)) [0..<NSTEPS] (start_sim ps sys1)
        = Some (Inl (Undefined Uninitialized))"
      by (simp add: sim_step_def start_sim_def forces_uninitialised[OF ps(2,3)])
    then show ?thesis using assms n o ps(1) by (simp add: main_serial_def)
  qed
qed (use assms in \<open>simp add: main_serial_def\<close>)

lemma serial_undefined_witness: "\<exists>u. main_serial [''serial'', ''-no''] id (\<lambda>_. (0, 0, 0)) 0 \<lparr>files = Map.empty, fds = [], fdLimit = 8\<rparr> = Some (Inl (Undefined u))"
  by (rule serial_undefined) (simp add: find_option_def upt_rec)

text \<open>The copy of the tests is free of it: with \<open>-no\<close> and up to 46340 particles, for which the number of pairs is
  an \<open>int\<close>, all steps of a run return and the run ends normally.\<close>

theorem nbody_returns:
  assumes "find_option argv ''-h'' < 0" and "0 \<le> find_option argv ''-no''"
    and "read_int argv ''-n'' 1000 = Inr n" and "0 < n" "n \<le> 46340"
  shows "\<exists>sys'. main_nbody argv lr dr elapsed sys = Inr (Ran n None, sys')"
proof -
  obtain fsum sys1 where o: "open_summary (read_string argv ''-s'' None) sys = (fsum, sys1)" by fastforce
  obtain ps where ps: "init_particles_test n (set_size n) lr dr = Inr ps" "length ps = nat n" "\<forall>p \<in> set ps. assigned p"
    using init_particles_test_returns[OF assms(4,5)] by blast
  let ?P = "\<lambda>s. length (parts s) = nat n \<and> (\<forall>p \<in> set (parts s). assigned p)"
  have step: "\<exists>s'. sim_step_test argv (set_size n) d k s = Inr s' \<and> ?P s'" if P: "?P s" for d k s
  proof -
    have "length (parts s) \<le> 46340" "\<forall>p \<in> set (parts s). az p \<noteq> None" using P assms(5) by (auto simp: assigned_def)
    then obtain qs st where q: "forces (parts s) = Inr (qs, st)" "length qs = nat n" "\<forall>p \<in> set qs. assigned p"
      using forces_returns P by metis
    obtain rs where "move_test (set_size n) qs = Inr rs" "length rs = nat n" "\<forall>p \<in> set rs. assigned p"
      using move_test_returns[OF q(3)] q(2) by metis
    then show ?thesis using q(1) assms(2) by (simp add: sim_step_test_def)
  qed
  have "?P (start_sim ps sys1)" using ps by (simp add: start_sim_def)
  then obtain s where "foldR (sim_step_test argv (set_size n) (read_string argv ''-o'' None)) [0..<NSTEPS_test] (start_sim ps sys1) = Inr s"
    using foldR_total[of ?P _ "[0..<NSTEPS_test]"] step by blast
  then show ?thesis using assms o ps(1) by (simp add: main_nbody_def finish_run_def Let_def)
qed

lemma nbody_returns_witness:
  "\<exists>sys'. main_nbody [''serial'', ''-no''] id (\<lambda>_. (0, 0, 0)) 0 \<lparr>files = Map.empty, fds = [], fdLimit = 8\<rparr> = Inr (Ran 1000 None, sys')"
  by (rule nbody_returns) (simp_all add: find_option_def read_int_def upt_rec)

text \<open>Without \<open>-o\<close> and without \<open>-no\<close> the folder of the files is a null pointer that the first step formats.\<close>

theorem nbody_no_folder:
  assumes "find_option argv ''-h'' < 0" and "find_option argv ''-no'' = - 1" and "read_string argv ''-o'' None = None"
    and "read_int argv ''-n'' 1000 = Inr n" and "0 < n" "n \<le> 46340"
  shows "main_nbody argv lr dr elapsed sys = Inl (Undefined Null_pointer)"
proof -
  obtain fsum sys1 where o: "open_summary (read_string argv ''-s'' None) sys = (fsum, sys1)" by fastforce
  obtain ps where ps: "init_particles_test n (set_size n) lr dr = Inr ps" "length ps = nat n" "\<forall>p \<in> set ps. assigned p"
    using init_particles_test_returns[OF assms(5,6)] by blast
  obtain qs st where q: "forces ps = Inr (qs, st)" "\<forall>p \<in> set qs. assigned p"
    using forces_returns[of ps] ps assms(6) by (force simp: assigned_def)
  obtain rs where r: "move_test (set_size n) qs = Inr rs" using move_test_returns[OF q(2)] by metis
  have "0 < NSTEPS_test" by (simp add: NSTEPS_test_def)
  then have "[0..<NSTEPS_test] = 0 # [1..<NSTEPS_test]" by (simp only: upt_conv_Cons) simp
  then have "foldR (sim_step_test argv (set_size n) None) [0..<NSTEPS_test] (start_sim ps sys1) = Inl (Undefined Null_pointer)"
    using assms(2) by (simp add: sim_step_test_def start_sim_def q(1) r csv_name_test_def)
  then show ?thesis using assms o ps(1) by (simp add: main_nbody_def Let_def)
qed

lemma nbody_no_folder_witness:
  "main_nbody [''serial''] id (\<lambda>_. (0, 0, 0)) 0 \<lparr>files = Map.empty, fds = [], fdLimit = 8\<rparr> = Inl (Undefined Null_pointer)"
  by (rule nbody_no_folder[where n = 1000]) (simp_all add: find_option_def read_int_def read_string_def)

end
