(* ===== verification/Watch.thy ===== *)
theory Watch
  imports StdString "HOL-Library.Word"
begin

text \<open>
  The directory watcher of the tests, \<open>src/tests/watchnotify.c\<close>: an endless loop that reads events of
  \<open>inotify\<close> into a buffer and walks through it. The buffer is the sequence of its events; the byte offset \<open>i\<close>
  of the code is the number of bytes of the events already passed, so \<open>i < length\<close> says that events are left.
  The mask bits are those of \<open>sys/inotify.h\<close>.
\<close>

unbundle bit_operations_syntax

record inotify_event =
  ev_wd :: int
  ev_mask :: "32 word"
  ev_len :: nat       \<comment> \<open>bytes of the name; 0 when the event has none\<close>
  ev_name :: string

definition IN_MODIFY :: "32 word" where "IN_MODIFY = 0x2"
definition IN_CREATE :: "32 word" where "IN_CREATE = 0x100"
definition IN_DELETE :: "32 word" where "IN_DELETE = 0x200"
definition IN_ISDIR :: "32 word" where "IN_ISDIR = 0x40000000"
definition IN_IGNORED :: "32 word" where "IN_IGNORED = 0x8000"

text \<open>The line printed for one bit of the mask.\<close>

definition report :: "32 word \<Rightarrow> string \<Rightarrow> inotify_event \<Rightarrow> string list" where
  "report flag verb e =
     (if ev_mask e AND flag \<noteq> 0
      then [if ev_mask e AND IN_ISDIR \<noteq> 0 then ''The directory '' @ ev_name e @ '' was '' @ verb @ ''.''
            else ''The file '' @ ev_name e @ '' was '' @ verb @ '' with WD '' @ to_string (ev_wd e)]
      else [])"

definition describe :: "inotify_event \<Rightarrow> string list" where
  "describe e = report IN_CREATE ''Created'' e @ report IN_MODIFY ''modified'' e @ report IN_DELETE ''deleted'' e"

text \<open>The inner loop. It moves to the next event only after one that has a name.\<close>

partial_function (option) walk :: "inotify_event list \<Rightarrow> string list \<Rightarrow> string list option" where
  "walk evs printed =
     (case evs of
        [] \<Rightarrow> Some printed
      | e # es \<Rightarrow> if ev_len e \<noteq> 0 then walk es (printed @ describe e) else walk evs printed)"

lemma walk_named:
  "\<forall>e \<in> set evs. ev_len e \<noteq> 0 \<Longrightarrow> walk evs printed = Some (printed @ concat (map describe evs))"
proof (induction evs arbitrary: printed)
  case Nil
  show ?case by (subst walk.simps) simp
next
  case (Cons e es)
  then show ?case by (subst walk.simps) simp
qed

lemma walk_returns: "walk evs printed = Some out \<Longrightarrow> \<forall>e \<in> set evs. ev_len e \<noteq> 0"
  by (rule walk.raw_induct[of "\<lambda>evs printed out. \<forall>e \<in> set evs. ev_len e \<noteq> 0"])
    (auto split: list.splits if_splits)

text \<open>The walk through a buffer of events ends exactly when every event in it carries a name, and then every
  event is reported once and in order; one event without a name, such as the \<open>IN_IGNORED\<close> the kernel sends when the
  watched directory is removed, keeps the watcher at that event for ever.\<close>

theorem walk_ends_iff:
  "walk evs [] = (if \<forall>e \<in> set evs. ev_len e \<noteq> 0 then Some (concat (map describe evs)) else None)"
proof (cases "\<forall>e \<in> set evs. ev_len e \<noteq> 0")
  case True
  then show ?thesis using walk_named[of evs "[]"] by simp
next
  case False
  then have "walk evs [] = None" using walk_returns[of evs "[]"] by (cases "walk evs []") auto
  with False show ?thesis by simp
qed

lemma walk_ends_iff_witness:
  "walk [\<lparr>ev_wd = 1, ev_mask = IN_CREATE OR IN_ISDIR, ev_len = 16, ev_name = ''a''\<rparr>] [] = Some [''The directory a was Created.'']
   \<and> walk [\<lparr>ev_wd = 1, ev_mask = IN_IGNORED, ev_len = 0, ev_name = []\<rparr>] [] = None"
  unfolding walk_ends_iff
  by (simp add: describe_def report_def IN_CREATE_def IN_MODIFY_def IN_DELETE_def IN_ISDIR_def)

end
