(* ===== verification/MetaServer.thy ===== *)
theory MetaServer
  imports GroupManager Double
begin

text \<open>
  The metadata service, \<open>src/src/metadatamanagement\<close>: a queue of metadata strings per key, a write-once
  store, and timers. A handler is given the value of \<open>clock_gettime\<close> as the parameter \<open>now\<close> and
  returns its reply and the new state; the times it prints are kept in \<open>timeLog\<close>. \<open>Getmeta\<close> tests the
  queue before it takes the lock, so besides the whole handler its two halves are modelled, for the
  interleavings of several clients.
\<close>

section \<open>State\<close>

record timespec =
  tv_sec :: int
  tv_nsec :: int

record meta =
  timerMap :: "(string, timespec) std_map"
  metaMap :: "(string, string list) std_map"
  metaSpace :: "(string, string) std_map"
  timeLog :: "(string \<times> rat) list"

definition meta_start :: meta where
  "meta_start = \<lparr>timerMap = [], metaMap = [], metaSpace = [], timeLog = []\<rparr>"

definition BILLION :: int where "BILLION = 1000000000"

text \<open>\<open>(end.tv_sec - start.tv_sec) * 1.0 + (end.tv_nsec - start.tv_nsec) * 1.0 / BILLION\<close>\<close>

definition time_diff :: "timespec \<Rightarrow> timespec \<Rightarrow> rat" where
  "time_diff fin start =
     fl (fl (of_int (tv_sec fin - tv_sec start)) + fl (fl (of_int (tv_nsec fin - tv_nsec start)) / of_int BILLION))"

section \<open>Handlers\<close>

definition SayHello_meta :: "string \<Rightarrow> string" where
  "SayHello_meta name = ''Hello '' @ name"

definition Recordtime :: "timespec \<Rightarrow> string \<Rightarrow> meta \<Rightarrow> string \<times> meta" where
  "Recordtime now key s =
     (''OK'',
      case map_of (timerMap s) key of
        None \<Rightarrow> s\<lparr>timerMap := map_put key now (timerMap s)\<rparr>
      | Some start \<Rightarrow> s\<lparr>timerMap := map_erase key (timerMap s), timeLog := timeLog s @ [(key, time_diff now start)]\<rparr>)"

definition Recordtimestart :: "timespec \<Rightarrow> string \<Rightarrow> meta \<Rightarrow> string \<times> meta" where
  "Recordtimestart now key s =
     (''OK'',
      case map_of (timerMap s) key of
        None \<Rightarrow> s\<lparr>timerMap := map_put key now (timerMap s)\<rparr>
      | Some _ \<Rightarrow> s)"

definition Recordtimetick :: "timespec \<Rightarrow> string \<Rightarrow> meta \<Rightarrow> string \<times> meta" where
  "Recordtimetick now key s =
     (''OK'',
      case map_of (timerMap s) key of
        None \<Rightarrow> s
      | Some start \<Rightarrow> s\<lparr>timeLog := timeLog s @ [(key, time_diff now start)]\<rparr>)"

definition Putmeta :: "string \<Rightarrow> string \<Rightarrow> meta \<Rightarrow> string \<times> meta" where
  "Putmeta key value s =
     (''OK'',
      case map_of (metaMap s) key of
        None \<Rightarrow> s\<lparr>metaMap := map_put key (list_push value []) (metaMap s)\<rparr>
      | Some q \<Rightarrow> s\<lparr>metaMap := map_put key (list_push value q) (metaMap s)\<rparr>)"

text \<open>The test of \<open>Getmeta\<close>, made without the lock, and what it does under the lock.\<close>

definition Getmeta_test :: "string \<Rightarrow> meta \<Rightarrow> bool" where
  "Getmeta_test key s = (case map_of (metaMap s) key of None \<Rightarrow> False | Some q \<Rightarrow> q \<noteq> [])"

definition Getmeta_take :: "string \<Rightarrow> meta \<Rightarrow> (string \<times> meta) res" where
  "Getmeta_take key s =
     (case list_pop (map_at [] key (metaMap s)) of
        None \<Rightarrow> Inl (Undefined Empty_container)
      | Some (v, q) \<Rightarrow> Inr (v, s\<lparr>metaMap := map_put key q (metaMap s)\<rparr>))"

definition Getmeta :: "string \<Rightarrow> meta \<Rightarrow> (string \<times> meta) res" where
  "Getmeta key s = (if Getmeta_test key s then Getmeta_take key s else Inr (''NULL'', s))"

definition Putmetaspace :: "string \<Rightarrow> string \<Rightarrow> meta \<Rightarrow> string \<times> meta" where
  "Putmetaspace key value s =
     (''OK'',
      case map_of (metaSpace s) key of
        None \<Rightarrow> s\<lparr>metaSpace := map_put key value (metaSpace s)\<rparr>
      | Some _ \<Rightarrow> s)"

definition Getmetaspace :: "string \<Rightarrow> meta \<Rightarrow> string \<times> meta" where
  "Getmetaspace key s = (case map_of (metaSpace s) key of None \<Rightarrow> (''NULL'', s) | Some v \<Rightarrow> (v, s))"

definition writeSocket :: "string \<Rightarrow> os \<Rightarrow> os res option" where
  "writeSocket socketAddr s =
     Option.bind (createDir ''Metaserver'' s) (\<lambda>s1.
       Some (bindR (sprintf100 (''Metaserver/'' @ socketAddr)) (\<lambda>addrFile. Inr (snd (write_file addrFile [] s1)))))"

section \<open>Client\<close>

datatype mrpc = MRecordtime string | MRecordtimestart string | MRecordtimetick string
  | MGetmeta string | MPutmeta string string
  | MPutmetaspace string string | MGetmetaspace string | MSayHello string

text \<open>What a stub returns for the status and reply of its call.\<close>

definition meta_reply :: "string option \<Rightarrow> string" where
  "meta_reply r = (case r of Some m \<Rightarrow> m | None \<Rightarrow> ''RPC failed'')"

definition client_metaserverDir :: string where
  "client_metaserverDir = ''/project1/parashar-001/zw241/software/eventDrivenWorkflow/src/metadatamanagement'' @ ''/Metaserver''"

definition getAddr :: "os \<Rightarrow> string" where
  "getAddr s = (case loadAddrInDir client_metaserverDir s of [] \<Rightarrow> [] | a # _ \<Rightarrow> a)"

text \<open>The call a client makes, if it finds a server.\<close>

definition recordKey :: "string \<Rightarrow> os \<Rightarrow> (string \<times> mrpc) option" where
  "recordKey key s = (let a = getAddr s in if a = [] then None else Some (a, MRecordtime key))"

definition recordKeyStart :: "string \<Rightarrow> os \<Rightarrow> (string \<times> mrpc) option" where
  "recordKeyStart key s = (let a = getAddr s in if a = [] then None else Some (a, MRecordtimestart key))"

definition recordKeyTick :: "string \<Rightarrow> os \<Rightarrow> (string \<times> mrpc) option" where
  "recordKeyTick key s = (let a = getAddr s in if a = [] then None else Some (a, MRecordtimetick key))"

section \<open>Lemmas\<close>

text \<open>The queue of a key, empty when there is none.\<close>

definition queue_of :: "string \<Rightarrow> meta \<Rightarrow> string list" where
  "queue_of key s = map_at [] key (metaMap s)"

lemma queue_Putmeta: "queue_of k (snd (Putmeta key v s)) = (if k = key then queue_of key s @ [v] else queue_of k s)"
  by (auto simp: queue_of_def Putmeta_def list_push_def map_at_def split: option.split)

lemma Getmeta_outcome:
  "Getmeta key s = (case queue_of key s of [] \<Rightarrow> Inr (''NULL'', s)
     | v # q \<Rightarrow> Inr (v, s\<lparr>metaMap := map_put key q (metaMap s)\<rparr>))"
  by (auto simp: Getmeta_def Getmeta_test_def Getmeta_take_def queue_of_def map_at_def list_pop_def
      split: option.split list.split)

lemma queue_Getmeta:
  "Getmeta key s = Inr (r, s') \<Longrightarrow> queue_of k s' = (if k = key then tl (queue_of key s) else queue_of k s)"
  by (auto simp: Getmeta_outcome queue_of_def split: list.splits)

definition puts :: "string \<Rightarrow> string list \<Rightarrow> meta \<Rightarrow> meta" where
  "puts key vs s = fold (\<lambda>v s. snd (Putmeta key v s)) vs s"

lemma queue_puts: "queue_of k (puts key vs s) = (if k = key then queue_of key s @ vs else queue_of k s)"
  by (induction vs arbitrary: s) (auto simp: puts_def queue_Putmeta)

text \<open>A client that fetches \<open>n\<close> times.\<close>

fun gets :: "nat \<Rightarrow> string \<Rightarrow> meta \<Rightarrow> (string list \<times> meta) res" where
  "gets 0 key s = Inr ([], s)"
| "gets (Suc n) key s = bindR (Getmeta key s) (\<lambda>(r, s1). bindR (gets n key s1) (\<lambda>(rs, s2). Inr (r # rs, s2)))"

lemma gets_outcome:
  "\<exists>s'. gets n key s = Inr (take n (queue_of key s) @ replicate (n - length (queue_of key s)) ''NULL'', s')
    \<and> queue_of key s' = drop n (queue_of key s) \<and> (\<forall>k. k \<noteq> key \<longrightarrow> queue_of k s' = queue_of k s)"
proof (induction n arbitrary: s)
  case 0
  then show ?case by simp
next
  case (Suc n)
  obtain r s1 where g: "Getmeta key s = Inr (r, s1)"
    by (cases "queue_of key s") (auto simp: Getmeta_outcome)
  note q = queue_Getmeta[OF g]
  from Suc.IH[of s1] obtain s' where
    "gets n key s1 = Inr (take n (queue_of key s1) @ replicate (n - length (queue_of key s1)) ''NULL'', s')"
    "queue_of key s' = drop n (queue_of key s1)" "\<forall>k. k \<noteq> key \<longrightarrow> queue_of k s' = queue_of k s1" by blast
  note tail = this
  have head: "r = (case queue_of key s of [] \<Rightarrow> ''NULL'' | v # _ \<Rightarrow> v)"
    using g by (auto simp: Getmeta_outcome split: list.splits)
  have "gets (Suc n) key s = Inr (r # take n (tl (queue_of key s)) @ replicate (n - length (tl (queue_of key s))) ''NULL'', s')"
    using g tail(1) q[of key] by simp
  moreover have "r # take n (tl (queue_of key s)) @ replicate (n - length (tl (queue_of key s))) ''NULL'' =
      take (Suc n) (queue_of key s) @ replicate (Suc n - length (queue_of key s)) ''NULL''"
    unfolding head by (cases "queue_of key s") simp_all
  moreover have "queue_of key s' = drop (Suc n) (queue_of key s)" using tail(2) q[of key] by (simp add: drop_Suc)
  moreover have "queue_of k s' = queue_of k s" if "k \<noteq> key" for k using tail(3) q[of k] that by simp
  ultimately show ?case by (metis (no_types))
qed

section \<open>Properties\<close>

text \<open>C31: the metadata of a key comes back in the order it was put, each piece once, then \<open>NULL\<close>; the
  queues of other keys are not touched.\<close>

theorem metadata_fifo:
  "\<exists>s'. gets n key (puts key vs meta_start) = Inr (take n vs @ replicate (n - length vs) ''NULL'', s')
    \<and> queue_of key s' = drop n vs \<and> (\<forall>k. k \<noteq> key \<longrightarrow> queue_of k s' = [])"
proof -
  have "queue_of k meta_start = []" for k by (simp add: queue_of_def meta_start_def map_at_def)
  then show ?thesis using gets_outcome[of n key "puts key vs meta_start"] by (simp add: queue_puts)
qed

theorem metadata_fifo_witness:
  "\<exists>s'. gets 3 ''k'' (puts ''k'' [''a'', ''b''] meta_start) = Inr ([''a'', ''b'', ''NULL''], s') \<and> queue_of ''j'' s' = []"
proof -
  have "take 3 [''a'', ''b''] @ replicate (3 - length [''a'', ''b'']) ''NULL'' = [''a'', ''b'', ''NULL'']" by (simp add: numeral_3_eq_3)
  then show ?thesis using metadata_fifo[of 3 "''k''" "[''a'', ''b'']"] by auto
qed

text \<open>Two clients that fetch the last piece of a key at the same time break the server: both pass
  the test made outside the lock, and the second takes the front of an empty queue.\<close>

theorem getmeta_race:
  assumes "queue_of key s = [v]"
  shows "Getmeta_test key s \<and> (\<exists>s1. Getmeta_take key s = Inr (v, s1) \<and> Getmeta_take key s1 = Inl (Undefined Empty_container))"
  using assms
  by (auto simp: Getmeta_test_def Getmeta_take_def queue_of_def map_at_def list_pop_def split: option.splits)

theorem getmeta_race_witness:
  "\<exists>s1. Getmeta_take ''k'' (puts ''k'' [''v''] meta_start) = Inr (''v'', s1)
     \<and> Getmeta_take ''k'' s1 = Inl (Undefined Empty_container)"
proof -
  have "queue_of ''k'' (puts ''k'' [''v''] meta_start) = [''v'']"
    by (simp add: queue_puts) (simp add: queue_of_def meta_start_def map_at_def)
  from getmeta_race[OF this] show ?thesis by blast
qed

end
