(* ===== verification/Operator.thy ===== *)
theory Operator
  imports EventManager MetaServer
begin

text \<open>
  The operator, \<open>src/src/operator/operator.cc\<close>, and the notify server it runs in,
  \<open>src/src/operator/notifyserver.cc\<close>. A task is a bundle of a batch template with a pre-trigger, which starts
  it, and a post-trigger; each trigger is a subscription under an id of its own, and a notification under
  that id is mapped back to the trigger. The batch system is the parameter \<open>sbatch\<close>: the text a command
  leaves in the file its output is redirected to. Ids are parameters.
\<close>

section \<open>State\<close>

definition preTrg :: string where "preTrg = ''PRETRIGGURE''"
definition postTrg :: string where "postTrg = ''POSTTRIGGURE''"

text \<open>What the strings of a registration are.\<close>

type_synonym subID = string
type_synonym topic = string
type_synonym net_addr = string

record Triggure =
  tgType :: string
  subtopic :: string
  subMeta :: string
  tgTask :: string

record Bundle =
  bTaskName :: string
  taskTemplates :: string
  taskRunningID :: string
  pretg :: Triggure
  posttg :: Triggure

record oper =
  bmap :: "(string, Bundle) std_map"
  submap :: "(string, Triggure) std_map"
  NotifiedNum :: int
  op_commands :: "string list"              \<comment> \<open>what was passed to \<open>system\<close>\<close>
  op_sent :: "(string \<times> rpc) list"
  op_meta :: "(string \<times> mrpc) list"        \<comment> \<open>calls of the metadata server\<close>
  op_os :: os

text \<open>The values \<open>operator[]\<close> inserts for a missing key.\<close>

definition no_triggure :: Triggure where
  "no_triggure = \<lparr>tgType = [], subtopic = [], subMeta = [], tgTask = []\<rparr>"

definition no_bundle :: Bundle where
  "no_bundle = \<lparr>bTaskName = [], taskTemplates = [], taskRunningID = [], pretg = no_triggure, posttg = no_triggure\<rparr>"

section \<open>Operations\<close>

definition sbatch_command :: "string \<Rightarrow> string" where
  "sbatch_command templateName = ''sbatch '' @ templateName @ '' >syscommand.txt''"

text \<open>\<open>len - 5\<close> is an \<open>int\<close> that \<open>substr\<close> takes as a position: below zero it is far past the end.\<close>

definition runTaskByTemplateSlurm :: "(string \<Rightarrow> string) \<Rightarrow> string \<Rightarrow> oper \<Rightarrow> (string \<times> oper) res" where
  "runTaskByTemplateSlurm sbatch templateName s =
     (let command = sbatch_command templateName;
          s1 = s\<lparr>op_commands := op_commands s @ [command]\<rparr>;
          str = sbatch command
      in bindR (str_substr str (size_sub (length str) 5) (length str)) (\<lambda>taskID. Inr (taskID, s1)))"

definition stopTaskBySlurm :: "string \<Rightarrow> oper \<Rightarrow> oper" where
  "stopTaskBySlurm taskName s =
     (let s1 = (case recordKey taskName (op_os s) of None \<Rightarrow> s | Some c \<Rightarrow> s\<lparr>op_meta := op_meta s @ [c]\<rparr>);
          s2 = s1\<lparr>bmap := map_touch no_bundle taskName (bmap s1)\<rparr>;
          taskID = taskRunningID (map_at no_bundle taskName (bmap s2))
      in s2\<lparr>op_commands := op_commands s2 @ [''scancel '' @ taskID]\<rparr>)"

definition ActionByOperator :: "(string \<Rightarrow> string) \<Rightarrow> string \<Rightarrow> string \<Rightarrow> oper \<Rightarrow> oper res" where
  "ActionByOperator sbatch clientID meta s =
     (let s1 = s\<lparr>submap := map_touch no_triggure clientID (submap s)\<rparr>;
          triggure = map_at no_triggure clientID (submap s1);
          triggureType = tgType triggure;
          taskName = tgTask triggure;
          s2 = s1\<lparr>bmap := map_touch no_bundle taskName (bmap s1)\<rparr>;
          templates = taskTemplates (map_at no_bundle taskName (bmap s2))
      in if triggureType = preTrg
         then bindR (runTaskByTemplateSlurm sbatch templates s2) (\<lambda>(_, s3). Inr s3)
         else if triggureType = postTrg then Inr s2
         else Inr s2)"

definition testPublishTgRegister :: "string \<Rightarrow> oper \<Rightarrow> oper" where
  "testPublishTgRegister greeter s =
     s\<lparr>op_sent := op_sent s @ [(greeter, RpcPublish (publish_request [''testposttopic''] ''CLIENT''
        ''publish post triggure meta'' ''NAME''))]\<rparr>"

definition testBundleRegister ::
  "(string \<Rightarrow> string) \<Rightarrow> subID \<Rightarrow> subID \<Rightarrow> net_addr \<Rightarrow> net_addr \<Rightarrow> string \<Rightarrow> string \<Rightarrow> topic \<Rightarrow> string \<Rightarrow> topic \<Rightarrow> string \<Rightarrow>
   oper \<Rightarrow> oper res" where
  "testBundleRegister sbatch preSubID postSubID greeter notifyaddr taskName templates preTopic preMeta postTopic postMeta s =
     (let pre = \<lparr>tgType = preTrg, subtopic = preTopic, subMeta = preMeta, tgTask = taskName\<rparr>;
          post = \<lparr>tgType = postTrg, subtopic = postTopic, subMeta = postMeta, tgTask = taskName\<rparr>;
          b = \<lparr>bTaskName = taskName, taskTemplates = templates, taskRunningID = [], pretg = pre, posttg = post\<rparr>;
          s1 = s\<lparr>bmap := map_put taskName b (bmap s),
                 submap := map_put postSubID post (map_put preSubID pre (submap s))\<rparr>;
          s2 = (if postTopic \<noteq> ''NONE''
                then s1\<lparr>op_sent := op_sent s1 @ [(greeter, RpcSubscribe (subscribe_request [postTopic] postSubID notifyaddr
                       ''CLIENT'' ''NAME'' postMeta))]\<rparr>
                else s1)
      in if preTopic \<noteq> ''INIT''
         then Inr (s2\<lparr>op_sent := op_sent s2 @ [(greeter, RpcSubscribe (subscribe_request [preTopic] preSubID notifyaddr
                     ''CLIENT'' ''NAME'' preMeta))]\<rparr>)
         else bindR (runTaskByTemplateSlurm sbatch templates s2) (\<lambda>(runningID, s3).
                Inr (s3\<lparr>bmap := map_put taskName ((map_at no_bundle taskName (bmap s3))\<lparr>taskRunningID := runningID\<rparr>) (bmap s3)\<rparr>)))"

section \<open>Notify server\<close>

definition SayHello_notify :: "string \<Rightarrow> string" where
  "SayHello_notify name = ''Hello:'' @ name"

definition Notify :: "(string \<Rightarrow> string) \<Rightarrow> string \<Rightarrow> string \<Rightarrow> oper \<Rightarrow> (string \<times> oper) res" where
  "Notify sbatch clientID meta s =
     bindR (ActionByOperator sbatch clientID meta s) (\<lambda>s1.
     bindR (chk_int (NotifiedNum s1 + 1)) (\<lambda>n. Inr (''OK'', s1\<lparr>NotifiedNum := n\<rparr>)))"

text \<open>The address of the notify server; the port and the interface address are parameters.\<close>

definition getNotifyServerAddr :: "int \<Rightarrow> string \<Rightarrow> string" where
  "getNotifyServerAddr freePort ip = ip @ '':'' @ to_string freePort"

text \<open>\<open>main\<close> up to its idle loop; \<open>None\<close> is the early return when no server is listed.\<close>

definition notify_main ::
  "(string \<Rightarrow> string) \<Rightarrow> string \<Rightarrow> string \<Rightarrow> string \<Rightarrow> oper \<Rightarrow> oper res option" where
  "notify_main sbatch preSubID postSubID notifyAddr s =
     (let pserverAddr = getSingleClientFromDir (op_os s)
      in if pserverAddr = [] then None
         else Some (testBundleRegister sbatch preSubID postSubID pserverAddr notifyAddr ''ANA''
           (''/project1/parashar-001/zw241/software/eventDrivenWorkflow/tests/exp_totaltime/PatternEvent'' @ ''/runana.scripts'')
           ''ANASTART'' ''testanastart'' ''NONE'' ''POSTNONE'' s))"

section \<open>Lemmas\<close>

lemma runTask_outcome:
  "runTaskByTemplateSlurm sbatch t s =
    (let str = sbatch (sbatch_command t)
     in if 5 \<le> length str then Inr (drop (length str - 5) str, s\<lparr>op_commands := op_commands s @ [sbatch_command t]\<rparr>)
        else Inl Out_of_range)"
  by (auto simp: runTaskByTemplateSlurm_def Let_def str_substr_def size_sub_def)

lemma drop_job: "4 \<le> length job \<Longrightarrow> drop (length (p @ job @ [c]) - 5) (p @ job @ [c]) = drop (length job - 4) job @ [c]"
  by simp

text \<open>A state in which the triggers of a task are registered under two ids.\<close>

definition registered :: "string \<Rightarrow> string \<Rightarrow> string \<Rightarrow> string \<Rightarrow> oper \<Rightarrow> bool" where
  "registered pre post task templates s \<longleftrightarrow>
     (\<exists>b p q. map_of (bmap s) task = Some b \<and> taskTemplates b = templates
        \<and> map_of (submap s) pre = Some p \<and> tgType p = preTrg \<and> tgTask p = task
        \<and> map_of (submap s) post = Some q \<and> tgType q = postTrg \<and> tgTask q = task)"

lemma register_registered:
  assumes "testBundleRegister sbatch pre post g n task templates preT preM postT postM s = Inr s'" and "pre \<noteq> post"
  shows "registered pre post task templates s'"
  using assms
  by (auto simp: testBundleRegister_def Let_def registered_def runTask_outcome bindR_eq_Inr split: if_splits)

lemma Action_registered:
  assumes "registered pre post task templates s"
  shows "ActionByOperator sbatch pre meta s = bindR (runTaskByTemplateSlurm sbatch templates s) (\<lambda>(_, s3). Inr s3)"
    and "ActionByOperator sbatch post meta s = Inr s"
  using assms by (auto simp: registered_def ActionByOperator_def Let_def map_at_def preTrg_def postTrg_def)


lemma init_running_id:
  assumes "testBundleRegister sbatch pre post g n task templates ''INIT'' preM postT postM s = Inr s'"
  shows "taskRunningID (map_at no_bundle task (bmap s')) =
      (let str = sbatch (sbatch_command templates) in drop (length str - 5) str)" "map_of (bmap s') task \<noteq> None"
  using assms by (auto simp: testBundleRegister_def Let_def runTask_outcome split: if_splits)

section \<open>Properties\<close>

text \<open>C24: notifications start tasks. After a bundle with distinct ids is registered, and as long as the batch
  system prints at least five characters, a notification under the id of the pre-trigger submits the
  template of the task exactly once; one under the id of the post-trigger submits nothing. Both leave
  the triggers registered, so this holds for every later notification.\<close>

theorem notification_starts_task:
  assumes "registered pre post task templates s" and "is_int32 (NotifiedNum s + 1)"
    and "5 \<le> length (sbatch (sbatch_command templates))"
  shows "(\<exists>s'. Notify sbatch pre meta s = Inr (''OK'', s') \<and> registered pre post task templates s'
        \<and> op_commands s' = op_commands s @ [sbatch_command templates])
    \<and> (\<exists>s'. Notify sbatch post meta s = Inr (''OK'', s') \<and> registered pre post task templates s'
        \<and> op_commands s' = op_commands s)"
proof -
  have "registered pre post task templates (s\<lparr>op_commands := cs, NotifiedNum := n\<rparr>)"
    "registered pre post task templates (s\<lparr>NotifiedNum := n\<rparr>)" for cs n
    using assms(1) by (simp_all add: registered_def)
  with assms(2,3) show ?thesis
    by (simp add: Notify_def Action_registered[OF assms(1)] runTask_outcome Let_def)
qed

definition demo_oper :: oper where
  "demo_oper = \<lparr>bmap = [], submap = [], NotifiedNum = 0, op_commands = [], op_sent = [], op_meta = [],
     op_os = \<lparr>files = (\<lambda>_. None), fds = [], fdLimit = 0\<rparr>\<rparr>"

definition demo_sbatch :: "string \<Rightarrow> string" where
  "demo_sbatch c = ''Submitted batch job 43942'' @ [CHR 0x0A]"

lemma demo_registers:
  obtains s where "testBundleRegister demo_sbatch ''i'' ''j'' ''h:1'' ''n:1'' ''ANA'' ''t.scripts'' ''GO'' [] ''NONE'' [] demo_oper = Inr s"
    "op_commands s = []" "NotifiedNum s = 0"
  by (simp add: testBundleRegister_def Let_def demo_oper_def)

theorem notification_starts_task_witness:
  "\<exists>s s'. testBundleRegister demo_sbatch ''i'' ''j'' ''h:1'' ''n:1'' ''ANA'' ''t.scripts'' ''GO'' [] ''NONE'' [] demo_oper = Inr s
     \<and> Notify demo_sbatch ''i'' ''m'' s = Inr (''OK'', s') \<and> op_commands s' = [''sbatch t.scripts >syscommand.txt'']"
proof -
  obtain s where s: "testBundleRegister demo_sbatch ''i'' ''j'' ''h:1'' ''n:1'' ''ANA'' ''t.scripts'' ''GO'' [] ''NONE'' [] demo_oper = Inr s"
    "op_commands s = []" "NotifiedNum s = 0" using demo_registers .
  from notification_starts_task[OF register_registered[OF s(1)], of demo_sbatch "''m''"] s show ?thesis
    by (auto simp: demo_sbatch_def sbatch_command_def is_int32_def INT_MIN_def INT_MAX_def)
qed

text \<open>The wrong job is cancelled. For a task that is started at registration the operator records the last
  five characters of the answer \<open>Submitted batch job n\<close>, which ends in a newline: the last four digits
  of \<open>n\<close> and the newline. Stopping the task cancels that number; stopping a task its trigger started
  names no job at all.\<close>

theorem recorded_job_id:
  assumes "testBundleRegister sbatch pre post g n task templates ''INIT'' preM postT postM s = Inr s'" and "4 \<le> length job"
    and "sbatch (sbatch_command templates) = ''Submitted batch job '' @ job @ [CHR 0x0A]"
    and "registered pre2 post2 task2 templates2 s2" and "Notify sbatch pre2 meta s2 = Inr (msg, s3)"
    and "taskRunningID (map_at no_bundle task2 (bmap s2)) = []"
  shows "last (op_commands (stopTaskBySlurm task s')) = ''scancel '' @ drop (length job - 4) job @ [CHR 0x0A]
    \<and> last (op_commands (stopTaskBySlurm task2 s3)) = ''scancel ''"
proof
  let ?out = "''Submitted batch job '' @ job @ [CHR 0x0A]"
  have "drop (length ?out - 5) ?out = drop (length job - 4) job @ [CHR 0x0A]" by (rule drop_job[OF assms(2)])
  with init_running_id[OF assms(1)] have "taskRunningID (map_at no_bundle task (bmap s')) = drop (length job - 4) job @ [CHR 0x0A]"
    "map_of (bmap s') task \<noteq> None" unfolding assms(3) by simp_all
  then show "last (op_commands (stopTaskBySlurm task s')) = ''scancel '' @ drop (length job - 4) job @ [CHR 0x0A]"
    by (auto simp: stopTaskBySlurm_def Let_def split: option.split)
  have "bmap s3 = bmap s2" "map_of (bmap s2) task2 \<noteq> None"
    using assms(4,5) by (auto simp: Notify_def Action_registered[OF assms(4)] runTask_outcome bindR_eq_Inr Let_def registered_def split: if_splits)
  with assms(6) show "last (op_commands (stopTaskBySlurm task2 s3)) = ''scancel ''"
    by (auto simp: stopTaskBySlurm_def Let_def split: option.split)
qed

theorem recorded_job_id_witness:
  "\<exists>s'. testBundleRegister demo_sbatch ''a'' ''b'' ''h:1'' ''n:1'' ''SIM'' ''s.scripts'' ''INIT'' [] ''NONE'' [] demo_oper = Inr s'
     \<and> last (op_commands (stopTaskBySlurm ''SIM'' s')) = ''scancel 3942'' @ [CHR 0x0A]"
proof -
  let ?reg = "testBundleRegister demo_sbatch ''a'' ''b'' ''h:1'' ''n:1'' ''SIM'' ''s.scripts'' ''INIT'' [] ''NONE'' [] demo_oper"
  have "returns ?reg" by (simp add: testBundleRegister_def Let_def runTask_outcome demo_sbatch_def)
  then obtain s' where s': "?reg = Inr s'" by (auto simp: returns_iff)
  obtain s where s: "testBundleRegister demo_sbatch ''i'' ''j'' ''h:1'' ''n:1'' ''ANA'' ''t.scripts'' ''GO'' [] ''NONE'' [] demo_oper = Inr s"
    "op_commands s = []" "NotifiedNum s = 0" using demo_registers .
  have r: "registered ''i'' ''j'' ''ANA'' ''t.scripts'' s" by (rule register_registered[OF s(1)]) simp
  have "returns (Notify demo_sbatch ''i'' ''m'' s)"
    by (simp add: Notify_def Action_registered[OF r] runTask_outcome demo_sbatch_def Let_def s is_int32_def INT_MIN_def INT_MAX_def)
  then obtain msg s3 where s3: "Notify demo_sbatch ''i'' ''m'' s = Inr (msg, s3)" by (auto simp: returns_iff)
  have "taskRunningID (map_at no_bundle ''ANA'' (bmap s)) = []"
    using s(1) by (auto simp: testBundleRegister_def Let_def)
  from recorded_job_id[OF s' _ _ r s3 this, of "''43942''"] s' show ?thesis by (auto simp: demo_sbatch_def)
qed

end
