(* ===== verification/TaskManager.thy ===== *)
theory TaskManager
  imports EventManager Double "HOL-Library.Multiset"
begin

text \<open>
  The task managers and their event store, \<open>src/src/observer/taskmanager.cpp\<close> with \<open>observer.cpp\<close> and the
  structures of \<open>common.h\<close> and \<open>taskcommon.h\<close>. A task subscribes to one event and publishes another when its
  action is done; the store groups the tasks by the event they wait for, and publishing an event walks
  the store recursively. Task managers live on a heap with explicit addresses. A head of the store shares
  the event object of the task that created it, so it refers to that task's address. The functions of
  tasks come from shared objects and are named by the path of the object; what \<open>dlopen\<close> and \<open>dlsym\<close> find
  and what the functions compute are parameters. The result of a publication is the list of actions
  started, in order; \<open>None\<close> is unbounded recursion.
\<close>

section \<open>State\<close>

datatype TaskType = BLOCKED | UNBLOCKED

text \<open>A function pointer: the memory of an observer comes from \<open>malloc\<close> and is not cleared.\<close>

datatype fptr = Uninit | NullF | Fn string

record Observer =
  actionfunc :: fptr
  filterfunc :: fptr
  aggfilterfunc :: fptr

record TaskManager =
  tmName :: string
  aggRule :: "string option"
  subEvent :: string
  publishEvent :: string
  tasktype :: TaskType
  observer :: "Observer option"

record HeadNode =
  te :: nat              \<comment> \<open>the task manager whose event object the head shares\<close>
  tmList :: "nat list"

record tasks =
  tms :: "nat \<rightharpoonup> TaskManager"
  nextTm :: nat
  taskManagerGlobal :: "(string, nat) std_map"
  es :: "HeadNode list"

definition tasks_start :: tasks where
  "tasks_start = \<lparr>tms = (\<lambda>_. None), nextTm = 0, taskManagerGlobal = [], es = []\<rparr>"

definition tm_at :: "tasks \<Rightarrow> nat \<Rightarrow> TaskManager res" where
  "tm_at st a = (case tms st a of None \<Rightarrow> Inl (Undefined Dangling_pointer) | Some t \<Rightarrow> Inr t)"

definition set_tm :: "nat \<Rightarrow> TaskManager \<Rightarrow> tasks \<Rightarrow> tasks" where
  "set_tm a t st = st\<lparr>tms := (tms st)(a \<mapsto> t)\<rparr>"

text \<open>Names and events are copied into arrays of 20 bytes with their terminator.\<close>

definition copy20 :: "string \<Rightarrow> string res" where
  "copy20 t = (if length t < 20 then Inr t else Inl (Undefined Buffer_overflow))"

section \<open>Registration\<close>

definition getTmfromES :: "string \<Rightarrow> tasks \<Rightarrow> nat option" where
  "getTmfromES tmname st = map_of (taskManagerGlobal st) tmname"

fun listed :: "tasks \<Rightarrow> string \<Rightarrow> nat list \<Rightarrow> bool res" where
  "listed st name [] = Inr False"
| "listed st name (a # as) = bindR (tm_at st a) (\<lambda>t. if name = tmName t then Inr True else listed st name as)"

text \<open>The loop over the heads: the first one with the event takes the task unless a task of the same
  name is listed; a new head is appended when no head has the event.\<close>

fun registerLoop :: "tasks \<Rightarrow> nat \<Rightarrow> string \<Rightarrow> string \<Rightarrow> HeadNode list \<Rightarrow> HeadNode list res" where
  "registerLoop st a name ev [] = Inr [\<lparr>te = a, tmList = [a]\<rparr>]"
| "registerLoop st a name ev (h # hs) =
     bindR (tm_at st (te h)) (\<lambda>owner.
       if ev = subEvent owner
       then bindR (listed st name (tmList h)) (\<lambda>b. Inr ((if b then h else h\<lparr>tmList := tmList h @ [a]\<rparr>) # hs))
       else bindR (registerLoop st a name ev hs) (\<lambda>hs'. Inr (h # hs')))"

definition registerEvent :: "nat \<Rightarrow> tasks \<Rightarrow> tasks res" where
  "registerEvent a st =
     bindR (tm_at st a) (\<lambda>t. bindR (registerLoop st a (tmName t) (subEvent t) (es st)) (\<lambda>hs. Inr (st\<lparr>es := hs\<rparr>)))"

definition Task_pushevent :: "nat \<Rightarrow> string \<Rightarrow> tasks \<Rightarrow> tasks res" where
  "Task_pushevent a event_str st =
     bindR (copy20 event_str) (\<lambda>e. bindR (tm_at st a) (\<lambda>t. Inr (set_tm a (t\<lparr>publishEvent := e\<rparr>) st)))"

text \<open>The program calls \<open>Task_subscribe\<close> from \<open>Task_create\<close> only, on a task that heads no list yet. The event a list
  is kept for is that of the task that made it, so the definition is that of the code for such calls; on a task
  that heads a list the code would leave the old event with the list.\<close>

definition Task_subscribe :: "nat \<Rightarrow> string \<Rightarrow> tasks \<Rightarrow> tasks res" where
  "Task_subscribe a event_str st =
     bindR (copy20 event_str) (\<lambda>e. bindR (tm_at st a) (\<lambda>t. registerEvent a (set_tm a (t\<lparr>subEvent := e\<rparr>) st)))"

definition Task_create ::
  "string \<Rightarrow> string option \<Rightarrow> string \<Rightarrow> string \<Rightarrow> TaskType \<Rightarrow> tasks \<Rightarrow> (nat \<times> tasks) res" where
  "Task_create tmname aggRule' subevent pubevent taskType st =
     (case getTmfromES tmname st of
        Some tm \<Rightarrow> Inr (tm, st)
      | None \<Rightarrow>
          let a = nextTm st
          in bindR (copy20 tmname) (\<lambda>nm.
             bindR (case aggRule' of None \<Rightarrow> Inr None | Some r \<Rightarrow> bindR (copy20 r) (\<lambda>r'. Inr (Some r'))) (\<lambda>rule.
             let st1 = (set_tm a \<lparr>tmName = nm, aggRule = rule, subEvent = [], publishEvent = [], tasktype = taskType, observer = None\<rparr> st)
                         \<lparr>nextTm := Suc a\<rparr>
             in bindR (Task_pushevent a pubevent st1) (\<lambda>st2.
                bindR (Task_subscribe a subevent st2) (\<lambda>st3.
                  Inr (a, st3\<lparr>taskManagerGlobal := map_put tmname a (taskManagerGlobal st3)\<rparr>))))))"

definition observerNew :: "fptr \<Rightarrow> Observer" where
  "observerNew actionfunc' = \<lparr>actionfunc = actionfunc', filterfunc = Uninit, aggfilterfunc = Uninit\<rparr>"

definition Task_registerAction :: "nat \<Rightarrow> fptr \<Rightarrow> tasks \<Rightarrow> tasks res" where
  "Task_registerAction a actionfun st =
     bindR (tm_at st a) (\<lambda>t. Inr (if observer t = None then set_tm a (t\<lparr>observer := Some (observerNew actionfun)\<rparr>) st else st))"

definition Task_registerFilter :: "nat \<Rightarrow> fptr \<Rightarrow> tasks \<Rightarrow> tasks res" where
  "Task_registerFilter a f st =
     bindR (tm_at st a) (\<lambda>t. Inr (case observer t of None \<Rightarrow> st
       | Some obs \<Rightarrow> set_tm a (t\<lparr>observer := Some (obs\<lparr>filterfunc := f\<rparr>)\<rparr>) st))"

definition Task_registerAggreFilter :: "nat \<Rightarrow> fptr \<Rightarrow> tasks \<Rightarrow> tasks res" where
  "Task_registerAggreFilter a f st =
     bindR (tm_at st a) (\<lambda>t. Inr (case observer t of None \<Rightarrow> st
       | Some obs \<Rightarrow> set_tm a (t\<lparr>observer := Some (obs\<lparr>aggfilterfunc := f\<rparr>)\<rparr>) st))"

definition Task_getPublishEvent :: "nat \<Rightarrow> tasks \<Rightarrow> string res" where
  "Task_getPublishEvent a st = bindR (tm_at st a) (\<lambda>t. Inr (publishEvent t))"

section \<open>Removal\<close>

text \<open>The inner loop of \<open>deleteTmfromES\<close>: the bound \<open>tmlistCount\<close> is read before the loop, an erased element
  shifts the others down.\<close>

function deleteLoop :: "tasks \<Rightarrow> string \<Rightarrow> nat list \<Rightarrow> nat \<Rightarrow> nat \<Rightarrow> nat list res" where
  "deleteLoop st name l j tmlistCount =
     (if j < tmlistCount
      then bindR (vec_at l j) (\<lambda>a. bindR (tm_at st a) (\<lambda>t.
             deleteLoop st name (if name = tmName t then take j l @ drop (Suc j) l else l) (Suc j) tmlistCount))
      else Inr l)"
  by pat_completeness auto

termination
  by (relation "measure (\<lambda>(st, name, l, j, n). n - j)") auto

declare deleteLoop.simps [simp del]

fun deleteHeads :: "tasks \<Rightarrow> string \<Rightarrow> string \<Rightarrow> HeadNode list \<Rightarrow> HeadNode list res" where
  "deleteHeads st name ev [] = Inr []"
| "deleteHeads st name ev (h # hs) =
     bindR (tm_at st (te h)) (\<lambda>owner.
     bindR (if ev = subEvent owner
            then bindR (deleteLoop st name (tmList h) 0 (length (tmList h))) (\<lambda>l. Inr (h\<lparr>tmList := l\<rparr>))
            else Inr h) (\<lambda>h'.
     bindR (deleteHeads st name ev hs) (\<lambda>hs'. Inr (h' # hs'))))"

definition deleteTmfromES :: "nat \<Rightarrow> tasks \<Rightarrow> tasks res" where
  "deleteTmfromES a st =
     bindR (tm_at st a) (\<lambda>t. bindR (deleteHeads st (tmName t) (subEvent t) (es st)) (\<lambda>hs. Inr (st\<lparr>es := hs\<rparr>)))"

definition Task_destroy :: "nat option \<Rightarrow> tasks \<Rightarrow> tasks res" where
  "Task_destroy tm st = (case tm of None \<Rightarrow> Inr st
     | Some a \<Rightarrow> bindR (tm_at st a) (\<lambda>_. Inr (st\<lparr>tms := (tms st)(a := None)\<rparr>)))"


section \<open>Publication\<close>

text \<open>\<open>callNotify\<close> up to its recursive call: the observer of the task manager found under the name is
  followed, and its action, if there is one, is started in a new thread.\<close>

definition start_action :: "string \<Rightarrow> tasks \<Rightarrow> string list res" where
  "start_action name st =
     (case getTmfromES name st of
        None \<Rightarrow> Inl (Undefined Null_pointer)
      | Some b \<Rightarrow> bindR (tm_at st b) (\<lambda>t.
          case observer t of
            None \<Rightarrow> Inl (Undefined Null_pointer)
          | Some obs \<Rightarrow> (case actionfunc obs of Uninit \<Rightarrow> Inl (Undefined Uninitialized) | NullF \<Rightarrow> Inr [] | Fn f \<Rightarrow> Inr [f])))"

text \<open>The two loops of \<open>notifyTmList\<close> with the recursion through \<open>callNotify\<close>: the tasks left of the current
  head, then the heads left.\<close>

partial_function (option) notifyLoop :: "tasks \<Rightarrow> string \<Rightarrow> nat list \<Rightarrow> HeadNode list \<Rightarrow> string list res option" where
  "notifyLoop st ev ms hs =
     (case ms of
        m # ms' \<Rightarrow>
          (case tm_at st m of
             Inl e \<Rightarrow> Some (Inl e)
           | Inr t \<Rightarrow>
               if publishEvent t = ''NULL'' then notifyLoop st ev ms' hs
               else (case start_action (tmName t) st of
                       Inl e \<Rightarrow> Some (Inl e)
                     | Inr acts \<Rightarrow>
                         Option.bind (notifyLoop st (publishEvent t) [] (es st)) (\<lambda>r.
                           case r of
                             Inl e \<Rightarrow> Some (Inl e)
                           | Inr tr \<Rightarrow> Option.bind (notifyLoop st ev ms' hs) (\<lambda>r'.
                               Some (bindR r' (\<lambda>tr'. Inr (acts @ tr @ tr')))))))
      | [] \<Rightarrow>
          (case hs of
             [] \<Rightarrow> Some (Inr [])
           | h # hs' \<Rightarrow>
               (case tm_at st (te h) of
                  Inl e \<Rightarrow> Some (Inl e)
                | Inr owner \<Rightarrow> notifyLoop st ev (if ev = subEvent owner then tmList h else []) hs')))"

definition notifyTmList :: "tasks \<Rightarrow> string \<Rightarrow> string list res option" where
  "notifyTmList st ev = notifyLoop st ev [] (es st)"

definition callNotify :: "string \<Rightarrow> string \<Rightarrow> tasks \<Rightarrow> string list res option" where
  "callNotify name ev st =
     (case start_action name st of
        Inl e \<Rightarrow> Some (Inl e)
      | Inr acts \<Rightarrow> map_option (\<lambda>r. bindR r (\<lambda>tr. Inr (acts @ tr))) (notifyTmList st ev))"

text \<open>The body of the thread of a task without a subscription; a null function pointer is called.\<close>

definition executeActionFunc :: "nat \<Rightarrow> tasks \<Rightarrow> string list res" where
  "executeActionFunc a st =
     bindR (tm_at st a) (\<lambda>t. case observer t of
        None \<Rightarrow> Inl (Undefined Null_pointer)
      | Some obs \<Rightarrow> (case actionfunc obs of Uninit \<Rightarrow> Inl (Undefined Uninitialized) | NullF \<Rightarrow> Inl (Undefined Null_pointer)
                                         | Fn f \<Rightarrow> Inr [f]))"

definition startFirstAction :: "nat \<Rightarrow> tasks \<Rightarrow> string list res option" where
  "startFirstAction a st =
     (case executeActionFunc a st of
        Inl e \<Rightarrow> Some (Inl e)
      | Inr acts \<Rightarrow> (case tm_at st a of
          Inl e \<Rightarrow> Some (Inl e)
        | Inr t \<Rightarrow> map_option (\<lambda>r. bindR r (\<lambda>tr. Inr (acts @ tr))) (notifyTmList st (publishEvent t))))"

section \<open>Filters\<close>

definition obs_at :: "nat \<Rightarrow> tasks \<Rightarrow> Observer res" where
  "obs_at a st = bindR (tm_at st a) (\<lambda>t. case observer t of None \<Rightarrow> Inl (Undefined Null_pointer) | Some obs \<Rightarrow> Inr obs)"

definition IfFilterAggregation :: "nat \<Rightarrow> tasks \<Rightarrow> int res" where
  "IfFilterAggregation a st =
     bindR (obs_at a st) (\<lambda>obs. case aggfilterfunc obs of Uninit \<Rightarrow> Inl (Undefined Uninitialized) | NullF \<Rightarrow> Inr 0 | Fn _ \<Rightarrow> Inr 1)"

definition TaskFilter :: "(string \<Rightarrow> rat \<Rightarrow> rat \<Rightarrow> int) \<Rightarrow> nat \<Rightarrow> rat \<Rightarrow> rat \<Rightarrow> tasks \<Rightarrow> int res" where
  "TaskFilter call a value' constraint st =
     bindR (obs_at a st) (\<lambda>obs. case filterfunc obs of Uninit \<Rightarrow> Inl (Undefined Uninitialized) | NullF \<Rightarrow> Inr 0
                                                  | Fn f \<Rightarrow> Inr (call f value' constraint))"

definition TaskReductionFilter :: "(string \<Rightarrow> rat \<Rightarrow> rat \<Rightarrow> int) \<Rightarrow> nat \<Rightarrow> rat \<Rightarrow> rat \<Rightarrow> tasks \<Rightarrow> int res" where
  "TaskReductionFilter call a value' constraint st =
     bindR (obs_at a st) (\<lambda>obs. case aggfilterfunc obs of Uninit \<Rightarrow> Inl (Undefined Uninitialized) | NullF \<Rightarrow> Inr 0
                                                     | Fn f \<Rightarrow> Inr (call f value' constraint))"

section \<open>Task files\<close>

definition so_path :: "string \<Rightarrow> string \<Rightarrow> string \<Rightarrow> string" where
  "so_path projectPath tmDir name = take 99 (projectPath @ ''/'' @ tmDir @ ''/'' @ name)"

text \<open>\<open>dlo p\<close>: the object \<open>p\<close> can be loaded; \<open>dls p sym\<close>: it defines \<open>sym\<close>. The result is the new state and the
  task whose first action a new thread executes, if there is one. When the action's object cannot be
  loaded, the code reads a handle that was never assigned; every other failure of the loader ends the
  process.\<close>

definition TaskFileParsing ::
  "(string \<Rightarrow> json) \<Rightarrow> (string \<Rightarrow> bool) \<Rightarrow> (string \<Rightarrow> string \<Rightarrow> bool) \<Rightarrow> string \<Rightarrow> string \<Rightarrow> string \<Rightarrow> string \<Rightarrow> tasks \<Rightarrow>
   (nat option \<times> tasks) res" where
  "TaskFileParsing parse dlo dls taskName jsonbuffer projectPath tmDir st =
     (let d = parse jsonbuffer
      in bindR (string_at d ''subscribeEvent'') (\<lambda>subscribeevent.
         bindR (string_at d ''publishEvent'') (\<lambda>pushevent.
         bindR (json_has d ''aggregationrule'') (\<lambda>ifContainAggre.
         bindR (json_has d ''aggregationFilterFunc'') (\<lambda>ifContainAggreFunc.
         bindR (json_has d ''taskType'') (\<lambda>ifUnblocked.
         let taskType = (if ifUnblocked then UNBLOCKED else BLOCKED)
         in bindR (if ifContainAggre \<and> ifContainAggreFunc
                   then bindR (string_at d ''aggregationrule'') (\<lambda>rule.
                        bindR (Task_create taskName (Some rule) subscribeevent pushevent taskType st) (\<lambda>(t, st1).
                        bindR (string_at d ''aggregationFilterFunc'') (\<lambda>agg.
                        bindR (string_at d ''filterFunc'') (\<lambda>filt.
                        let aggP = so_path projectPath tmDir agg; filtP = so_path projectPath tmDir filt
                        in bindR (Task_registerFilter t (if dls filtP ''filter'' then Fn filtP else NullF) st1) (\<lambda>st2.
                           bindR (Task_registerAggreFilter t (if dls aggP ''aggregatefilter'' then Fn aggP else NullF) st2) (\<lambda>st3.
                             if dlo aggP \<and> dlo filtP \<and> dls filtP ''filter'' \<and> dls aggP ''aggregatefilter''
                             then Inr (t, st3) else Inl (Process_exit 1)))))))
                   else bindR (Task_create taskName None subscribeevent pushevent taskType st) (\<lambda>(t, st1).
                        bindR (string_at d ''actionFunc'') (\<lambda>act.
                        let actP = so_path projectPath tmDir act
                        in if \<not> dlo actP then Inl (Undefined Uninitialized)
                           else bindR (Task_registerAction t (if dls actP ''action'' then Fn actP else NullF) st1) (\<lambda>st2.
                                  if dls actP ''action'' then Inr (t, st2) else Inl (Process_exit 1)))))
              (\<lambda>(t, st4). bindR (tm_at st4 t) (\<lambda>tm. Inr (if subEvent tm = ''NULL'' then Some t else None, st4)))))))))"


section \<open>The event store as its users see it\<close>

definition ev_of :: "tasks \<Rightarrow> HeadNode \<Rightarrow> string" where
  "ev_of st h = subEvent (the (tms st (te h)))"

text \<open>The tasks filed under an event, in the order a publication visits them.\<close>

definition subscribers :: "tasks \<Rightarrow> string \<Rightarrow> nat list" where
  "subscribers st ev = concat (map tmList (filter (\<lambda>h. ev_of st h = ev) (es st)))"

definition waiting :: "tasks \<Rightarrow> string \<Rightarrow> nat set" where
  "waiting st ev = {a. \<exists>t. tms st a = Some t \<and> subEvent t = ev}"

definition tasks_inv :: "tasks \<Rightarrow> bool" where
  "tasks_inv st \<longleftrightarrow>
     (\<forall>a \<in> dom (tms st). a < nextTm st)
   \<and> (\<forall>n a. map_of (taskManagerGlobal st) n = Some a \<longleftrightarrow> (\<exists>t. tms st a = Some t \<and> tmName t = n))
   \<and> (\<forall>h \<in> set (es st). te h \<in> dom (tms st) \<and> set (tmList h) \<subseteq> dom (tms st))
   \<and> (\<forall>ev. distinct (subscribers st ev) \<and> set (subscribers st ev) = waiting st ev)"

lemma tasks_inv_start: "tasks_inv tasks_start"
  by (simp add: tasks_inv_def tasks_start_def subscribers_def waiting_def)

lemma tm_at_live [simp]: "tms st a = Some t \<Longrightarrow> tm_at st a = Inr t"
  by (simp add: tm_at_def)

lemma tm_at_Inr: "tm_at st a = Inr t \<longleftrightarrow> tms st a = Some t"
  by (simp add: tm_at_def split: option.split)

lemma copy20_Inr: "copy20 s = Inr t \<longleftrightarrow> t = s \<and> length s < 20"
  by (auto simp: copy20_def)

text \<open>Filing a task: after the last task of the event, or under a new head at the end.\<close>

fun file_task :: "(HeadNode \<Rightarrow> string) \<Rightarrow> nat \<Rightarrow> string \<Rightarrow> HeadNode list \<Rightarrow> HeadNode list" where
  "file_task evf a ev [] = [\<lparr>te = a, tmList = [a]\<rparr>]"
| "file_task evf a ev (h # hs) =
     (if evf h = ev then h\<lparr>tmList := tmList h @ [a]\<rparr> # hs else h # file_task evf a ev hs)"

lemma listed_fresh: "\<forall>a \<in> set as. \<exists>t. tms st a = Some t \<and> tmName t \<noteq> n \<Longrightarrow> listed st n as = Inr False"
  by (induction as) auto

lemma registerLoop_files:
  assumes "\<forall>h \<in> set hs. te h \<in> dom (tms st) \<and> (\<forall>b \<in> set (tmList h). \<exists>t. tms st b = Some t \<and> tmName t \<noteq> n)"
  shows "registerLoop st a n ev hs = Inr (file_task (ev_of st) a ev hs)"
  using assms by (induction hs) (auto simp: ev_of_def listed_fresh)

lemma file_task_te: "te ` set (file_task evf a ev hs) \<subseteq> insert a (te ` set hs)"
  by (induction hs) auto

lemma file_task_lists: "\<Union> (set ` tmList ` set (file_task evf a ev hs)) = insert a (\<Union> (set ` tmList ` set hs))"
  by (induction hs) auto

text \<open>The tasks under each event afterwards; \<open>evf\<close> looks only at the shared event object.\<close>

lemma file_task_filter:
  assumes "\<And>h l. evf (h\<lparr>tmList := l\<rparr>) = evf h" and "evf \<lparr>te = a, tmList = [a]\<rparr> = ev"
  shows "e \<noteq> ev \<Longrightarrow> concat (map tmList (filter (\<lambda>h. evf h = e) (file_task evf a ev hs))) = concat (map tmList (filter (\<lambda>h. evf h = e) hs))"
    and "mset (concat (map tmList (filter (\<lambda>h. evf h = ev) (file_task evf a ev hs)))) =
         add_mset a (mset (concat (map tmList (filter (\<lambda>h. evf h = ev) hs))))"
  using assms(1,2) by (induction hs) auto


definition new_task :: "string \<Rightarrow> string option \<Rightarrow> string \<Rightarrow> string \<Rightarrow> TaskType \<Rightarrow> TaskManager" where
  "new_task n r s p ty = \<lparr>tmName = n, aggRule = r, subEvent = s, publishEvent = p, tasktype = ty, observer = None\<rparr>"

lemma ev_of_cong: "tms st = tms st' \<Longrightarrow> ev_of st = ev_of st'"
  by (simp add: ev_of_def fun_eq_iff)

lemma new_task_files:
  assumes inv: "tasks_inv st" and fresh: "getTmfromES n st = None" and "tmName tm = n"
  defines "st1 \<equiv> st\<lparr>nextTm := Suc (nextTm st), tms := (tms st)(nextTm st \<mapsto> tm)\<rparr>"
  shows "registerLoop st1 (nextTm st) n s (es st) = Inr (file_task (ev_of st1) (nextTm st) s (es st))"
proof (rule registerLoop_files, rule ballI)
  fix h assume "h \<in> set (es st)"
  with inv have "te h \<in> dom (tms st)" "set (tmList h) \<subseteq> dom (tms st)" by (auto simp: tasks_inv_def)
  moreover have "b \<noteq> nextTm st \<and> (\<exists>t. tms st b = Some t \<and> tmName t \<noteq> n)" if "b \<in> dom (tms st)" for b
    using inv fresh that unfolding tasks_inv_def getTmfromES_def by (metis domD less_irrefl option.distinct(1))
  ultimately show "te h \<in> dom (tms st1) \<and> (\<forall>b \<in> set (tmList h). \<exists>t. tms st1 b = Some t \<and> tmName t \<noteq> n)"
    unfolding st1_def by fastforce
qed

lemmas create_simps = Task_create_def Let_def copy20_Inr Task_pushevent_def Task_subscribe_def set_tm_def tm_at_def
  registerEvent_def new_task_def

lemma Task_create_outcome:
  assumes inv: "tasks_inv st" and fresh: "getTmfromES n st = None"
    and c: "Task_create n r s p ty st = Inr (a, st')"
  shows "a = nextTm st" and "tms st' = (tms st)(a \<mapsto> new_task n r s p ty)" and "nextTm st' = Suc a"
    and "taskManagerGlobal st' = map_put n a (taskManagerGlobal st)" and "es st' = file_task (ev_of st') a s (es st)"
proof -
  let ?a = "nextTm st"
  let ?s3 = "st\<lparr>nextTm := Suc ?a, tms := (tms st)(?a \<mapsto> new_task n r s p ty)\<rparr>"
  have "registerLoop ?s3 ?a n s (es st) = Inr (file_task (ev_of ?s3) ?a s (es st))"
    by (rule new_task_files[OF inv fresh]) (simp add: new_task_def)
  with c fresh have eq: "a = ?a" "st' = ?s3\<lparr>es := file_task (ev_of ?s3) ?a s (es st), taskManagerGlobal := map_put n ?a (taskManagerGlobal st)\<rparr>"
    by (auto simp: create_simps bindR_eq_Inr split: option.splits)
  show "a = nextTm st" "tms st' = (tms st)(a \<mapsto> new_task n r s p ty)" "nextTm st' = Suc a"
    "taskManagerGlobal st' = map_put n a (taskManagerGlobal st)" by (simp_all add: eq)
  have "ev_of st' = ev_of ?s3" by (rule ev_of_cong) (simp add: eq(2))
  then show "es st' = file_task (ev_of st') a s (es st)" by (simp only: eq) simp
qed

lemma Task_create_subscribers:
  assumes inv: "tasks_inv st" and fresh: "getTmfromES n st = None" and c: "Task_create n r s p ty st = Inr (a, st')"
  shows "mset (subscribers st' ev) = (if ev = s then {#a#} else {#}) + mset (subscribers st ev)"
proof -
  note o = Task_create_outcome[OF assms]
  have a: "a \<notin> dom (tms st)" using inv by (auto simp: tasks_inv_def o(1))
  have "ev_of st' h = ev_of st h" if "h \<in> set (es st)" for h
  proof -
    have "te h \<noteq> a" using inv that a by (auto simp: tasks_inv_def)
    then show ?thesis by (simp add: ev_of_def o(2))
  qed
  then have old: "filter (\<lambda>h. ev_of st' h = e) (es st) = filter (\<lambda>h. ev_of st h = e) (es st)" for e
    by (intro filter_cong) auto
  have keep: "ev_of st' (h\<lparr>tmList := l\<rparr>) = ev_of st' h" for h l by (simp add: ev_of_def)
  have new: "ev_of st' \<lparr>te = a, tmList = [a]\<rparr> = s" by (simp add: ev_of_def o(2) new_task_def)
  show ?thesis
    using file_task_filter(1)[of "ev_of st'" a s ev "es st", OF keep new] file_task_filter(2)[of "ev_of st'" a s "es st", OF keep new] by (auto simp: subscribers_def o(5) old)
qed

lemma Task_create_inv:
  assumes inv: "tasks_inv st" and c: "Task_create n r s p ty st = Inr (a, st')"
  shows "tasks_inv st'"
proof (cases "getTmfromES n st")
  case (Some b)
  then show ?thesis using c inv by (simp add: Task_create_def)
next
  case None
  note o = Task_create_outcome[OF inv None c]
  have a: "a \<notin> dom (tms st)" using inv by (auto simp: tasks_inv_def o(1))
  have w: "waiting st' ev = (if ev = s then {a} else {}) \<union> waiting st ev" for ev
    using a by (auto simp: waiting_def o(2) new_task_def split: if_splits)
  have "distinct (subscribers st' ev) \<and> set (subscribers st' ev) = waiting st' ev" for ev
  proof -
    have m: "mset (subscribers st' ev) = (if ev = s then {#a#} else {#}) + mset (subscribers st ev)"
      by (rule Task_create_subscribers[OF inv None c])
    have d: "distinct (subscribers st ev)" "set (subscribers st ev) = waiting st ev" "a \<notin> waiting st ev"
      using inv a by (auto simp: tasks_inv_def waiting_def)
    have "set (subscribers st' ev) = (if ev = s then {a} else {}) \<union> set (subscribers st ev)"
      using arg_cong[OF m, of set_mset] by (auto split: if_splits)
    moreover have "mset (subscribers st' ev) = mset (if ev = s then a # subscribers st ev else subscribers st ev)"
      using m by simp
    then have "distinct (subscribers st' ev) = distinct (if ev = s then a # subscribers st ev else subscribers st ev)"
      by (rule mset_eq_imp_distinct_iff)
    ultimately show ?thesis using d w by auto
  qed
  moreover have "\<forall>b \<in> dom (tms st'). b < nextTm st'"
    using inv o(1) by (auto simp: o(2,3) tasks_inv_def less_Suc_eq)
  moreover have "map_of (taskManagerGlobal st') m = Some b \<longleftrightarrow> (\<exists>t. tms st' b = Some t \<and> tmName t = m)" for m b
  proof -
    have g: "map_of (taskManagerGlobal st) k = Some c \<longleftrightarrow> (\<exists>t. tms st c = Some t \<and> tmName t = k)" for k c
      using inv by (simp add: tasks_inv_def)
    have "tmName t \<noteq> n" if "tms st c = Some t" for c t
      using None g[of n c] that by (auto simp: getTmfromES_def)
    then show ?thesis using a g[of m b] by (auto simp: o(2,4) new_task_def)
  qed
  moreover have "\<forall>h \<in> set (es st'). te h \<in> dom (tms st') \<and> set (tmList h) \<subseteq> dom (tms st')"
  proof
    fix h assume h: "h \<in> set (es st')"
    have "te ` set (es st') \<subseteq> insert a (te ` set (es st))" by (subst o(5)) (rule file_task_te)
    with h have t: "te h \<in> insert a (te ` set (es st))" by auto
    have "\<Union> (set ` tmList ` set (es st')) = insert a (\<Union> (set ` tmList ` set (es st)))"
      by (subst o(5)) (rule file_task_lists)
    moreover have "set (tmList h) \<subseteq> \<Union> (set ` tmList ` set (es st'))" using h by auto
    ultimately have l: "set (tmList h) \<subseteq> insert a (\<Union> (set ` tmList ` set (es st)))" by simp
    have old: "te h \<in> dom (tms st)" "set (tmList h) \<subseteq> dom (tms st)" if "h \<in> set (es st)" for h
      using inv that by (simp_all add: tasks_inv_def)
    then have i: "insert a (te ` set (es st)) \<subseteq> insert a (dom (tms st))"
      "insert a (\<Union> (set ` tmList ` set (es st))) \<subseteq> insert a (dom (tms st))" by auto
    have "dom (tms st') = insert a (dom (tms st))" by (simp add: o(2))
    with subsetD[OF i(1) t] subset_trans[OF l i(2)] show "te h \<in> dom (tms st') \<and> set (tmList h) \<subseteq> dom (tms st')" by simp
  qed
  ultimately show ?thesis unfolding tasks_inv_def by blast
qed


lemma set_tm_inv:
  assumes inv: "tasks_inv st" and a: "tms st a = Some t" and t: "subEvent t' = subEvent t" "tmName t' = tmName t"
  shows "tasks_inv (set_tm a t' st)"
proof -
  let ?st = "set_tm a t' st"
  have d: "dom (tms ?st) = dom (tms st)" using a by (auto simp: set_tm_def)
  have "ev_of ?st h = ev_of st h" for h using a t by (simp add: ev_of_def set_tm_def)
  then have "subscribers ?st = subscribers st" by (simp add: subscribers_def fun_eq_iff set_tm_def)
  moreover have "waiting ?st = waiting st" using a t by (auto simp: waiting_def set_tm_def fun_eq_iff)
  moreover have "(\<exists>u. tms ?st b = Some u \<and> tmName u = n) \<longleftrightarrow> (\<exists>u. tms st b = Some u \<and> tmName u = n)" for b n
    using a t by (auto simp: set_tm_def)
  moreover have "nextTm ?st = nextTm st" "taskManagerGlobal ?st = taskManagerGlobal st" "es ?st = es st" by (simp_all add: set_tm_def)
  ultimately show ?thesis using inv unfolding tasks_inv_def d by presburger
qed

text \<open>Setting a store up: creating tasks and registering their functions.\<close>

inductive store_step :: "tasks \<Rightarrow> tasks \<Rightarrow> bool" where
  step_create: "Task_create n r s p ty st = Inr (a, st') \<Longrightarrow> store_step st st'"
| step_action: "Task_registerAction a f st = Inr st' \<Longrightarrow> store_step st st'"
| step_filter: "Task_registerFilter a f st = Inr st' \<Longrightarrow> store_step st st'"
| step_aggre: "Task_registerAggreFilter a f st = Inr st' \<Longrightarrow> store_step st st'"

lemma registration_inv:
  assumes "tasks_inv st"
  shows "Task_registerAction a f st = Inr st' \<Longrightarrow> tasks_inv st'"
    and "Task_registerFilter a f st = Inr st' \<Longrightarrow> tasks_inv st'"
    and "Task_registerAggreFilter a f st = Inr st' \<Longrightarrow> tasks_inv st'"
  using set_tm_inv[OF assms] assms
  by (auto simp: Task_registerAction_def Task_registerFilter_def Task_registerAggreFilter_def bindR_eq_Inr tm_at_Inr
      split: if_splits option.splits)

interpretation store: inv_system "\<lambda>st. st = tasks_start" store_step tasks_inv
proof
  show "tasks_inv st'" if "tasks_inv st" "store_step st st'" for st st'
    using that(2) by cases (auto intro: Task_create_inv registration_inv that(1))
qed (simp add: tasks_inv_start)

section \<open>How a publication spreads\<close>

text \<open>An event leads to another when some task waits for the one and publishes the other.\<close>

definition triggers :: "tasks \<Rightarrow> string \<Rightarrow> string \<Rightarrow> bool" where
  "triggers st e e' \<longleftrightarrow> (\<exists>a t. tms st a = Some t \<and> subEvent t = e \<and> publishEvent t = e' \<and> e' \<noteq> ''NULL'')"

definition action_of :: "TaskManager \<Rightarrow> string list" where
  "action_of t = (case observer t of None \<Rightarrow> [] | Some obs \<Rightarrow> (case actionfunc obs of Fn f \<Rightarrow> [f] | _ \<Rightarrow> []))"

text \<open>Every task that publishes something has an action registered.\<close>

definition runnable :: "tasks \<Rightarrow> bool" where
  "runnable st \<longleftrightarrow> (\<forall>t \<in> ran (tms st). publishEvent t \<noteq> ''NULL'' \<longrightarrow> (\<exists>obs. observer t = Some obs \<and> actionfunc obs \<noteq> Uninit))"

lemma start_action_ok:
  assumes "tasks_inv st" and "runnable st" and "tms st a = Some t" and "publishEvent t \<noteq> ''NULL''"
  shows "start_action (tmName t) st = Inr (action_of t)"
proof -
  obtain obs where "observer t = Some obs" "actionfunc obs \<noteq> Uninit" using assms(2-4) by (auto simp: runnable_def ran_def)
  moreover have "map_of (taskManagerGlobal st) (tmName t) = Some a" using assms(1,3) by (auto simp: tasks_inv_def)
  ultimately show ?thesis using assms(3) by (auto simp: start_action_def getTmfromES_def action_of_def split: fptr.splits)
qed

lemma notifyLoop_Nil [simp]: "notifyLoop st ev [] [] = Some (Inr [])"
  by (simp add: notifyLoop.simps)

text \<open>The heads can be walked first.\<close>

lemma notifyLoop_flat:
  assumes "\<forall>h \<in> set hs. te h \<in> dom (tms st)"
  shows "notifyLoop st ev ms hs = notifyLoop st ev (ms @ concat (map tmList (filter (\<lambda>h. ev_of st h = ev) hs))) []"
  using assms
proof (induction hs arbitrary: ms)
  case Nil
  then show ?case by simp
next
  case (Cons h hs)
  then obtain owner where o: "tms st (te h) = Some owner" by auto
  let ?rest = "concat (map tmList (filter (\<lambda>h. ev_of st h = ev) hs))"
  show ?case
  proof (induction ms)
    case Nil
    have "notifyLoop st ev [] (h # hs) = notifyLoop st ev (if ev = subEvent owner then tmList h else []) hs"
      by (subst notifyLoop.simps) (simp add: o)
    also have "\<dots> = notifyLoop st ev ((if ev = subEvent owner then tmList h else []) @ ?rest) []"
      using Cons.prems by (intro Cons.IH) simp
    finally show ?case by (simp add: ev_of_def o)
  next
    case (Cons m ms)
    show ?case by (subst (1 2) notifyLoop.simps) (simp only: Cons append_Cons list.case)
  qed
qed

lemma notifyTmList_flat: "tasks_inv st \<Longrightarrow> notifyTmList st ev = notifyLoop st ev (subscribers st ev) []"
  unfolding notifyTmList_def by (subst notifyLoop_flat) (auto simp: tasks_inv_def subscribers_def)

lemma notifyLoop_Cons:
  assumes "tasks_inv st" and "runnable st" and "tms st m = Some t"
  shows "notifyLoop st ev (m # ms) [] =
    (if publishEvent t = ''NULL'' then notifyLoop st ev ms []
     else Option.bind (notifyTmList st (publishEvent t)) (\<lambda>r. case r of Inl e \<Rightarrow> Some (Inl e)
       | Inr tr \<Rightarrow> Option.bind (notifyLoop st ev ms []) (\<lambda>r'. Some (bindR r' (\<lambda>tr'. Inr (action_of t @ tr @ tr'))))))"
  using start_action_ok[OF assms] by (subst notifyLoop.simps) (simp add: assms(3) notifyTmList_def)


text \<open>A finished walk bounds every chain of events from there.\<close>

abbreviation bounded :: "tasks \<Rightarrow> string \<Rightarrow> bool" where
  "bounded st \<equiv> Wellfounded.accp (\<lambda>e' e. triggers st e e')"

lemma bounded_if_waiting:
  assumes "\<And>a t. a \<in> waiting st e \<Longrightarrow> tms st a = Some t \<Longrightarrow> publishEvent t \<noteq> ''NULL'' \<Longrightarrow> bounded st (publishEvent t)"
  shows "bounded st e"
proof (rule accpI)
  fix e' assume "triggers st e e'"
  then obtain a t where "tms st a = Some t" "subEvent t = e" "publishEvent t = e'" "e' \<noteq> ''NULL''" by (auto simp: triggers_def)
  with assms[of a t] show "bounded st e'" by (auto simp: waiting_def)
qed

definition walked :: "tasks \<Rightarrow> string \<Rightarrow> nat list \<Rightarrow> HeadNode list \<Rightarrow> string list res \<Rightarrow> bool" where
  "walked st ev ms hs r \<longleftrightarrow> (tasks_inv st \<longrightarrow> returns r \<longrightarrow>
     (\<forall>m \<in> set ms. \<forall>t. tms st m = Some t \<longrightarrow> publishEvent t \<noteq> ''NULL'' \<longrightarrow> bounded st (publishEvent t))
   \<and> (\<forall>h \<in> set hs. ev_of st h = ev \<longrightarrow>
        (\<forall>m \<in> set (tmList h). \<forall>t. tms st m = Some t \<longrightarrow> publishEvent t \<noteq> ''NULL'' \<longrightarrow> bounded st (publishEvent t))))"

lemma notifyLoop_walked: "notifyLoop st ev ms hs = Some r \<Longrightarrow> walked st ev ms hs r"
proof (rule notifyLoop.raw_induct[of walked], goal_cases)
  case (1 f st ev ms hs r)
  show ?case
  proof (cases "tasks_inv st \<and> returns r")
    case True
    then have inv: "tasks_inv st" and ret: "returns r" by simp_all
    show ?thesis
    proof (cases ms)
      case (Cons m ms')
      then obtain t where t: "tms st m = Some t" using ret 1(3) by (auto simp: tm_at_def split: option.splits)
      show ?thesis
      proof (cases "publishEvent t = ''NULL''")
        case True
        then have "f st ev ms' hs = Some r" using 1(3) Cons t by simp
        from 1(2)[OF this] True t Cons show ?thesis by (simp add: walked_def)
      next
        case False
        then obtain acts y where "start_action (tmName t) st = Inr acts" "f st (publishEvent t) [] (es st) = Some y"
          "(case y of Inl e \<Rightarrow> Some (Inl e) | Inr tr \<Rightarrow> Option.bind (f st ev ms' hs) (\<lambda>r'. Some (bindR r' (\<lambda>tr'. Inr (acts @ tr @ tr'))))) = Some r"
          using 1(3) ret Cons t by (cases "start_action (tmName t) st") (auto simp: returns_iff bind_eq_Some_conv)
        then obtain tr tr' where p: "f st (publishEvent t) [] (es st) = Some (Inr tr)" "f st ev ms' hs = Some (Inr tr')"
          using ret by (cases y) (auto simp: returns_iff bind_eq_Some_conv bindR_eq_Inr)
        have "bounded st (publishEvent t)"
        proof (rule bounded_if_waiting)
          fix a u assume "a \<in> waiting st (publishEvent t)" and u: "tms st a = Some u" "publishEvent u \<noteq> ''NULL''"
          then have "a \<in> set (subscribers st (publishEvent t))" using inv by (simp add: tasks_inv_def)
          then obtain h where "h \<in> set (es st)" "ev_of st h = publishEvent t" "a \<in> set (tmList h)"
            by (auto simp: subscribers_def)
          with 1(2)[OF p(1)] inv u show "bounded st (publishEvent u)" unfolding walked_def by auto
        qed
        with 1(2)[OF p(2)] inv t Cons show ?thesis by (simp add: walked_def)
      qed
    next
      case Nil
      show ?thesis
      proof (cases hs)
        case (Cons h hs')
        then obtain owner where o: "tms st (te h) = Some owner" using ret 1(3) Nil by (auto simp: tm_at_def split: option.splits)
        then have "f st ev (if ev = subEvent owner then tmList h else []) hs' = Some r" using 1(3) Nil Cons by simp
        from 1(2)[OF this] o Nil Cons show ?thesis by (auto simp: walked_def ev_of_def split: if_splits)
      qed (simp add: Nil walked_def)
    qed
  qed (auto simp: walked_def)
qed


text \<open>The actions a publication leads to, directly or through the events of the tasks it starts.\<close>

definition started :: "tasks \<Rightarrow> string \<Rightarrow> string set" where
  "started st ev = {f. \<exists>t \<in> ran (tms st). (triggers st)\<^sup>*\<^sup>* ev (subEvent t) \<and> publishEvent t \<noteq> ''NULL'' \<and> f \<in> set (action_of t)}"

definition starts :: "tasks \<Rightarrow> nat \<Rightarrow> string set" where
  "starts st a = (case tms st a of None \<Rightarrow> {} | Some t \<Rightarrow>
     if publishEvent t = ''NULL'' then {} else set (action_of t) \<union> started st (publishEvent t))"

lemma started_unfold: "started st ev = (\<Union>a \<in> waiting st ev. starts st a)"
proof
  show "started st ev \<subseteq> (\<Union>a \<in> waiting st ev. starts st a)"
  proof
    fix f assume "f \<in> started st ev"
    then obtain a t where t: "tms st a = Some t" "(triggers st)\<^sup>*\<^sup>* ev (subEvent t)" "publishEvent t \<noteq> ''NULL''" "f \<in> set (action_of t)"
      by (auto simp: started_def ran_def)
    from t(2) show "f \<in> (\<Union>a \<in> waiting st ev. starts st a)"
    proof (cases rule: converse_rtranclpE)
      case base
      with t show ?thesis by (auto simp: waiting_def starts_def intro!: exI[of _ a])
    next
      case (step e')
      then obtain b u where u: "tms st b = Some u" "subEvent u = ev" "publishEvent u = e'" "e' \<noteq> ''NULL''" by (auto simp: triggers_def)
      from step(2) t have "f \<in> started st e'" by (auto simp: started_def ran_def)
      with u show ?thesis by (auto simp: waiting_def starts_def intro!: exI[of _ b])
    qed
  qed
  show "(\<Union>a \<in> waiting st ev. starts st a) \<subseteq> started st ev"
  proof
    fix f assume "f \<in> (\<Union>a \<in> waiting st ev. starts st a)"
    then obtain a t where t: "tms st a = Some t" "subEvent t = ev" "publishEvent t \<noteq> ''NULL''"
      and f: "f \<in> set (action_of t) \<or> f \<in> started st (publishEvent t)"
      by (auto simp: waiting_def starts_def split: if_splits)
    have "triggers st ev (publishEvent t)" using t by (auto simp: triggers_def)
    with t f show "f \<in> started st ev"
      by (auto simp: started_def ran_def intro: converse_rtranclp_into_rtranclp)
  qed
qed

lemma notify_list:
  assumes inv: "tasks_inv st" and run: "runnable st"
    and IH: "\<And>a t. a \<in> set ms \<Longrightarrow> tms st a = Some t \<Longrightarrow> publishEvent t \<noteq> ''NULL'' \<Longrightarrow>
      \<exists>tr. notifyTmList st (publishEvent t) = Some (Inr tr) \<and> set tr = started st (publishEvent t)"
    and live: "set ms \<subseteq> dom (tms st)"
  shows "\<exists>tr. notifyLoop st ev ms [] = Some (Inr tr) \<and> set tr = (\<Union>a \<in> set ms. starts st a)"
  using IH live
proof (induction ms)
  case Nil
  then show ?case by simp
next
  case (Cons m ms)
  obtain t where t: "tms st m = Some t" using Cons.prems(2) by auto
  obtain tr where tr: "notifyLoop st ev ms [] = Some (Inr tr)" "set tr = (\<Union>a \<in> set ms. starts st a)"
    using Cons by (metis insert_subset list.set_intros(2) list.simps(15))
  show ?case
  proof (cases "publishEvent t = ''NULL''")
    case True
    then show ?thesis using tr by (simp add: notifyLoop_Cons[OF inv run t] starts_def t)
  next
    case False
    then obtain tr1 where "notifyTmList st (publishEvent t) = Some (Inr tr1)" "set tr1 = started st (publishEvent t)"
      using Cons.prems(1)[of m t] t by auto
    with False tr show ?thesis by (auto simp: notifyLoop_Cons[OF inv run t] starts_def t)
  qed
qed

lemma notify_completes:
  assumes inv: "tasks_inv st" and run: "runnable st" and "bounded st ev"
  shows "\<exists>tr. notifyTmList st ev = Some (Inr tr) \<and> set tr = started st ev"
  using assms(3)
proof (induction rule: accp.induct)
  case (accI ev)
  have s: "set (subscribers st ev) = waiting st ev" using inv by (simp add: tasks_inv_def)
  have "\<exists>tr. notifyLoop st ev (subscribers st ev) [] = Some (Inr tr) \<and> set tr = (\<Union>a \<in> set (subscribers st ev). starts st a)"
  proof (rule notify_list[OF inv run])
    fix a t assume "a \<in> set (subscribers st ev)" "tms st a = Some t" "publishEvent t \<noteq> ''NULL''"
    then have "triggers st ev (publishEvent t)" using s by (auto simp: waiting_def triggers_def)
    then show "\<exists>tr. notifyTmList st (publishEvent t) = Some (Inr tr) \<and> set tr = started st (publishEvent t)"
      by (rule accI.IH)
  qed (auto simp: s waiting_def)
  then show ?case unfolding notifyTmList_flat[OF inv] started_unfold[of st ev] s .
qed

lemma notify_bounded:
  assumes inv: "tasks_inv st" and "notifyTmList st ev = Some (Inr tr)"
  shows "bounded st ev"
proof (rule bounded_if_waiting)
  fix a t assume a: "a \<in> waiting st ev" "tms st a = Some t" "publishEvent t \<noteq> ''NULL''"
  then have "a \<in> set (subscribers st ev)" using inv by (simp add: tasks_inv_def)
  with notifyLoop_walked[OF assms(2)[unfolded notifyTmList_flat[OF inv]]] inv a show "bounded st (publishEvent t)"
    by (auto simp: walked_def)
qed


section \<open>Removing a task from the store\<close>

definition other_names :: "tasks \<Rightarrow> string \<Rightarrow> nat list \<Rightarrow> bool" where
  "other_names st n l \<longleftrightarrow> (\<forall>a \<in> set l. \<exists>t. tms st a = Some t \<and> tmName t \<noteq> n)"

lemma other_names_nth: "other_names st n l \<Longrightarrow> j < length l \<Longrightarrow> \<exists>t. tms st (l ! j) = Some t \<and> tmName t \<noteq> n"
  by (simp add: other_names_def)

lemma deleteLoop_none: "other_names st n l \<Longrightarrow> k \<le> length l \<Longrightarrow> deleteLoop st n l j k = Inr l"
proof (induction "k - j" arbitrary: j)
  case 0
  then show ?case by (subst deleteLoop.simps) simp
next
  case (Suc d)
  then have j: "j < length l" by linarith
  with Suc.prems(1) obtain t where "tms st (l ! j) = Some t" "tmName t \<noteq> n" using other_names_nth by blast
  with Suc j show ?case by (subst deleteLoop.simps) simp
qed

lemma deleteLoop_past: "other_names st n l \<Longrightarrow> j \<le> length l \<Longrightarrow> deleteLoop st n l j (Suc (length l)) = Inl (Undefined Vector_index)"
proof (induction "length l - j" arbitrary: j)
  case 0
  then show ?case by (subst deleteLoop.simps) simp
next
  case (Suc d)
  then have j: "j < length l" by linarith
  with Suc.prems(1) obtain t where "tms st (l ! j) = Some t" "tmName t \<noteq> n" using other_names_nth by blast
  with Suc j show ?case by (subst deleteLoop.simps) simp
qed

lemma deleteLoop_hit:
  assumes "other_names st n xs" and "other_names st n ys" and "tms st a = Some t" and "tmName t = n" and "j \<le> length xs"
  shows "deleteLoop st n (xs @ a # ys) j (length (xs @ a # ys)) = (if ys = [] then Inr xs else Inl (Undefined Vector_index))"
  using assms(5)
proof (induction "length xs - j" arbitrary: j)
  case 0
  then have j: "j = length xs" by simp
  have o: "other_names st n (xs @ ys)" using assms(1,2) by (auto simp: other_names_def)
  have "deleteLoop st n (xs @ a # ys) j (length (xs @ a # ys)) = deleteLoop st n (xs @ ys) (Suc (length xs)) (Suc (length (xs @ ys)))"
    by (subst deleteLoop.simps) (simp add: j assms(3,4))
  also have "\<dots> = (if ys = [] then Inr xs else Inl (Undefined Vector_index))"
  proof (cases "ys = []")
    case True
    then show ?thesis by (subst deleteLoop.simps) simp
  next
    case False
    then show ?thesis using deleteLoop_past[OF o, of "Suc (length xs)"] by (cases ys) auto
  qed
  finally show ?case .
next
  case (Suc d)
  then have "j < length xs" by simp
  then obtain u where "tms st (xs ! j) = Some u" "tmName u \<noteq> n" using other_names_nth[OF assms(1)] by blast
  with Suc \<open>j < length xs\<close> show ?case by (subst deleteLoop.simps) (simp add: nth_append)
qed

text \<open>One head: it is left alone, shortened, or read past its end.\<close>

lemma deleteLoop_list:
  assumes "distinct l" and "set l \<subseteq> dom (tms st)" and n: "\<And>b u. tms st b = Some u \<Longrightarrow> tmName u = n \<longleftrightarrow> b = a"
  shows "deleteLoop st n l 0 (length l) =
    (if a \<notin> set l then Inr l else if last l = a then Inr (butlast l) else Inl (Undefined Vector_index))"
proof (cases "a \<in> set l")
  case False
  then have "other_names st n l" using assms(2) n by (fastforce simp: other_names_def)
  with False show ?thesis by (simp add: deleteLoop_none)
next
  case True
  then obtain xs ys where l: "l = xs @ a # ys" by (auto dest: split_list)
  obtain t where t: "tms st a = Some t" using True assms(2) by auto
  have "b \<in> dom (tms st) \<and> b \<noteq> a" if "b \<in> set xs \<union> set ys" for b using that assms(1,2) l by auto
  then have o: "other_names st n xs" "other_names st n ys" using n by (fastforce simp: other_names_def)+
  have "last l = a \<longleftrightarrow> ys = []" using assms(1) l by (cases ys rule: rev_cases) auto
  then show ?thesis using deleteLoop_hit[OF o t, of 0] n[OF t] True by (auto simp: l)
qed


lemma head_list:
  assumes inv: "tasks_inv st" and h: "h \<in> set (es st)"
  shows "distinct (tmList h)" and "set (tmList h) \<subseteq> waiting st (ev_of st h)"
proof -
  have d: "distinct (subscribers st (ev_of st h))" "set (subscribers st (ev_of st h)) = waiting st (ev_of st h)"
    using inv by (simp_all add: tasks_inv_def)
  have f: "h \<in> set (filter (\<lambda>k. ev_of st k = ev_of st h) (es st))" using h by simp
  from split_list[OF f] obtain xs ys where s: "filter (\<lambda>k. ev_of st k = ev_of st h) (es st) = xs @ h # ys" by blast
  show "distinct (tmList h)" using d(1) by (simp add: subscribers_def s)
  show "set (tmList h) \<subseteq> waiting st (ev_of st h)" unfolding d(2)[symmetric] by (auto simp: subscribers_def s)
qed

lemma deleteHeads_outcome:
  assumes inv: "tasks_inv st" and t: "tms st a = Some t" and "set hs \<subseteq> set (es st)"
  shows "deleteHeads st (tmName t) (subEvent t) hs =
    (if \<forall>h \<in> set hs. a \<in> set (tmList h) \<longrightarrow> last (tmList h) = a
     then Inr (map (\<lambda>h. if a \<in> set (tmList h) then h\<lparr>tmList := butlast (tmList h)\<rparr> else h) hs)
     else Inl (Undefined Vector_index))"
  using assms(3)
proof (induction hs)
  case (Cons h hs)
  then have h: "h \<in> set (es st)" by simp
  obtain owner where o: "tms st (te h) = Some owner" using inv h by (auto simp: tasks_inv_def)
  have n: "tmName u = tmName t \<longleftrightarrow> b = a" if "tms st b = Some u" for b u
    using inv t that unfolding tasks_inv_def by (metis option.inject)
  have l: "deleteLoop st (tmName t) (tmList h) 0 (length (tmList h)) =
      (if a \<notin> set (tmList h) then Inr (tmList h) else if last (tmList h) = a then Inr (butlast (tmList h)) else Inl (Undefined Vector_index))"
    using inv h head_list[OF inv h] n by (intro deleteLoop_list) (auto simp: tasks_inv_def)
  have out: "a \<notin> set (tmList h)" if "subEvent t \<noteq> subEvent owner"
    using head_list(2)[OF inv h] that t o by (auto simp: waiting_def ev_of_def)
  show ?case using Cons l out by (auto simp: o)
qed simp

section \<open>Properties\<close>

text \<open>C21: the event store is exact. In every store built by creating tasks and registering functions, the tasks
  filed under an event are, each once, exactly the tasks that subscribe to it, and a name finds exactly
  the task that has it.\<close>

theorem event_store_exact:
  assumes "reach (\<lambda>st. st = tasks_start) store_step st"
  shows "distinct (subscribers st ev) \<and> set (subscribers st ev) = {a. \<exists>t. tms st a = Some t \<and> subEvent t = ev}
    \<and> (getTmfromES n st = Some a \<longleftrightarrow> (\<exists>t. tms st a = Some t \<and> tmName t = n))"
  using store.inv_reach[OF assms] by (simp add: tasks_inv_def waiting_def getTmfromES_def)

text \<open>An example: two tasks that wait for \<open>e\<close>; the first publishes \<open>f\<close>, for which a third waits.\<close>

definition demo_tasks :: tasks where
  "demo_tasks = \<lparr>tms = [0 \<mapsto> (new_task ''A'' None ''e'' ''f'' BLOCKED)\<lparr>observer := Some (observerNew (Fn ''a.so''))\<rparr>,
       1 \<mapsto> new_task ''B'' None ''e'' ''NULL'' BLOCKED,
       2 \<mapsto> (new_task ''C'' None ''f'' ''g'' BLOCKED)\<lparr>observer := Some (observerNew (Fn ''c.so''))\<rparr>],
     nextTm = 3, taskManagerGlobal = [(''A'', 0), (''B'', 1), (''C'', 2)],
     es = [\<lparr>te = 0, tmList = [0, 1]\<rparr>, \<lparr>te = 2, tmList = [2]\<rparr>]\<rparr>"

lemma demo_tasks_reach: "reach (\<lambda>st. st = tasks_start) store_step demo_tasks"
proof -
  let ?R = "reach (\<lambda>st. st = tasks_start) store_step"
  define s1 where "s1 = tasks_start\<lparr>tms := [0 \<mapsto> new_task ''A'' None ''e'' ''f'' BLOCKED], nextTm := 1,
    taskManagerGlobal := [(''A'', 0)], es := [\<lparr>te = 0, tmList = [0]\<rparr>]\<rparr>"
  define s2 where "s2 = s1\<lparr>tms := (tms s1)(1 \<mapsto> new_task ''B'' None ''e'' ''NULL'' BLOCKED), nextTm := 2,
    taskManagerGlobal := [(''A'', 0), (''B'', 1)], es := [\<lparr>te = 0, tmList = [0, 1]\<rparr>]\<rparr>"
  define s3 where "s3 = s2\<lparr>tms := (tms s2)(2 \<mapsto> new_task ''C'' None ''f'' ''g'' BLOCKED), nextTm := 3,
    taskManagerGlobal := [(''A'', 0), (''B'', 1), (''C'', 2)], es := [\<lparr>te = 0, tmList = [0, 1]\<rparr>, \<lparr>te = 2, tmList = [2]\<rparr>]\<rparr>"
  define s4 where "s4 = s3\<lparr>tms := (tms s3)(0 \<mapsto> (new_task ''A'' None ''e'' ''f'' BLOCKED)\<lparr>observer := Some (observerNew (Fn ''a.so''))\<rparr>)\<rparr>"
  note defs = Task_create_def Let_def getTmfromES_def copy20_def Task_pushevent_def Task_subscribe_def registerEvent_def
    set_tm_def tm_at_def new_task_def tasks_start_def numeral_2_eq_2 numeral_3_eq_3 Task_registerAction_def
  have go: "?R st'" if "?R st" "store_step st st'" for st st' using that by (rule reach_step)
  have 0: "?R tasks_start" by (rule reach_ini) simp
  have "Task_create ''A'' None ''e'' ''f'' BLOCKED tasks_start = Inr (0, s1)" by (simp add: s1_def defs)
  note 1 = go[OF 0 step_create[OF this]]
  have "Task_create ''B'' None ''e'' ''NULL'' BLOCKED s1 = Inr (1, s2)" by (simp add: s2_def s1_def defs)
  note 2 = go[OF 1 step_create[OF this]]
  have "Task_create ''C'' None ''f'' ''g'' BLOCKED s2 = Inr (2, s3)" by (simp add: s3_def s2_def s1_def defs)
  note 3 = go[OF 2 step_create[OF this]]
  have "Task_registerAction 0 (Fn ''a.so'') s3 = Inr s4" by (simp add: s4_def s3_def s2_def s1_def defs)
  note 4 = go[OF 3 step_action[OF this]]
  have "Task_registerAction 2 (Fn ''c.so'') s4 = Inr demo_tasks"
    by (simp add: demo_tasks_def s4_def s3_def s2_def s1_def defs fun_upd_twist)
  from go[OF 4 step_action[OF this]] show ?thesis .
qed

theorem event_store_exact_witness: "set (subscribers demo_tasks ''e'') = {a. \<exists>t. tms demo_tasks a = Some t \<and> subEvent t = ''e''}"
  using event_store_exact[OF demo_tasks_reach] by simp

text \<open>C23: what a publication starts. When every task that publishes something has an action, publishing an event
  returns exactly when no chain of events from it is endless, and then the actions started are exactly
  those of the tasks reached by following events from it; a task that publishes nothing is never
  started, although it is registered for its event.\<close>

theorem publication_starts:
  assumes "reach (\<lambda>st. st = tasks_start) store_step st" and "runnable st"
  shows "((\<exists>tr. notifyTmList st ev = Some (Inr tr)) \<longleftrightarrow> Wellfounded.accp (\<lambda>e' e. triggers st e e') ev)
    \<and> (notifyTmList st ev = Some (Inr tr) \<longrightarrow>
         set tr = {f. \<exists>t \<in> ran (tms st). (triggers st)\<^sup>*\<^sup>* ev (subEvent t) \<and> publishEvent t \<noteq> ''NULL'' \<and> f \<in> set (action_of t)})"
proof -
  have inv: "tasks_inv st" by (rule store.inv_reach[OF assms(1)])
  have "bounded st ev \<and> set tr = started st ev" if "notifyTmList st ev = Some (Inr tr)" for tr
    using notify_bounded[OF inv that] notify_completes[OF inv assms(2), of ev] that by auto
  with notify_completes[OF inv assms(2), of ev] show ?thesis unfolding started_def by blast
qed

lemma demo_tasks_runnable: "runnable demo_tasks"
  by (auto simp: runnable_def ran_def demo_tasks_def new_task_def observerNew_def split: if_splits)

lemma demo_tasks_notify: "notifyTmList demo_tasks ''e'' = Some (Inr [''a.so'', ''c.so''])"
proof -
  have inv: "tasks_inv demo_tasks" by (rule store.inv_reach[OF demo_tasks_reach])
  note walk = notifyTmList_flat[OF inv] notifyLoop_Cons[OF inv demo_tasks_runnable]
  have s: "subscribers demo_tasks ''e'' = [0, 1]" "subscribers demo_tasks ''f'' = [2]" "subscribers demo_tasks ''g'' = []"
    by (simp_all add: subscribers_def ev_of_def demo_tasks_def new_task_def)
  have t: "tms demo_tasks 0 = Some ((new_task ''A'' None ''e'' ''f'' BLOCKED)\<lparr>observer := Some (observerNew (Fn ''a.so''))\<rparr>)"
    "tms demo_tasks 1 = Some (new_task ''B'' None ''e'' ''NULL'' BLOCKED)"
    "tms demo_tasks 2 = Some ((new_task ''C'' None ''f'' ''g'' BLOCKED)\<lparr>observer := Some (observerNew (Fn ''c.so''))\<rparr>)"
    by (simp_all add: demo_tasks_def)
  have g: "notifyTmList demo_tasks ''g'' = Some (Inr [])" by (simp add: walk(1) s)
  have f: "notifyTmList demo_tasks ''f'' = Some (Inr [''c.so''])"
    unfolding walk(1)[of "''f''"] s walk(2)[OF t(3)] by (simp add: new_task_def g action_of_def observerNew_def)
  show ?thesis
    unfolding walk(1)[of "''e''"] s walk(2)[OF t(1)] walk(2)[OF t(2)] by (simp add: new_task_def f action_of_def observerNew_def)
qed

theorem publication_starts_witness:
  "{f. \<exists>t \<in> ran (tms demo_tasks). (triggers demo_tasks)\<^sup>*\<^sup>* ''e'' (subEvent t) \<and> publishEvent t \<noteq> ''NULL'' \<and> f \<in> set (action_of t)}
    = {''a.so'', ''c.so''}"
  using publication_starts[OF demo_tasks_reach demo_tasks_runnable, of "''e''" "[''a.so'', ''c.so'']"] demo_tasks_notify by auto

text \<open>A task can be taken out of the store only when it is the last one of its list. Otherwise the loop, whose
  bound was read before the removal, reads past the end of the vector.\<close>

theorem delete_only_last:
  assumes "reach (\<lambda>st. st = tasks_start) store_step st" and "tms st a = Some t"
  shows "deleteTmfromES a st =
    (if \<forall>h \<in> set (es st). a \<in> set (tmList h) \<longrightarrow> last (tmList h) = a
     then Inr (st\<lparr>es := map (\<lambda>h. if a \<in> set (tmList h) then h\<lparr>tmList := butlast (tmList h)\<rparr> else h) (es st)\<rparr>)
     else Inl (Undefined Vector_index))"
  using deleteHeads_outcome[OF store.inv_reach[OF assms(1)] assms(2) order_refl]
  by (auto simp: deleteTmfromES_def assms(2))

theorem delete_only_last_witness:
  "deleteTmfromES 0 demo_tasks = Inl (Undefined Vector_index) \<and> returns (deleteTmfromES 1 demo_tasks)"
proof -
  have "tms demo_tasks 0 \<noteq> None" "tms demo_tasks 1 \<noteq> None" by (simp_all add: demo_tasks_def)
  then obtain t u where "tms demo_tasks 0 = Some t" "tms demo_tasks 1 = Some u" by blast
  from this[THEN delete_only_last[OF demo_tasks_reach]] show ?thesis by (simp add: demo_tasks_def)
qed

text \<open>Destroying a task leaves the store unusable. The first head of the store refers to the event object of
  the task that created it; when that task has been taken out of the store and destroyed, publishing
  any event reads freed memory.\<close>

theorem destroyed_task_dangles:
  assumes "es st = h # hs" and "deleteTmfromES (te h) st = Inr st1" and "Task_destroy (Some (te h)) st1 = Inr st2"
  shows "notifyTmList st2 ev = Some (Inl (Undefined Dangling_pointer))"
proof -
  obtain h' hs' where "es st1 = h' # hs'" "te h' = te h"
    using assms(1,2) by (auto simp: deleteTmfromES_def bindR_eq_Inr split: if_splits)
  moreover have "es st2 = es st1" "tms st2 (te h) = None" using assms(3) by (auto simp: Task_destroy_def bindR_eq_Inr)
  ultimately show ?thesis by (simp add: notifyTmList_def notifyLoop.simps tm_at_def)
qed

theorem destroyed_task_dangles_witness:
  "\<exists>a st st1 st2. Task_create ''A'' None ''e'' ''f'' BLOCKED tasks_start = Inr (a, st) \<and> deleteTmfromES a st = Inr st1
     \<and> Task_destroy (Some a) st1 = Inr st2 \<and> notifyTmList st2 ''z'' = Some (Inl (Undefined Dangling_pointer))"
proof -
  define st where "st = tasks_start\<lparr>tms := [0 \<mapsto> new_task ''A'' None ''e'' ''f'' BLOCKED], nextTm := 1,
    taskManagerGlobal := [(''A'', 0)], es := [\<lparr>te = 0, tmList = [0]\<rparr>]\<rparr>"
  have c: "Task_create ''A'' None ''e'' ''f'' BLOCKED tasks_start = Inr (0, st)"
    by (simp add: st_def Task_create_def Let_def getTmfromES_def copy20_def Task_pushevent_def Task_subscribe_def registerEvent_def
      set_tm_def tm_at_def new_task_def tasks_start_def)
  let ?h = "\<lparr>te = 0, tmList = [0]\<rparr>"
  have d: "deleteTmfromES 0 st = Inr (st\<lparr>es := [\<lparr>te = 0, tmList = []\<rparr>]\<rparr>)"
    by (simp add: st_def deleteTmfromES_def deleteLoop.simps new_task_def)
  have "returns (Task_destroy (Some 0) (st\<lparr>es := [\<lparr>te = 0, tmList = []\<rparr>]\<rparr>))"
    by (simp add: st_def Task_destroy_def)
  then obtain st2 where x: "Task_destroy (Some 0) (st\<lparr>es := [\<lparr>te = 0, tmList = []\<rparr>]\<rparr>) = Inr st2" by (auto simp: returns_iff)
  have "es st = ?h # []" by (simp add: st_def)
  from destroyed_task_dangles[OF this] d x c show ?thesis by auto
qed


section \<open>Arrays of a task\<close>

text \<open>The member arrays hold terminated strings: at most 19 characters and the terminator.\<close>

definition fits20 :: "string \<Rightarrow> bool" where
  "fits20 t \<longleftrightarrow> length t < 20"

definition wt_task :: "TaskManager \<Rightarrow> bool" where
  "wt_task t \<longleftrightarrow> fits20 (tmName t) \<and> pred_option fits20 (aggRule t) \<and> fits20 (subEvent t) \<and> fits20 (publishEvent t)"

definition wt_store :: "tasks \<Rightarrow> bool" where
  "wt_store st \<longleftrightarrow> tasks_inv st \<and> (\<forall>t \<in> ran (tms st). wt_task t)"

lemma Task_create_fits:
  assumes "Task_create n r s p ty st = Inr (a, st')" "getTmfromES n st = None"
  shows "fits20 n \<and> pred_option fits20 r \<and> fits20 s \<and> fits20 p"
  using assms by (auto simp: create_simps bindR_eq_Inr fits20_def split: option.splits)

lemma wt_create:
  assumes "wt_store st" "Task_create n r s p ty st = Inr (a, st')"
  shows "wt_store st'"
proof (cases "getTmfromES n st")
  case None
  from assms(1) have inv: "tasks_inv st" by (simp add: wt_store_def)
  have "wt_task (new_task n r s p ty)"
    using Task_create_fits[OF assms(2) None] by (simp add: wt_task_def new_task_def)
  then show ?thesis
    using assms Task_create_inv[OF inv assms(2)] Task_create_outcome(2)[OF inv None assms(2)]
    by (auto simp: wt_store_def ran_def split: if_splits)
qed (use assms in \<open>simp add: Task_create_def\<close>)

lemma wt_set_tm: "\<forall>t \<in> ran (tms st). wt_task t \<Longrightarrow> wt_task t' \<Longrightarrow> \<forall>t \<in> ran (tms (set_tm a t' st)). wt_task t"
  by (auto simp: set_tm_def ran_def split: if_splits)

lemma wt_registration:
  assumes "wt_store st"
  shows "Task_registerAction a f st = Inr st' \<Longrightarrow> wt_store st'"
    and "Task_registerFilter a f st = Inr st' \<Longrightarrow> wt_store st'"
    and "Task_registerAggreFilter a f st = Inr st' \<Longrightarrow> wt_store st'"
proof -
  have keep: "wt_task (t\<lparr>observer := obs\<rparr>)" if "tms st a = Some t" for t obs
    using assms that by (auto simp: wt_store_def wt_task_def ran_def)
  note wt = conjunct2[OF assms[unfolded wt_store_def]]
  note inv = registration_inv[OF conjunct1[OF assms[unfolded wt_store_def]]]
  show "Task_registerAction a f st = Inr st' \<Longrightarrow> wt_store st'" using inv(1)[of a f st'] wt_set_tm[OF wt keep] wt
    by (auto simp: Task_registerAction_def bindR_eq_Inr tm_at_Inr wt_store_def split: if_splits)
  show "Task_registerFilter a f st = Inr st' \<Longrightarrow> wt_store st'" using inv(2)[of a f st'] wt_set_tm[OF wt keep] wt
    by (auto simp: Task_registerFilter_def bindR_eq_Inr tm_at_Inr wt_store_def split: option.splits)
  show "Task_registerAggreFilter a f st = Inr st' \<Longrightarrow> wt_store st'" using inv(3)[of a f st'] wt_set_tm[OF wt keep] wt
    by (auto simp: Task_registerAggreFilter_def bindR_eq_Inr tm_at_Inr wt_store_def split: option.splits)
qed

interpretation typed: inv_system "\<lambda>st. st = tasks_start" store_step wt_store
proof
  show "wt_store st'" if "wt_store st" "store_step st st'" for st st'
    using that(2) by cases (auto intro: wt_create wt_registration that(1))
qed (simp add: wt_store_def tasks_inv_start, simp add: tasks_start_def)

lemma Task_create_total:
  assumes inv: "tasks_inv st"
  shows "returns (Task_create n r s p ty st) \<longleftrightarrow>
    getTmfromES n st \<noteq> None \<or> fits20 n \<and> pred_option fits20 r \<and> fits20 s \<and> fits20 p"
proof (cases "getTmfromES n st")
  case None
  let ?st = "st\<lparr>nextTm := Suc (nextTm st), tms := (tms st)(nextTm st \<mapsto> new_task n r s p ty)\<rparr>"
  have "registerLoop ?st (nextTm st) n s (es st) = Inr (file_task (ev_of ?st) (nextTm st) s (es st))"
    by (rule new_task_files[OF inv None]) (simp add: new_task_def)
  then have "returns (Task_create n r s p ty st)" if "fits20 n \<and> pred_option fits20 r \<and> fits20 s \<and> fits20 p"
    using that None by (cases r) (simp_all add: create_simps copy20_def fits20_def)
  then show ?thesis using Task_create_fits[OF _ None] None by (auto simp: returns_iff)
qed (simp add: Task_create_def)

lemma registration_total:
  "returns (Task_registerAction a f st) \<longleftrightarrow> a \<in> dom (tms st)"
  "returns (Task_registerFilter a f st) \<longleftrightarrow> a \<in> dom (tms st)"
  "returns (Task_registerAggreFilter a f st) \<longleftrightarrow> a \<in> dom (tms st)"
  by (auto simp: Task_registerAction_def Task_registerFilter_def Task_registerAggreFilter_def returns_bindR tm_at_Inr)

text \<open>C22: type soundness of the event store. In every store set up through the interface all names, rules and events
  fit their arrays of 20 bytes (preservation); and no operation gets stuck on well-typed arguments (progress):
  creating a task returns exactly when the task exists or the four strings fit, and registering an action or
  a filter returns exactly when the task manager is live.\<close>

theorem store_type_sound:
  assumes "reach (\<lambda>st. st = tasks_start) store_step st"
  shows "(\<forall>t \<in> ran (tms st). wt_task t)
    \<and> (returns (Task_create n r s p ty st) \<longleftrightarrow>
         getTmfromES n st \<noteq> None \<or> fits20 n \<and> pred_option fits20 r \<and> fits20 s \<and> fits20 p)
    \<and> (returns (Task_registerAction a f st) \<longleftrightarrow> a \<in> dom (tms st))
    \<and> (returns (Task_registerFilter a f st) \<longleftrightarrow> a \<in> dom (tms st))
    \<and> (returns (Task_registerAggreFilter a f st) \<longleftrightarrow> a \<in> dom (tms st))"
  using typed.inv_reach[OF assms] Task_create_total[of st n r s p ty] by (simp add: wt_store_def registration_total)

theorem store_type_sound_witness:
  "\<exists>st. reach (\<lambda>st. st = tasks_start) store_step st \<and> tms st \<noteq> tms tasks_start \<and> (\<forall>t \<in> ran (tms st). wt_task t)
     \<and> \<not> returns (Task_create ''a task with a long name'' None ''NULL'' ''e'' BLOCKED st)"
proof -
  define r where "r = Task_create ''first'' None ''NULL'' ''e'' BLOCKED tasks_start"
  have "case r of Inl _ \<Rightarrow> False | Inr (a, st) \<Rightarrow> tms st 0 \<noteq> None \<and> getTmfromES ''a task with a long name'' st = None"
    unfolding r_def by code_simp
  then obtain a st where st: "r = Inr (a, st)" "tms st 0 \<noteq> None" "getTmfromES ''a task with a long name'' st = None"
    by (auto split: sum.splits)
  have reach: "reach (\<lambda>st. st = tasks_start) store_step st"
    using st(1) unfolding r_def by (blast intro: reach_step reach_ini step_create)
  have "\<not> fits20 ''a task with a long name''" by (simp add: fits20_def)
  moreover have "tms st \<noteq> tms tasks_start" using st(2) by (auto simp: tasks_start_def)
  ultimately show ?thesis using store_type_sound[OF reach] reach st(3) by blast
qed

end
