(* ===== verification/MetaClient.thy ===== *)
theory MetaClient
  imports MetaServer
begin

text \<open>
  The client of the metadata service, the start of the server, and the two together: the stubs of
  \<open>src/src/metadatamanagement/metaclient.cc\<close> over a transport that is a parameter, the dispatch of a call to the handler
  it names, and what a sequence of timer calls prints. The transport of gRPC is given as the status and reply of a
  call together with the state of the server afterwards.
\<close>

section \<open>Stubs\<close>

text \<open>A call to an address: \<open>None\<close> is a status other than OK.\<close>

type_synonym 'w transport = "string \<Rightarrow> mrpc \<Rightarrow> 'w \<Rightarrow> string option \<times> 'w"

definition finish_call :: "string option \<times> 'w \<Rightarrow> string \<times> 'w" where
  "finish_call r = (meta_reply (fst r), snd r)"

definition stub_Recordtime :: "'w transport \<Rightarrow> string \<Rightarrow> string \<Rightarrow> 'w \<Rightarrow> string \<times> 'w" where
  "stub_Recordtime rpc channel key w = finish_call (rpc channel (MRecordtime key) w)"

definition stub_Recordtimestart :: "'w transport \<Rightarrow> string \<Rightarrow> string \<Rightarrow> 'w \<Rightarrow> string \<times> 'w" where
  "stub_Recordtimestart rpc channel key w = finish_call (rpc channel (MRecordtimestart key) w)"

definition stub_Recordtimetick :: "'w transport \<Rightarrow> string \<Rightarrow> string \<Rightarrow> 'w \<Rightarrow> string \<times> 'w" where
  "stub_Recordtimetick rpc channel key w = finish_call (rpc channel (MRecordtimetick key) w)"

definition stub_Getmeta :: "'w transport \<Rightarrow> string \<Rightarrow> string \<Rightarrow> 'w \<Rightarrow> string \<times> 'w" where
  "stub_Getmeta rpc channel key w = finish_call (rpc channel (MGetmeta key) w)"

definition stub_Putmeta :: "'w transport \<Rightarrow> string \<Rightarrow> string \<Rightarrow> string \<Rightarrow> 'w \<Rightarrow> string \<times> 'w" where
  "stub_Putmeta rpc channel key value w = finish_call (rpc channel (MPutmeta key value) w)"

section \<open>The server process\<close>

text \<open>\<open>RunServer\<close> up to the start of the gRPC server: the address it listens on and the file system.\<close>

definition RunServer_meta :: "string \<Rightarrow> string \<Rightarrow> os \<Rightarrow> (string \<times> os) res option" where
  "RunServer_meta serverIP serverPort s =
     (let socketAddr = serverIP @ '':'' @ serverPort
      in map_option (\<lambda>r. bindR r (\<lambda>s'. Inr (socketAddr, s'))) (writeSocket socketAddr s))"

text \<open>The port the kernel gave and the address of the network interface are parameters.\<close>

definition main_meta :: "int \<Rightarrow> int \<Rightarrow> nat \<Rightarrow> string \<Rightarrow> os \<Rightarrow> (string \<times> os) res option" where
  "main_meta bind_result name_result port ip s =
     (let freePort = getFreePortNum bind_result name_result port in RunServer_meta ip (to_string freePort) s)"

text \<open>The handler of a call, at the time \<open>now\<close>: one for each handler of \<open>MetaServiceImpl\<close>, the last three of
  which the client of this repository has no stub for. Which handler a call reaches is code gRPC generates.\<close>

definition serve :: "timespec \<Rightarrow> mrpc \<Rightarrow> meta \<Rightarrow> (string \<times> meta) res" where
  "serve now c s =
     (case c of
        MRecordtime key \<Rightarrow> Inr (Recordtime now key s)
      | MRecordtimestart key \<Rightarrow> Inr (Recordtimestart now key s)
      | MRecordtimetick key \<Rightarrow> Inr (Recordtimetick now key s)
      | MGetmeta key \<Rightarrow> Getmeta key s
      | MPutmeta key value \<Rightarrow> Inr (Putmeta key value s)
      | MPutmetaspace key value \<Rightarrow> Inr (Putmetaspace key value s)
      | MGetmetaspace key \<Rightarrow> Inr (Getmetaspace key s)
      | MSayHello name \<Rightarrow> Inr (SayHello_meta name, s))"

text \<open>A transport that reaches the server listening at \<open>addr\<close>, at the time \<open>now\<close>.\<close>

definition connected :: "string \<Rightarrow> timespec \<Rightarrow> meta transport" where
  "connected addr now a c s =
     (if a = addr then (case serve now c s of Inl _ \<Rightarrow> (None, s) | Inr (r, s') \<Rightarrow> (Some r, s')) else (None, s))"

section \<open>Addresses\<close>

text \<open>The file of the server's address is added after the entries that are there: the address a client takes, the
  first one listed, is that of the first server ever started, also when it is gone.\<close>

lemma writeSocket_lists:
  assumes "can_open s" "is_dir ''.'' s" "files s ''Metaserver'' = None \<or> is_dir ''Metaserver'' s"
    and "CHR ''/'' \<notin> set addr" "\<not> is_dot addr" "length addr < 88" "files s (''Metaserver/'' @ addr) = None"
  obtains s' where "writeSocket addr s = Some (Inr s')"
    "loadAddrInDir ''Metaserver'' s' = loadAddrInDir ''Metaserver'' s @ [addr]"
proof -
  have path: "''Metaserver/'' @ addr = ''Metaserver'' @ ''/'' @ addr" by simp
  note parts = path_parts[OF assms(4), of "''Metaserver''", folded path]
  have dirs: "dir_name ''Metaserver'' = ''.''" "base_name ''Metaserver'' = ''Metaserver''" by code_simp+
  have len: "sprintf100 (''Metaserver/'' @ addr) = Inr (''Metaserver/'' @ addr)" using assms(6) by (simp add: sprintf100_def)
  obtain s1 es where s1: "createDir ''Metaserver'' s = Some s1" "files s1 ''Metaserver'' = Some (DirNode es)"
    "fds s1 = fds s" "fdLimit s1 = fdLimit s" "files s1 (''Metaserver/'' @ addr) = None"
    "filter (\<lambda>e. \<not> is_dot e) es = loadAddrInDir ''Metaserver'' s"
  proof (cases "files s ''Metaserver'' = None")
    case True
    let ?s = "s\<lparr>files := link ''Metaserver'' (DirNode [''.'', ''..'']) (files s)\<rparr>"
    from assms(2) obtain cur where "files s ''.'' = Some (DirNode cur)" by (auto simp: is_dir_iff)
    then have "files ?s ''Metaserver'' = Some (DirNode [''.'', ''..''])" "files ?s (''Metaserver/'' @ addr) = None"
      using assms(7) by (simp_all add: link_def dirs)
    moreover have "createDir ''Metaserver'' s = Some ?s"
      using True assms(2) by (simp add: createDir_outcome opens_def dirs)
    ultimately show ?thesis using True by (intro that[of ?s]) (auto simp: loadAddrInDir_def open_dir_def is_dot_def)
  next
    case False
    with assms(3) obtain es where "files s ''Metaserver'' = Some (DirNode es)" by (auto simp: is_dir_iff)
    with assms show ?thesis
      by (intro that[of s es]) (auto simp: createDir_outcome opens_def is_dir_iff loadAddrInDir_def open_dir_def)
  qed
  let ?s2 = "s1\<lparr>files := link (''Metaserver/'' @ addr) (FileNode []) (files s1)\<rparr>"
  have can: "can_open s1" using assms(1) s1(3,4) by (simp add: can_open_def)
  have "write_file (''Metaserver/'' @ addr) [] s1 = (True, ?s2)"
    using can s1(2,5) parts by (simp add: write_file_def is_dir_def)
  then have "writeSocket addr s = Some (Inr ?s2)" using s1(1) len by (simp add: writeSocket_def)
  moreover have "loadAddrInDir ''Metaserver'' ?s2 = filter (\<lambda>e. \<not> is_dot e) es @ [addr]"
    using s1(2) can parts assms(5) by (simp add: loadAddrInDir_def open_dir_def link_def can_open_def)
  ultimately show thesis using that s1(6) by simp
qed

section \<open>Timers\<close>

text \<open>What one key's timer does, by itself: it is off or has a start time, and prints elapsed times.\<close>

datatype timer_op = Toggle | Begin | Tick

fun timer_step :: "timespec \<times> timer_op \<Rightarrow> timespec option \<times> rat list \<Rightarrow> timespec option \<times> rat list" where
  "timer_step (now, Toggle) (None, out) = (Some now, out)"
| "timer_step (now, Toggle) (Some start, out) = (None, out @ [time_diff now start])"
| "timer_step (now, Begin) (None, out) = (Some now, out)"
| "timer_step (now, Begin) (Some start, out) = (Some start, out)"
| "timer_step (now, Tick) (None, out) = (None, out)"
| "timer_step (now, Tick) (Some start, out) = (Some start, out @ [time_diff now start])"

text \<open>The timer of a key in the state of the server.\<close>

definition timer_of :: "string \<Rightarrow> meta \<Rightarrow> timespec option \<times> rat list" where
  "timer_of key s = (map_of (timerMap s) key, map snd (filter (\<lambda>(k, _). k = key) (timeLog s)))"

text \<open>What a call means for the timer of a key.\<close>

fun timer_op_of :: "string \<Rightarrow> timespec \<times> mrpc \<Rightarrow> (timespec \<times> timer_op) list" where
  "timer_op_of key (now, MRecordtime k) = (if k = key then [(now, Toggle)] else [])"
| "timer_op_of key (now, MRecordtimestart k) = (if k = key then [(now, Begin)] else [])"
| "timer_op_of key (now, MRecordtimetick k) = (if k = key then [(now, Tick)] else [])"
| "timer_op_of key (now, MGetmeta _) = []"
| "timer_op_of key (now, MPutmeta _ _) = []"
| "timer_op_of key (now, MPutmetaspace _ _) = []"
| "timer_op_of key (now, MGetmetaspace _) = []"
| "timer_op_of key (now, MSayHello _) = []"

definition serve_all :: "(timespec \<times> mrpc) list \<Rightarrow> meta \<Rightarrow> meta res" where
  "serve_all = foldR (\<lambda>(now, c) s. bindR (serve now c s) (\<lambda>r. Inr (snd r)))"

lemma serve_timer:
  assumes "serve now c s = Inr (r, s')"
  shows "timer_of key s' = fold timer_step (timer_op_of key (now, c)) (timer_of key s)"
proof (cases c)
  case (MGetmeta k)
  with assms show ?thesis
    by (auto simp: serve_def Getmeta_outcome timer_of_def split: list.splits)
qed (use assms in \<open>auto simp: serve_def timer_of_def Recordtime_def Recordtimestart_def Recordtimetick_def Putmeta_def
    Putmetaspace_def Getmetaspace_def
    split: option.splits\<close>)

lemma serve_returns: "\<exists>r s'. serve now c s = Inr (r, s')"
proof (cases c)
  case (MGetmeta k)
  then show ?thesis by (cases "queue_of k s") (auto simp: serve_def Getmeta_outcome)
qed (auto simp: serve_def simp flip: prod.collapse)

lemma serve_all_timer:
  "\<exists>s'. serve_all cs s = Inr s' \<and> timer_of key s' = fold timer_step (concat (map (timer_op_of key) cs)) (timer_of key s)"
proof (induction cs arbitrary: s)
  case Nil
  then show ?case by (simp add: serve_all_def)
next
  case (Cons x cs)
  obtain now c where x: "x = (now, c)" by (cases x)
  obtain r s1 where s1: "serve now c s = Inr (r, s1)" using serve_returns by blast
  from Cons.IH[of s1] serve_timer[OF s1, of key] show ?case by (simp add: serve_all_def x s1)
qed

text \<open>A timer that is only toggled prints the time between every two consecutive calls of a pair.\<close>

fun laps :: "timespec list \<Rightarrow> rat list" where
  "laps (t # u # ts) = time_diff u t # laps ts"
| "laps ts = []"

lemma toggle_laps:
  "fold timer_step (map (\<lambda>t. (t, Toggle)) ts) (None, out) =
     (if even (length ts) then None else Some (last ts), out @ laps ts)"
  by (induction ts arbitrary: out rule: laps.induct) auto

text \<open>C32: the timers of the server refine one timer per key. A sequence of calls of any clients at any times is
  served without a failure, and what is printed for a key and whether it is timing depend only on the timer
  calls for that key, in order, as the automaton of one timer says; when they are all \<open>Recordtime\<close>, the times
  printed are those between the calls of each consecutive pair.\<close>

theorem timers_independent:
  "\<exists>s'. serve_all cs meta_start = Inr s'
    \<and> timer_of key s' = fold timer_step (concat (map (timer_op_of key) cs)) (None, [])
    \<and> (concat (map (timer_op_of key) cs) = map (\<lambda>t. (t, Toggle)) ts \<longrightarrow>
         timer_of key s' = (if even (length ts) then None else Some (last ts), laps ts))"
proof -
  have "timer_of key meta_start = (None, [])" by (simp add: timer_of_def meta_start_def)
  then show ?thesis using serve_all_timer[of cs meta_start key] by (auto simp: toggle_laps)
qed

theorem timers_independent_witness:
  "\<exists>s'. serve_all [(\<lparr>tv_sec = 1, tv_nsec = 0\<rparr>, MRecordtime ''k''), (\<lparr>tv_sec = 2, tv_nsec = 0\<rparr>, MRecordtime ''j''),
      (\<lparr>tv_sec = 5, tv_nsec = 0\<rparr>, MRecordtime ''k'')] meta_start = Inr s'
    \<and> timer_of ''k'' s' = (None, [time_diff \<lparr>tv_sec = 5, tv_nsec = 0\<rparr> \<lparr>tv_sec = 1, tv_nsec = 0\<rparr>])"
  using timers_independent[of "[(\<lparr>tv_sec = 1, tv_nsec = 0\<rparr>, MRecordtime ''k''), (\<lparr>tv_sec = 2, tv_nsec = 0\<rparr>, MRecordtime ''j''),
      (\<lparr>tv_sec = 5, tv_nsec = 0\<rparr>, MRecordtime ''k'')]" "''k''" "[\<lparr>tv_sec = 1, tv_nsec = 0\<rparr>, \<lparr>tv_sec = 5, tv_nsec = 0\<rparr>]"]
  by auto

section \<open>Round trip\<close>

text \<open>Metadata put through the client comes back through the client. Over a transport that reaches the server,
  what \<open>Putmeta\<close> sent for a key is what \<open>Getmeta\<close> returns when the queue of the key was empty; a transport that
  does not reach it gives \<open>RPC failed\<close> and changes nothing.\<close>

theorem put_get_roundtrip:
  assumes "queue_of key s = []"
  shows "(let (r1, s1) = stub_Putmeta (connected addr now) addr key value s;
              (r2, s2) = stub_Getmeta (connected addr later) addr key s1
          in r1 = ''OK'' \<and> r2 = value \<and> queue_of key s2 = [])
    \<and> (other \<noteq> addr \<longrightarrow> stub_Putmeta (connected addr now) other key value s = (''RPC failed'', s)
        \<and> stub_Getmeta (connected addr now) other key s = (''RPC failed'', s))"
proof -
  have q: "queue_of key (snd (Putmeta key value s)) = [value]" by (simp add: queue_Putmeta assms)
  obtain s2 where g: "Getmeta key (snd (Putmeta key value s)) = Inr (value, s2)" by (simp add: Getmeta_outcome q)
  have "queue_of key s2 = []" using queue_Getmeta[OF g] q by simp
  moreover have "fst (Putmeta key value s) = ''OK''" by (simp add: Putmeta_def)
  ultimately show ?thesis using g
    by (simp add: stub_Putmeta_def stub_Getmeta_def connected_def serve_def finish_call_def meta_reply_def case_prod_unfold)
qed

theorem put_get_roundtrip_witness:
  "queue_of ''k'' meta_start = []
   \<and> stub_Putmeta (connected ''h:1'' \<lparr>tv_sec = 1, tv_nsec = 0\<rparr>) ''h:2'' ''k'' ''v'' meta_start = (''RPC failed'', meta_start)"
proof -
  have "queue_of ''k'' meta_start = []" by (simp add: queue_of_def meta_start_def map_at_def)
  with put_get_roundtrip[OF this, of "''h:1''" "\<lparr>tv_sec = 1, tv_nsec = 0\<rparr>" "''v''"
      "\<lparr>tv_sec = 2, tv_nsec = 0\<rparr>" "''h:2''"] show ?thesis by simp
qed

end
