(* ===== verification/RedisClient.thy ===== *)
theory RedisClient
  imports GroupManager
begin

text \<open>
  The client of a Redis server, \<open>src/src/redisclient\<close>, and the empty cache of \<open>src/src/storage/memcache.cpp\<close>. The
  library hiredis is a parameter: \<open>cmd\<close> is \<open>redisCommand\<close>, which is given the command as its format and returns a
  reply, or a null pointer, and the replies \<open>redisGetReply\<close> delivers afterwards until the connection ends. The
  result of a call is the list of actions started, in order, and the number of replies never freed.
\<close>

section \<open>State and operations\<close>

record runtimeAction =
  actionLen :: nat
  actionList :: "string list"   \<comment> \<open>100 rows\<close>

text \<open>A reply: an array, each element with its string or without one, or something else.\<close>

datatype redisReply = Reply_array "string option list" | Reply_other

type_synonym redisCommand = "string \<Rightarrow> redisReply option \<times> redisReply list"

text \<open>The context a connection attempt gives: none, or one with an error flag.\<close>

definition redisInit :: "(bool \<times> 'c) option \<Rightarrow> 'c option" where
  "redisInit c = (case c of None \<Rightarrow> None | Some (err, ctx) \<Rightarrow> if err then None else Some ctx)"

text \<open>The loop over the actions, from index \<open>i\<close>.\<close>

definition runActions :: "runtimeAction \<Rightarrow> string list res" where
  "runActions ra =
     (if actionLen ra \<le> length (actionList ra) then Inr (take (actionLen ra) (actionList ra))
      else Inl (Undefined Vector_index))"

text \<open>The loop over the replies.\<close>

fun replyLoop :: "runtimeAction \<Rightarrow> redisReply list \<Rightarrow> string list res" where
  "replyLoop ra [] = Inr []"
| "replyLoop ra (reply # rs) =
     (case reply of
        Reply_other \<Rightarrow> replyLoop ra rs
      | Reply_array element \<Rightarrow>
          bindR (vec_at element 0) (\<lambda>first.
            case first of
              None \<Rightarrow> Inl (Undefined Null_pointer)
            | Some str \<Rightarrow>
                if str = ''subscribe'' then replyLoop ra rs
                else bindR (runActions ra) (\<lambda>acts. bindR (replyLoop ra rs) (\<lambda>acts'. Inr (acts @ acts')))))"

definition redisSubscribe :: "redisCommand \<Rightarrow> runtimeAction option \<Rightarrow> string \<Rightarrow> (string list \<times> nat) res" where
  "redisSubscribe cmd ra subscribeEventStrList =
     (case ra of
        None \<Rightarrow> Inr ([], 0)
      | Some a \<Rightarrow>
          bindR (sprintf100 (''SUBSCRIBE '' @ subscribeEventStrList)) (\<lambda>command.
            let (reply, replies) = cmd command
            in bindR (replyLoop a replies) (\<lambda>acts. Inr (acts, if reply = None then 0 else 1))))"

text \<open>A null message is copied into: \<open>strcpy(publishMessages, "null")\<close>. The result is what is sent to the server.\<close>

definition redisPublish :: "redisCommand \<Rightarrow> string \<Rightarrow> string option \<Rightarrow> (string \<times> nat) res" where
  "redisPublish cmd publishEventStrList publishMessages =
     (case publishMessages of
        None \<Rightarrow> Inl (Undefined Null_pointer)
      | Some m \<Rightarrow>
          bindR (sprintf100 (''PUBLISH '' @ publishEventStrList @ '' '' @ m)) (\<lambda>command.
            let (reply, replies) = cmd command in Inr (command, 0)))"

definition initMemCache :: "(int, 'a list) std_map" where
  "initMemCache = []"

section \<open>Properties\<close>

text \<open>A message: an array reply other than the confirmation of a subscription.\<close>

fun is_message :: "redisReply \<Rightarrow> bool" where
  "is_message (Reply_array (Some str # _)) = (str \<noteq> ''subscribe'')"
| "is_message _ = False"

fun wf_reply :: "redisReply \<Rightarrow> bool" where
  "wf_reply (Reply_array (Some _ # _)) = True"
| "wf_reply (Reply_array _) = False"
| "wf_reply Reply_other = True"

lemma wf_reply_iff: "wf_reply r \<longleftrightarrow> r = Reply_other \<or> (\<exists>str es. r = Reply_array (Some str # es))"
  by (cases r rule: wf_reply.cases) simp_all

lemma replyLoop_messages:
  assumes "list_all wf_reply rs" "actionLen ra \<le> length (actionList ra)"
  shows "replyLoop ra rs = Inr (concat (map (\<lambda>_. take (actionLen ra) (actionList ra)) (filter is_message rs)))"
  using assms
proof (induction rs)
  case (Cons r rs)
  from Cons.prems(1) consider str es where "r = Reply_array (Some str # es)" | "r = Reply_other"
    by (auto simp: wf_reply_iff)
  then show ?case using Cons by cases (auto simp: runActions_def)
qed simp

lemma replyLoop_stops:
  assumes "\<not> list_all wf_reply rs"
  shows "\<not> returns (replyLoop ra rs)"
  using assms
proof (induction rs)
  case (Cons r rs)
  then show ?case
    by (cases r rule: wf_reply.cases)
       (auto simp: returns_bindR runActions_def vec_at_def split: if_splits)
qed simp

text \<open>C33: a subscriber runs all its actions, in order, once for every message that arrives, and none for the
  confirmations of its subscriptions; it returns exactly when every array reply starts with a string. The first
  reply is never freed.\<close>

theorem redis_actions:
  assumes "length subscribeEventStrList < 90" and "cmd (''SUBSCRIBE '' @ subscribeEventStrList) = (Some reply, replies)"
    and "actionLen ra \<le> length (actionList ra)"
  shows "(redisSubscribe cmd (Some ra) subscribeEventStrList =
      Inr (concat (map (\<lambda>_. take (actionLen ra) (actionList ra)) (filter is_message replies)), 1)
        \<longleftrightarrow> list_all wf_reply replies)
    \<and> (returns (redisSubscribe cmd (Some ra) subscribeEventStrList) \<longleftrightarrow> list_all wf_reply replies)"
proof -
  have cmd: "redisSubscribe cmd (Some ra) subscribeEventStrList = bindR (replyLoop ra replies) (\<lambda>acts. Inr (acts, 1))"
    using assms(1,2) by (simp add: redisSubscribe_def sprintf100_def)
  show ?thesis
  proof (cases "list_all wf_reply replies")
    case True
    then show ?thesis by (simp add: cmd replyLoop_messages[OF True assms(3)])
  next
    case False
    with replyLoop_stops[OF False, of ra] show ?thesis by (auto simp: cmd returns_iff bindR_eq_Inr)
  qed
qed

theorem redis_actions_witness:
  "redisSubscribe (\<lambda>_. (Some Reply_other, [Reply_array [Some ''subscribe''], Reply_array [Some ''message''], Reply_array [Some ''message'']]))
     (Some \<lparr>actionLen = 2, actionList = [''a.sh'', ''b.sh'', ''c.sh'']\<rparr>) ''e'' = Inr ([''a.sh'', ''b.sh'', ''a.sh'', ''b.sh''], 1)"
  using redis_actions[of "''e''" "\<lambda>_. (Some Reply_other, [Reply_array [Some ''subscribe''], Reply_array [Some ''message''],
      Reply_array [Some ''message'']])" Reply_other _ "\<lparr>actionLen = 2, actionList = [''a.sh'', ''b.sh'', ''c.sh'']\<rparr>"]
  by simp

text \<open>Publishing without a message, which the code means to replace by the text \<open>null\<close>, writes through the null
  pointer instead; a command of 100 bytes or more overruns its buffer; every other publication is sent.\<close>

theorem redis_publish_errors:
  "redisPublish cmd evs None = Inl (Undefined Null_pointer)
   \<and> redisPublish cmd evs (Some m) =
     (if length evs + length m < 91 then Inr (''PUBLISH '' @ evs @ '' '' @ m, 0) else Inl (Undefined Buffer_overflow))"
  by (auto simp: redisPublish_def sprintf100_def case_prod_unfold)

end
