(* ===== verification/LoadData.thy ===== *)
theory LoadData
  imports OsFiles StdString
begin

text \<open>
  Reading configuration files, \<open>src/src/utils/file/loaddata.cpp\<close>. File names are C strings; \<open>strstr\<close> is a
  search for a substring.
\<close>

section \<open>Operations\<close>

definition strstr :: "string \<Rightarrow> string \<Rightarrow> bool" where
  "strstr s pat \<longleftrightarrow> str_find pat s \<noteq> None"

text \<open>A file that cannot be opened ends the process; a directory opens but cannot be read.\<close>

definition loadFile :: "string \<Rightarrow> os \<Rightarrow> string res" where
  "loadFile filename s =
     (if \<not> opens filename s then Inl (Process_exit 1)
      else case files s filename of
             Some (FileNode content) \<Rightarrow> Inr content
           | _ \<Rightarrow> Inl (Runtime_error ''basic_filebuf::underflow error reading the file''))"

text \<open>The buffer for the name has the size of a pointer, 8 bytes; \<open>len - 5\<close> characters and a terminator are
  stored in it.\<close>

definition getTaskNameFromEventName :: "string \<Rightarrow> string option res" where
  "getTaskNameFromEventName filename =
     (if strstr filename ''swp'' then Inr None
      else if strstr filename ''swx'' then Inr None
      else if strstr filename ''json''
      then (let len = length filename
            in if len < 5 \<or> 8 \<le> len - 5 then Inl (Undefined Buffer_overflow) else Inr (Some (take (len - 5) filename)))
      else Inr None)"

definition ifjson :: "string \<Rightarrow> int" where
  "ifjson filename =
     (if strstr filename ''swp'' then 0
      else if strstr filename ''swx'' then 0
      else if strstr filename ''json''
      then (let tempstr = drop (length filename - 4) filename in if tempstr = ''json'' then 1 else 0)
      else 0)"

definition scanFolder :: "string \<Rightarrow> os \<Rightarrow> string list" where
  "scanFolder dirpath s = (case open_dir dirpath s of None \<Rightarrow> [] | Some es \<Rightarrow> es)"

section \<open>Lemmas\<close>

lemma str_find_iff: "str_find pat s \<noteq> None \<longleftrightarrow> sublist pat s"
proof (induction s)
  case Nil
  then show ?case by (simp add: str_find.simps)
next
  case (Cons c s)
  then show ?case by (subst str_find.simps) (auto simp: sublist_Cons_right)
qed

lemma strstr_sublist [simp]: "strstr s pat \<longleftrightarrow> sublist pat s"
  by (simp add: strstr_def str_find_iff del: not_None_eq)

lemma suffix_drop: "suffix p s \<longleftrightarrow> length p \<le> length s \<and> drop (length s - length p) s = p"
  by (auto simp: suffix_def) (metis append_take_drop_id)

lemma ifjson_iff: "ifjson f = 1 \<longleftrightarrow> suffix ''json'' f \<and> \<not> sublist ''swp'' f \<and> \<not> sublist ''swx'' f"
proof -
  have "suffix ''json'' f \<Longrightarrow> sublist ''json'' f" by (rule suffix_imp_sublist)
  moreover have "length ''json'' \<le> length f" if "sublist ''json'' f" using that by (rule sublist_length_le)
  ultimately show ?thesis using suffix_drop[of "''json''" f]
    by (auto simp: ifjson_def Let_def eval_nat_numeral)
qed

section \<open>Properties\<close>

text \<open>Which files are configurations, and their task names. A file is taken exactly when its name ends in
  \<open>json\<close> and mentions neither editor file. The task name of \<open>name.json\<close> is \<open>name\<close> when that has at most
  seven characters and no editor suffix in the whole; a longer one overruns the buffer.\<close>

theorem task_file_names:
  assumes "\<not> sublist ''swp'' (name @ ''.json'')" and "\<not> sublist ''swx'' (name @ ''.json'')"
  shows "ifjson (name @ ''.json'') = 1
    \<and> getTaskNameFromEventName (name @ ''.json'') =
        (if length name < 8 then Inr (Some name) else Inl (Undefined Buffer_overflow))"
proof
  have "suffix ''json'' (name @ ''.json'')" by (simp add: suffix_def)
  then show "ifjson (name @ ''.json'') = 1" using assms by (simp add: ifjson_iff)
  have "sublist ''json'' (name @ ''.json'')" by (rule suffix_imp_sublist) fact
  then show "getTaskNameFromEventName (name @ ''.json'') =
        (if length name < 8 then Inr (Some name) else Inl (Undefined Buffer_overflow))"
    using assms by (simp add: getTaskNameFromEventName_def Let_def)
qed

theorem task_file_names_witness:
  "getTaskNameFromEventName ''t0.json'' = Inr (Some ''t0'') \<and> getTaskNameFromEventName ''aggregate.json'' = Inl (Undefined Buffer_overflow)"
proof -
  have n: "\<not> sublist ''swp'' (''t0'' @ ''.json'')" "\<not> sublist ''swx'' (''t0'' @ ''.json'')"
    "\<not> sublist ''swp'' (''aggregate'' @ ''.json'')" "\<not> sublist ''swx'' (''aggregate'' @ ''.json'')" by code_simp+
  from task_file_names[OF n(1,2)] task_file_names[OF n(3,4)] show ?thesis by simp
qed

end
