(* ===== verification/GetIp.thy ===== *)
theory GetIp
  imports GroupManager
begin

text \<open>
  Address discovery of the earlier version, \<open>src/src/utils/getip/getip.cpp\<close>: the address of the only server
  in a file \<open>./ipconfig\<close>, and directories of addresses per cluster whose number follows from the number
  of components. The group manager replaced it; the two agree on where a server goes and on what a client
  finds there. Names shared with the group manager carry the suffix \<open>_getip\<close>.
\<close>

section \<open>State\<close>

record getip =
  GETIPCOMPONENTNUM :: int
  GETIPNUMPERCLUSTER :: int
  GETIPCOMPONENTID :: int
  SERVERCLUSTERNUM :: int
  getip_os :: os

definition multinodeip :: string where "multinodeip = ''./multinodeip''"

text \<open>The quotient \<open>a / b\<close>, truncated towards zero.\<close>

definition c_div :: "int \<Rightarrow> int \<Rightarrow> int res" where
  "c_div a b =
     (if b = 0 then Inl (Undefined Division_by_zero)
      else if a = INT_MIN \<and> b = - 1 then Inl (Undefined Signed_overflow)
      else Inr (sgn a * sgn b * (\<bar>a\<bar> div \<bar>b\<bar>)))"

section \<open>Clusters\<close>

definition getsubClientNum :: "os \<Rightarrow> int res" where
  "getsubClientNum s =
     (case open_dir multinodeip s of
        None \<Rightarrow> Inl (Process_exit 0)
      | Some es \<Rightarrow> Inr (fold (\<lambda>e clusterNum. if e = ''.'' \<or> e = ''..'' then clusterNum else clusterNum + 1) es 0))"

definition getClusterDirByTopicId :: "int \<Rightarrow> os \<Rightarrow> string res" where
  "getClusterDirByTopicId topicid s =
     bindR (getsubClientNum s) (\<lambda>subclusterNum.
       if subclusterNum = 0 then Inl (Process_exit 0)
       else bindR (c_rem topicid subclusterNum) (\<lambda>clusterId.
              Inr (multinodeip @ ''/cluster'' @ to_string clusterId)))"

definition clientClusterDir_getip :: "getip \<Rightarrow> string res" where
  "clientClusterDir_getip g =
     (let clusternum = (if SERVERCLUSTERNUM g = 0 then SERVERCLUSTERNUM g + 1 else SERVERCLUSTERNUM g)
      in bindR (c_rem (GETIPCOMPONENTID g) clusternum) (\<lambda>clusterIndex.
           Inr (multinodeip @ ''/cluster'' @ to_string clusterIndex)))"

definition getClusterDir_getip :: "getip \<Rightarrow> string res" where
  "getClusterDir_getip g =
     bindR (c_div (GETIPCOMPONENTNUM g) (GETIPNUMPERCLUSTER g)) (\<lambda>quotient.
       let clusternum = (if quotient = 0 then quotient + 1 else quotient)
       in bindR (c_rem (GETIPCOMPONENTID g) clusternum) (\<lambda>clusterIndex.
            Inr (multinodeip @ ''/cluster'' @ to_string clusterIndex)))"


definition loadMultiNodeIPPort :: "string \<Rightarrow> getip \<Rightarrow> string list res" where
  "loadMultiNodeIPPort identity g =
     bindR (if identity = ''client'' then clientClusterDir_getip g else getClusterDir_getip g) (\<lambda>dir.
       case open_dir dir (getip_os g) of
         None \<Rightarrow> Inl (Process_exit 0)
       | Some es \<Rightarrow> Inr (filter (\<lambda>e. \<not> (e = ''.'' \<or> e = ''..'')) es))"

section \<open>Recording an address\<close>

text \<open>A stream opened on a directory holds a descriptor until it is closed.\<close>

definition hold :: "os \<Rightarrow> os" where
  "hold s = s\<lparr>fds := fds s @ [lowest_fd s]\<rparr>"

partial_function (option) mkdirLoop :: "string \<Rightarrow> os \<Rightarrow> os option" where
  "mkdirLoop dir s =
     (case mkdir dir s of
        (ok, s') \<Rightarrow> if \<not> ok then (if opens dir s' then Some (hold s') else mkdirLoop dir s') else Some s')"

definition ensureDir :: "string \<Rightarrow> os \<Rightarrow> os option" where
  "ensureDir dir s = (if opens dir s then Some (hold s) else mkdirLoop dir s)"

text \<open>The result pairs \<open>ipstr\<close>, assigned at the end only, with the file system. Both streams are closed after both
  directories exist.\<close>

definition recordIPortForMultiNode :: "string \<Rightarrow> string \<Rightarrow> string \<Rightarrow> getip \<Rightarrow> (string \<times> os) res option" where
  "recordIPortForMultiNode ip ipstr port g =
     (case getClusterDir_getip g of
        Inl e \<Rightarrow> Some (Inl e)
      | Inr dirSecond \<Rightarrow>
          Option.bind (ensureDir multinodeip (getip_os g)) (\<lambda>s1.
          Option.bind (ensureDir dirSecond s1) (\<lambda>s2.
            let s3 = s2\<lparr>fds := fds (getip_os g)\<rparr>
            in Some (bindR (sprintf100 (dirSecond @ ''/'' @ ip @ '':'' @ port)) (\<lambda>addrFile.
                 let (ok, s4) = write_file addrFile [] s3
                 in Inr (if ok then ip else ipstr, s4))))))"

section \<open>The file \<open>ipconfig\<close>\<close>

definition recordIPPort :: "string \<Rightarrow> string \<Rightarrow> string \<Rightarrow> os \<Rightarrow> string \<times> os" where
  "recordIPPort ip ipstr port s =
     (let (ok, s') = write_file ''./ipconfig'' (ip @ '':'' @ port @ [CHR 0x0A]) s
      in if ok then (ip, s') else (ipstr, s))"

text \<open>\<open>fgets\<close> with room for \<open>n\<close> characters: up to and including the next newline.\<close>

fun fgets :: "nat \<Rightarrow> string \<Rightarrow> string \<times> string" where
  "fgets 0 s = ([], s)"
| "fgets (Suc n) [] = ([], [])"
| "fgets (Suc n) (c # s) = (if c = CHR 0x0A then ([c], s) else let (a, b) = fgets n s in (c # a, b))"

lemma fgets_append: "fst (fgets n s) @ snd (fgets n s) = s"
  by (induction n s rule: fgets.induct) (auto simp: case_prod_beta)

lemma fgets_shorter: "s \<noteq> [] \<Longrightarrow> length (snd (fgets (Suc n) s)) < length s"
proof (cases s)
  case (Cons c t)
  have "length (snd (fgets n t)) \<le> length t"
    using arg_cong[OF fgets_append[of n t], of length] by simp
  with Cons show ?thesis by (simp add: case_prod_beta)
qed simp

text \<open>The loop over the lines: the buffer holds the last one without its last character, \<open>None\<close> before the
  first.\<close>

function readLoop :: "string option \<Rightarrow> string \<Rightarrow> string option" where
  "readLoop buf s =
     (if s = [] then buf else let (line, rest) = fgets 255 s in readLoop (Some (butlast line)) rest)"
  by pat_completeness auto
termination
proof (relation "measure (\<lambda>(buf, s). length s)")
  fix s :: string and x line rest
  assume "s \<noteq> []" and "x = fgets 255 s" and "(line, rest) = x"
  then show "((Some (butlast line), rest), buf, s) \<in> measure (\<lambda>(buf, s). length s)" for buf
    using fgets_shorter[of s 254] by (auto simp: eval_nat_numeral dest: arg_cong[of _ _ snd])
qed simp

declare readLoop.simps [simp del]

text \<open>\<open>strtok\<close> with one separator: the next word and what follows its end.\<close>

definition strtok :: "char \<Rightarrow> string \<Rightarrow> (string \<times> string) option" where
  "strtok sep s =
     (let t = dropWhile (\<lambda>c. c = sep) s
      in if t = [] then None else Some (takeWhile (\<lambda>c. c \<noteq> sep) t, tl (dropWhile (\<lambda>c. c \<noteq> sep) t)))"

text \<open>A \<open>std::string\<close> made of the null pointer is undefined.\<close>

definition loadIPPort :: "string \<Rightarrow> string \<Rightarrow> string \<Rightarrow> os \<Rightarrow> (int \<times> string \<times> string) res" where
  "loadIPPort configpath ipstr port s =
     (if \<not> opens configpath s then Inr (1, ipstr, port)
      else case readLoop None (read_file configpath s) of
             None \<Rightarrow> Inl (Undefined Uninitialized)
           | Some buf \<Rightarrow>
               (case strtok (CHR '':'') buf of
                  None \<Rightarrow> Inl (Undefined Null_pointer)
                | Some (p, buf') \<Rightarrow>
                    (case strtok (CHR '':'') buf' of
                       None \<Rightarrow> Inl (Undefined Null_pointer)
                     | Some (q, _) \<Rightarrow> Inr (0, p, q))))"


section \<open>Lemmas\<close>


text \<open>One line of at most 254 characters and its newline.\<close>

lemma fgets_line:
  "CHR 0x0A \<notin> set l \<Longrightarrow> length l < n \<Longrightarrow> fgets n (l @ CHR 0x0A # r) = (l @ [CHR 0x0A], r)"
proof (induction l arbitrary: n)
  case Nil
  then show ?case by (cases n) auto
next
  case (Cons c l)
  then show ?case by (cases n) auto
qed

lemma readLoop_line:
  assumes "CHR 0x0A \<notin> set l" and "length l < 255"
  shows "readLoop buf (l @ [CHR 0x0A]) = Some l"
  using fgets_line[OF assms, of "[]"] by (subst readLoop.simps) (simp add: readLoop.simps)

lemma strtok_word:
  assumes "w \<noteq> []" and "sep \<notin> set w"
  shows "strtok sep (w @ sep # r) = Some (w, r)" and "strtok sep w = Some (w, [])"
proof -
  have all: "\<forall>c \<in> set w. c \<noteq> sep" using assms(2) by auto
  then have "takeWhile (\<lambda>c. c \<noteq> sep) (w @ sep # r) = w" "dropWhile (\<lambda>c. c \<noteq> sep) (w @ sep # r) = sep # r"
    "takeWhile (\<lambda>c. c \<noteq> sep) w = w" "dropWhile (\<lambda>c. c \<noteq> sep) w = []" by auto
  moreover have "dropWhile (\<lambda>c. c = sep) (w @ t) = w @ t" for t using assms by (cases w) auto
  from this[of "sep # r"] this[of "[]"] have "dropWhile (\<lambda>c. c = sep) (w @ sep # r) = w @ sep # r"
    "dropWhile (\<lambda>c. c = sep) w = w" by simp_all
  ultimately show "strtok sep (w @ sep # r) = Some (w, r)" "strtok sep w = Some (w, [])"
    using assms(1) by (simp_all add: strtok_def del: dropWhile_eq_Nil_conv takeWhile_eq_all_conv)
qed

text \<open>A file of the working directory can be written, and is read back, when nothing but a file is there.\<close>

lemma write_read:
  assumes "can_open s" and "is_dir ''.'' s" and "\<not> is_dir p s" and "dir_name p = ''.''" and "p \<noteq> ''.''"
  obtains s' where "write_file p content s = (True, s')" "opens p s'" "read_file p s' = content"
proof (cases "files s p")
  case None
  let ?s' = "s\<lparr>files := link p (FileNode content) (files s)\<rparr>"
  have "files ?s' p = Some (FileNode content)"
    using base_not_dir[of p "FileNode content" "files s"] assms(2,4,5) by (simp add: is_dir_iff)
  moreover have "write_file p content s = (True, ?s')" using None assms by (simp add: write_file_def)
  ultimately show thesis using assms(1) by (intro that[of ?s']) (simp_all add: opens_def read_file_def can_open_def)
next
  case (Some n)
  with assms(3) obtain c where c: "n = FileNode c" by (cases n) (auto simp: is_dir_iff)
  let ?s' = "s\<lparr>files := (files s)(p \<mapsto> FileNode content)\<rparr>"
  have "write_file p content s = (True, ?s')" using Some c assms(1) by (simp add: write_file_def)
  then show thesis using assms(1) by (intro that[of ?s']) (simp_all add: opens_def read_file_def can_open_def)
qed

section \<open>Properties\<close>



text \<open>The address of the server survives the file. What \<open>recordIPPort\<close> wrote, \<open>loadIPPort\<close> returns, for
  addresses without separators that fit the buffer.\<close>

theorem ipconfig_roundtrip:
  assumes "can_open s" and "is_dir ''.'' s" and "\<not> is_dir ''./ipconfig'' s"
    and "ip \<noteq> []" and "port \<noteq> []" and "CHR '':'' \<notin> set (ip @ port)" and "CHR 0x0A \<notin> set (ip @ port)"
    and "length ip + length port < 254"
  shows "fst (recordIPPort ip ipstr port s) = ip
    \<and> loadIPPort ''./ipconfig'' a b (snd (recordIPPort ip ipstr port s)) = Inr (0, ip, port)"
proof -
  have path: "dir_name ''./ipconfig'' = ''.''" using path_parts(2)[of "''ipconfig''" "''.''"] by simp
  obtain s' where w: "write_file ''./ipconfig'' (ip @ '':'' @ port @ [CHR 0x0A]) s = (True, s')"
    and o: "opens ''./ipconfig'' s'" and r: "read_file ''./ipconfig'' s' = ip @ '':'' @ port @ [CHR 0x0A]"
    using write_read[OF assms(1-3) path] by auto
  have "readLoop None (read_file ''./ipconfig'' s') = Some (ip @ CHR '':'' # port)"
    using readLoop_line[of "ip @ CHR '':'' # port" None] assms(7,8) r by simp
  then have "loadIPPort ''./ipconfig'' a b s' = Inr (0, ip, port)"
    using o assms(4-6) by (simp add: loadIPPort_def strtok_word)
  with w show ?thesis by (simp add: recordIPPort_def)
qed


theorem ipconfig_roundtrip_witness:
  "\<exists>s. can_open s \<and> loadIPPort ''./ipconfig'' [] [] (snd (recordIPPort ''10.0.0.7'' [] ''50051'' s)) = Inr (0, ''10.0.0.7'', ''50051'')"
proof -
  let ?s = "\<lparr>files = [''.'' \<mapsto> DirNode [''.'', ''..'']], fds = [0, 1, 2], fdLimit = 9\<rparr>"
  have "can_open ?s" "is_dir ''.'' ?s" "\<not> is_dir ''./ipconfig'' ?s" by (simp_all add: can_open_def is_dir_def)
  then show ?thesis using ipconfig_roundtrip[of ?s "''10.0.0.7''" "''50051''"] by auto
qed

end
