(* ===== verification/Spec2Isabelle.thy ===== *)
theory Spec2Isabelle
  imports Cluster Startup ResultQueue PubSubRaces EventNotify Serial Watch Operator TaskManager MetaClient RedisClient LoadData GetIp
begin

text \<open>
  Verification of TPST, a publish/subscribe service that starts the tasks of scientific workflows when
  the events they wait for have been published. All paths are relative to \<open>src/\<close>.

  \<^bold>\<open>The program.\<close> Servers (\<open>src/server\<close>) form groups, each with one coordinator. A client subscribes to
  events at a server and is triggered when every required event has been published exactly the required
  number of times; publications are broadcast within a group and between coordinators. A server finds its
  peers through directories of files named after addresses (\<open>src/utils/groupManager\<close>), which it reads under
  a lock file (\<open>src/utils/dlm\<close>), and a coordinator moves subscriptions away from overloaded servers
  (\<open>src/utils/coordinator\<close>). An operator (\<open>src/operator\<close>) registers tasks as bundles of triggers and submits
  them to the batch system when it is notified. An older layer (\<open>src/observer\<close>) reads trigger
  configurations and keeps an event store of tasks inside one process. A metadata server
  (\<open>src/metadatamanagement\<close>) keeps timers and metadata queues. A small client for a Redis server
  (\<open>src/redisclient\<close>) starts actions on the messages of a channel. The workflows are simulations, such as the
  particle simulation of \<open>example/simulation\<close>, and \<open>tests/eventNotify.cpp\<close> is a client that drives the servers.

  \<^bold>\<open>The theories.\<close>
  \<^item> \<open>Prelude\<close>: failures of a C++ computation (exceptions, \<open>exit\<close>, undefined behaviour) as values, sequencing
    and loops over results, reachable states and runs of a step relation with the locale \<open>inv_system\<close>.
  \<^item> \<open>StdContainers\<close>, \<open>StdString\<close>, \<open>Double\<close>, \<open>DoubleMath\<close>, \<open>OsFiles\<close>: what the sources use of the language and the system:
    \<open>std::map\<close>, \<open>std::set\<close> and \<open>std::deque\<close> as sorted association lists, lists and queues (locales for stores and
    queues), \<open>std::string\<close> with its failure cases, \<open>double\<close> rounding, its order and the square root, files, directories and descriptors.
  \<^item> \<open>StrParse\<close>: \<open>utils/split\<close> and \<open>utils/strparse\<close>; metadata of the form \<open>GRID[..]%TS[..]\<close> reads back.
  \<^item> \<open>PubSub\<close>, \<open>PubSubSpec\<close>: \<open>server/pubsub.cc\<close>. The record \<open>pubsub\<close> holds the globals \<open>subtoClient\<close> and
    \<open>getIndexMap\<close> and a heap of wrappers with explicit addresses; one definition per function. \<open>PubSubSpec\<close>
    states the pointer-free specification, the refinement, and when a subscriber is triggered.
  \<^item> \<open>PubSubThreads\<close>: the same functions as threads whose steps are their critical sections, in any interleaving:
    a thread alone does what the function does, which runs are free of bad pointers, and which lose an event.
    \<open>PubSubCounts\<close>: over them, with every increment one step, concurrent publications lose no count; the source does
    not make its increments atomic. \<open>PubSubRaces\<close>: with the test, the insertion, the read and the write of a counter as
    steps of their own, publications can lose counts, never gain them, and an event that one thread alone publishes
    is still counted exactly.
  \<^item> \<open>Coordinator\<close>, \<open>Dlm\<close>, \<open>GroupManager\<close>, \<open>PubSubClient\<close>: the components of the same names; planning of moves,
    mutual exclusion of the lock, membership and placement of events, client tables and RPC stubs.
  \<^item> \<open>WorkflowServer\<close>: \<open>server/workflowserver.cc\<close>. The record \<open>server\<close> joins registry, membership, client tables
    and load record with the queues between the threads; every handler is a definition, and \<open>serving\<close> is the
    step relation of a process. \<open>Startup\<close> models \<open>main\<close> and \<open>RunServer\<close>.
  \<^item> \<open>Cluster\<close>: several servers with messages and broadcast threads in any order, over the definitions of
    \<open>WorkflowServer\<close>; who receives a publication, how often, and that broadcasts end.
  \<^item> \<open>ThreadPool\<close>: \<open>utils/threadpool/ThreadPool.h\<close> as a state machine of its workers. \<open>ResultQueue\<close>: the futures of its
    tasks, filed by \<open>startNotify\<close> and collected by the thread \<open>check\<close> of \<open>server/workflowserver.cc\<close> under a mutex.
  \<^item> \<open>MetaServer\<close>, \<open>MetaClient\<close>: \<open>metadatamanagement\<close>, the handlers and the start of the server, the stubs and helper
    functions of the client, and one timer per key as the specification of the timer handlers.
  \<^item> \<open>RedisClient\<close>: \<open>redisclient\<close> and \<open>storage/memcache.cpp\<close>.
  \<^item> \<open>EventManager\<close>, \<open>TaskManager\<close>: \<open>observer\<close> and the task starters of \<open>runtime\<close>; from a configuration to the
    commands it starts, the event store and the recursion of a publication through it.
  \<^item> \<open>Operator\<close>: \<open>operator/operator.cc\<close> and \<open>operator/notifyserver.cc\<close>.
  \<^item> \<open>EventNotify\<close>: \<open>tests/eventNotify.cpp\<close>, over the event manager and the placement of events; which server every
    request goes to. \<open>Watch\<close>: \<open>tests/watchnotify.c\<close>.
  \<^item> \<open>Particles\<close>, \<open>Serial\<close>: \<open>example/simulation\<close> and its copy \<open>tests/nbodytest\<close>, \<open>common.cpp\<close> and the main programs:
    the grid of the particles, forces, reflection at the walls, and which runs are free of undefined behaviour.
  \<^item> \<open>LoadData\<close>, \<open>GetIp\<close>: \<open>utils/file\<close> and the earlier address discovery \<open>utils/getip\<close>, which agrees with the group
    manager.
  This theory adds what spans server and operator.

  \<^bold>\<open>What the properties show.\<close> Invariants: the registry has only live, unshared wrappers and complete indices;
  the pool runs each accepted task once; the event store files each task exactly once; with interleaved increments the sum
  of counters and deliveries left never exceeds the number of publications, and equals it for an event of one publisher
  (a library theorem: for all events, were increments atomic). Function: a subscriber
  is triggered exactly when its requirement is met at some moment; a publication queues one notification for
  each triggered subscriber; a publication reaches exactly the stated servers of a cluster, once each; a
  bundle ends in the submission of its template; the requests of a client about one event go to one group;
  both versions of the address discovery place a server alike;
  the particles start at distinct points of the box. Termination: broadcasts, pool destruction and, when events
  form no cycle, publications of the event store end; a particle is reflected into the box in finitely many steps; every future of a notification task is collected when the
  pool has a worker. Safety: at most one holder of a lock; a run that loses an increment
  exists; every run of the example simulation reads uninitialised memory; no task of the pool uses a deleted wrapper while the
  server serves subscriptions and publications, and interleaved handlers never follow a bad pointer as long as
  nothing is removed. Types: the strings of the event store fit their arrays. Other properties state exactly
  when an operation fails: the planner, redistribution. Further theorems that are not listed as properties (the lock
  that spins, deletion from the event store, membership, overshooting counters, a pool without workers, Newton's
  third law, the copy of the simulation) stand beside them in the same theories.

  \<^bold>\<open>Conventions.\<close> An \<open>int\<close> is an integer with the range check where the code computes; a result outside 32 bits is
  \<open>Signed_overflow\<close>. A loop that may not end is a partial function into \<open>option\<close> (\<open>None\<close> is no return); no fuel
  is used anywhere, and termination is proved where it is claimed. An exception or undefined behaviour ends
  the modelled run. A request handler, a task of the pool, a round of the notification thread and a broadcast
  thread are atomic steps; the model interleaves them but not their insides, except in \<open>PubSubThreads\<close> and
  \<open>ResultQueue\<close>, whose steps are critical sections, in \<open>PubSubRaces\<close>, where the four parts of an increment are steps (the test of the trigger
  belongs to the last), and in the metadata server, where the test and the removal
  are separate steps. \<open>readdir\<close> returns entries in the order of creation, and
  file operations do not fail for lack of permission or space, nor does \<open>malloc\<close>. Strings hold no NUL. A \<open>double\<close> has unbounded
  exponent, and every operation is rounded by itself, without contraction to a fused one. Parameters of the model are: the network's answers, the interface address and free port, the MPI
  rank, the clock, \<open>rand\<close>, \<open>lrand48\<close> and \<open>drand48\<close>, the events of \<open>inotify\<close>, \<open>std::sort\<close> (any permutation sorted by the comparison), uuids, the JSON parser,
  \<open>dlopen\<close>/\<open>dlsym\<close> and the functions found by them, the replies of hiredis, and the output of \<open>sbatch\<close>. Log output and timing are left out.

  \<^bold>\<open>Not modelled.\<close> The gRPC set-up and the wire format (generated code outside the tree); \<open>periodChecking\<close>, which a
  constant switches off and which only calls \<open>checkOverload\<close> and prints; \<open>TaskFilterAndAggregation\<close>, whose work is
  inside a comment; \<open>observer/subject.cpp\<close>, which compiles neither as C++ nor as C; data races
  inside \<open>std::map\<close> itself, when two threads insert into the counters of one wrapper; the vendored libraries under
  \<open>deps\<close>; the VTK example, the printing drivers among the tests, several of which call functions that no longer
  exist, and the scripts.
\<close>

section \<open>From a bundle to its job\<close>

lemma notifyRound_commands:
  "notifyRound k s = Inr s' \<Longrightarrow> sent s' = sent s \<and> length (commands s') = length (commands s) + min k (length (notifyQueue s))"
proof (induction k arbitrary: s)
  case (Suc k)
  then show ?case
    by (cases "notifyQueue s") (auto simp: list_pop_def startTask_def Let_def bindR_eq_Inr split: if_splits dest!: Suc.IH)
qed simp

lemma notification_round:
  assumes "getElementFromNotifyQ s = Inr s'"
  shows "sent s' = sent s \<and> length (commands s') = length (commands s) + min 512 (length (notifyQueue s))"
proof -
  have "min (if length (notifyQueue s) < 512 then length (notifyQueue s) else 512) (length (notifyQueue s)) =
      min 512 (length (notifyQueue s))" by simp
  with notifyRound_commands[OF assms[unfolded getElementFromNotifyQ_def Let_def]] show ?thesis by simp
qed

text \<open>A subscriber to one plain event that is published once carries the metadata of that publication.\<close>

lemma single_event_heard:
  assumes "pubsub_inv r" and "ParseEvents [T] = Inr [(T, 1)]"
    and "pubsubSubscribe [T] cl a ''NAME'' meta0 r = Inr r1" and "pubsubPublish [T] ''NAME'' meta r1 = Inr r2"
  obtains w where "view r2 (T, cl) = Some w" "iftrigure w" "info_of w = \<lparr>naddr = a, metaInfo = meta, nclientid = cl\<rparr>"
    "T \<in> index_of r2 T"
proof -
  let ?w = "subscribed cl a [(T, 1)] ''NAME'' meta0"
  have run: "publishAll [([T], meta)] r1 = Inr r2" using assms(4) by (simp add: publishAll_def)
  obtain D where v: "view r2 (T, cl) = Some (heard D (trace_of [([T], meta)]) ?w)" and D: "D T"
    using subscriber_after_run[OF assms(1) _ assms(2,3) run] by auto
  have tr: "heard D (trace_of [([T], meta)]) ?w = received ''NAME'' meta T ?w"
    using D by (simp add: trace_of_def heard_def hear_def)
  have "exactly {(T, 1)} [T]" by (auto simp: exactly_def)
  then have "\<exists>k \<le> length (concat (map fst [([T], meta)])). exactly (set [(T, 1::int)]) (take k (concat (map fst [([T], meta)])))"
    by (intro exI[of _ 1]) simp
  then have flag: "iftrigure (received ''NAME'' meta T ?w)"
    using subscriber_triggered_iff[OF assms(1) _ assms(2,3) run] v tr by (simp add: INT_MAX_def)
  have "received ''NAME'' meta T ?w = (if checkIfTriggure (bump T ?w) then mark meta (bump T ?w) else bump T ?w)"
    by (rule received_NAME) (simp_all add: subscribed_fresh INT_MAX_def map_at_def)
  then have "pubMetadata (received ''NAME'' meta T ?w) = meta"
    using flag subscribed_fresh(2)[of cl a] by (auto simp: mark_def bump_def split: if_splits)
  then have "info_of (received ''NAME'' meta T ?w) = \<lparr>naddr = a, metaInfo = meta, nclientid = cl\<rparr>"
    by (simp add: info_of_def received_keeps) (simp add: subscribed_def)
  moreover have "index_of r2 T = index_of r1 T"
    using publish_refines_aux[OF assms(4) pubsubSubscribe_inv[OF assms(1,3)]] by simp
  moreover have "r1 = enroll cl T [(T, 1)] ?w r" using assms(2,3) by (simp add: pubsubSubscribe_outcome)
  ultimately show thesis using v tr flag by (intro that) (auto simp: enroll_index)
qed


lemma register_sends:
  assumes "testBundleRegister sbatch pre post g n task templates T preM ''NONE'' postM x = Inr y" and "T \<noteq> ''INIT''"
  shows "op_sent y = op_sent x @ [(g, RpcSubscribe (subscribe_request [T] pre n ''CLIENT'' ''NAME'' preM))]"
  using assms by (auto simp: testBundleRegister_def Let_def)

text \<open>What the server queues after serving the subscription and one publication of its event.\<close>

lemma bundle_queued:
  assumes "pubsub_inv (reg s)" and "pool s = []" and "pre \<noteq> []" and "ParseEvents [T] = Inr [(T, 1)]"
    and "Subscribe peer (subscribe_request [T] pre n ''CLIENT'' ''NAME'' preM) s = Some (Inr (m1, s1))"
    and "Publish (publish_request [T] ''CLIENT'' meta ''NAME'') s1 = Inr (m2, s2)"
  shows "\<exists>s3. run_pool s2 = Inr s3 \<and> \<lparr>naddr = n, metaInfo = meta, nclientid = pre\<rparr> \<in> set (notifyQueue s3)"
proof -
  let ?pub = "publish_request [T] ''CLIENT'' meta ''NAME''"
  have sub: "pubsubSubscribe [T] pre n ''NAME'' preM (reg s) = Inr (reg s1)" "pool s1 = []"
    using Subscribe_registers[OF assms(5)] assms(2,3) by (simp_all add: subscribe_request_def)
  have inv1: "pubsub_inv (reg s1)" by (rule pubsubSubscribe_inv[OF assms(1) sub(1)])
  have ne: "pubsubmessage ?pub \<noteq> []" by (simp add: publish_request_def)
  have pub: "pubsubPublish [T] ''NAME'' meta (reg s1) = Inr (reg s2)"
    using Publish_outcome(1)[OF inv1 assms(6) ne] by (simp add: publish_request_def)
  obtain w where w: "view (reg s2) (T, pre) = Some w" "iftrigure w"
      "info_of w = \<lparr>naddr = n, metaInfo = meta, nclientid = pre\<rparr>" "T \<in> index_of (reg s2) T"
    using single_event_heard[OF assms(1,4) sub(1) pub] .
  obtain s3 where s3: "run_pool s2 = Inr s3"
      "notifyQueue s3 = notifyQueue s1 @ map info_of (filter iftrigure (map (\<lambda>a. the (heap (reg s2) a)) (pool s2)))"
      "set (pool s2) = filed (reg s2) (index_of (reg s2) T)"
    using publish_settles[OF inv1 sub(2) ne assms(6)] by (auto simp: publish_request_def)
  from w(1) obtain a where a: "lookup2 (reg s2) T pre = Some a" "heap (reg s2) a = Some w"
    by (auto simp: view_def split: option.splits)
  with w(4) s3(3) have "a \<in> set (pool s2)" by (auto simp: filed_def)
  then have "w \<in> set (filter iftrigure (map (\<lambda>a. the (heap (reg s2) a)) (pool s2)))"
    using a(2) w(2) by force
  then have "info_of w \<in> set (notifyQueue s3)" unfolding s3(2) by simp
  with s3(1) w(3) show ?thesis by auto
qed

text \<open>C3: from a bundle to its job. An operator registers a task with a pre-trigger on a plain event \<open>T\<close>; the
  registration sends one subscription. When an idle server serves that subscription and then one publication
  of \<open>T\<close>, its pool queues a notification with the notify address, the id of the pre-trigger and the metadata of
  the publication; the handler of that notification at the operator submits the template exactly once. The
  notification thread of the server as it is now makes no call at all: it starts one local command for each
  of up to 512 queued notifications.\<close>

theorem bundle_to_job:
  assumes "testBundleRegister sbatch pre post g n task templates T preM ''NONE'' postM x = Inr y"
    and "T \<noteq> ''INIT''" and "pre \<noteq> post" and "pre \<noteq> []" and "op_sent y = op_sent x @ [(g, RpcSubscribe req)]"
    and "is_int32 (NotifiedNum y + 1)" and "5 \<le> length (sbatch (sbatch_command templates))"
    and "pubsub_inv (reg s)" and "pool s = []" and "ParseEvents [T] = Inr [(T, 1)]"
    and "Subscribe peer req s = Some (Inr (m1, s1))"
    and "Publish (publish_request [T] ''CLIENT'' meta ''NAME'') s1 = Inr (m2, s2)"
  shows "\<exists>s3 ninfo y'. run_pool s2 = Inr s3 \<and> ninfo \<in> set (notifyQueue s3)
    \<and> ninfo = \<lparr>naddr = n, metaInfo = meta, nclientid = pre\<rparr>
    \<and> Notify sbatch (nclientid ninfo) (metaInfo ninfo) y = Inr (''OK'', y')
    \<and> op_commands y' = op_commands y @ [sbatch_command templates]
    \<and> (\<forall>s4. getElementFromNotifyQ s3 = Inr s4 \<longrightarrow> sent s4 = sent s3
          \<and> length (commands s4) = length (commands s3) + min 512 (length (notifyQueue s3)))"
proof -
  have req: "req = subscribe_request [T] pre n ''CLIENT'' ''NAME'' preM"
    using register_sends[OF assms(1,2)] assms(5) by simp
  obtain s3 where s3: "run_pool s2 = Inr s3" "\<lparr>naddr = n, metaInfo = meta, nclientid = pre\<rparr> \<in> set (notifyQueue s3)"
    using bundle_queued[OF assms(8,9,4,10) assms(11)[unfolded req] assms(12)] by blast
  note act = Action_registered(1)[OF register_registered[OF assms(1,3)]]
  have "\<exists>y'. Notify sbatch pre meta y = Inr (''OK'', y') \<and> op_commands y' = op_commands y @ [sbatch_command templates]"
    using assms(6,7) by (simp add: Notify_def act runTask_outcome Let_def)
  with s3 notification_round[of s3] show ?thesis by auto
qed

theorem bundle_to_job_witness:
  "\<exists>y s1 s2 s3. testBundleRegister demo_sbatch ''i'' ''j'' ''h:1'' ''n:1'' ''ANA'' ''t.scripts'' ''GO'' [] ''NONE'' [] demo_oper = Inr y
    \<and> Subscribe ''ipv4:c:9'' (subscribe_request [''GO''] ''i'' ''n:1'' ''CLIENT'' ''NAME'' []) idle_server = Some (Inr (''SUBSCRIBED'', s1))
    \<and> Publish (publish_request [''GO''] ''CLIENT'' ''m'' ''NAME'') s1 = Inr (''OK'', s2)
    \<and> run_pool s2 = Inr s3 \<and> \<lparr>naddr = ''n:1'', metaInfo = ''m'', nclientid = ''i''\<rparr> \<in> set (notifyQueue s3)"
proof -
  let ?req = "subscribe_request [''GO''] ''i'' ''n:1'' ''CLIENT'' ''NAME'' []"
  let ?pub = "publish_request [''GO''] ''CLIENT'' ''m'' ''NAME''"
  obtain y where y: "testBundleRegister demo_sbatch ''i'' ''j'' ''h:1'' ''n:1'' ''ANA'' ''t.scripts'' ''GO'' [] ''NONE'' [] demo_oper = Inr y"
    "NotifiedNum y = 0" using demo_registers by metis
  have "case Subscribe ''ipv4:c:9'' ?req idle_server of
      Some (Inr (m1, s1)) \<Rightarrow> m1 = ''SUBSCRIBED'' \<and> map_sum id fst (Publish ?pub s1) = Inr ''OK''
    | _ \<Rightarrow> False" by code_simp
  then obtain s1 where s1: "Subscribe ''ipv4:c:9'' ?req idle_server = Some (Inr (''SUBSCRIBED'', s1))"
      "map_sum id fst (Publish ?pub s1) = Inr ''OK''"
    by (auto split: option.splits sum.splits)
  from s1(2) obtain s2 where "Publish ?pub s1 = Inr (''OK'', s2)" by (cases "Publish ?pub s1") auto
  note s = s1(1) this
  have T: "ParseEvents [''GO''] = Inr [(''GO'', 1)]" by code_simp
  have sent: "op_sent y = op_sent demo_oper @ [(''h:1'', RpcSubscribe ?req)]" by (rule register_sends[OF y(1)]) simp
  have idle: "pubsub_inv (reg idle_server)" "pool idle_server = []" by (simp_all add: idle_server_def pubsub_inv_start)
  have "is_int32 (NotifiedNum y + 1)" "5 \<le> length (demo_sbatch (sbatch_command ''t.scripts''))"
    by (simp_all add: y(2) is_int32_def INT_MIN_def INT_MAX_def demo_sbatch_def)
  from bundle_to_job[OF y(1) _ _ _ sent this idle T s] y(1) s show ?thesis by auto
qed

end
